(* ===== verification/Qraft_Base.thy ===== *)
theory Qraft_Base
  imports Complex_Main "HOL-Library.AList" "HOL-Library.Product_Lexorder"
begin

text \<open>
  Prelude of the django-qraft development: Python values and dicts, error values, the
  queryset operations every component uses on its tables, and the two interfaces the
  components share.
  \<^item> Instants and durations are rational numbers of seconds, identifiers (UUIDs, Django-Q2
    task ids) are natural numbers.
  \<^item> A table is the list of its rows. \<open>upd_where\<close> is
    \<^verbatim>\<open>filter(P).update(f)\<close>, \<open>hits\<close> the number of rows that update
    matched, \<open>get_by\<close> is \<^verbatim>\<open>filter(pk=i).first()\<close>.
  \<^item> \<open>cas_once\<close> is the contract of every compare-and-swap of the program (claiming an
    attempt, resolving it, settling a workflow or a graph, dispatching a hook): whoever
    fires first closes it for the others.
  \<^item> \<open>step_invariant\<close> lifts an invariant of single steps to whole runs.
\<close>

named_theorems table_simps \<open>rewrite rules of the queryset operations\<close>

section \<open>Identifiers, times, values\<close>

type_synonym id = nat
type_synonym q2id = nat
type_synonym time = rat
type_synonym secs = rat

datatype pyval =
    PNone
  | PBool bool
  | PInt int
  | PFloat rat
  | PDec rat
  | PStr string
  | PMoney rat
  | PList "pyval list"
  | PDict "(string \<times> pyval) list"

text \<open>
  \<open>PDec r\<close> is a Decimal, which a caller may pass and which the JSON columns store as its
  string. \<open>PMoney r\<close> is a (non-empty) string whose decimal reading is \<open>r\<close>, the form in which
  the usage columns keep money; \<open>PStr\<close> is any other string.
\<close>

text \<open>A Python dict keeps the order of insertion; assigning to a present key keeps its place.\<close>

type_synonym dict = "(string \<times> pyval) list"

definition dict_get :: "dict \<Rightarrow> string \<Rightarrow> pyval option" where
  "dict_get d k = map_of d k"

definition dict_set :: "string \<Rightarrow> pyval \<Rightarrow> dict \<Rightarrow> dict" where
  "dict_set k v d = AList.update k v d"

text \<open>\<^verbatim>\<open>{**a, **b}\<close>, also \<^verbatim>\<open>a.update(b)\<close>.\<close>

fun dict_merge :: "dict \<Rightarrow> dict \<Rightarrow> dict" where
  "dict_merge a [] = a"
| "dict_merge a ((k, v) # b) = dict_merge (dict_set k v a) b"

fun truthy :: "pyval \<Rightarrow> bool" where
  "truthy PNone = False"
| "truthy (PBool b) = b"
| "truthy (PInt i) = (i \<noteq> 0)"
| "truthy (PFloat r) = (r \<noteq> 0)"
| "truthy (PDec r) = (r \<noteq> 0)"
| "truthy (PStr s) = (s \<noteq> [])"
| "truthy (PMoney r) = True"
| "truthy (PList xs) = (xs \<noteq> [])"
| "truthy (PDict d) = (d \<noteq> [])"

lemma dict_get_set [simp]:
  "dict_get (dict_set k v d) k' = (if k' = k then Some v else dict_get d k')"
  by (simp add: dict_get_def dict_set_def update_conv')

lemma dict_get_Nil [simp]: "dict_get [] k = None"
  by (simp add: dict_get_def)

lemma dict_get_Cons [simp]:
  "dict_get ((k', v) # d) k = (if k = k' then Some v else dict_get d k)"
  by (simp add: dict_get_def)

lemma dict_get_merge:
  "dict_get (dict_merge a b) k =
     (case map_of (rev b) k of Some v \<Rightarrow> Some v | None \<Rightarrow> dict_get a k)"
  by (induction a b rule: dict_merge.induct)
    (auto simp: map_add_def split: option.splits)

text \<open>\<^verbatim>\<open>int(x)\<close> truncates towards zero.\<close>

definition py_int :: "rat \<Rightarrow> int" where
  "py_int x = (if 0 \<le> x then \<lfloor>x\<rfloor> else \<lceil>x\<rceil>)"

lemma py_int_nonneg: "0 \<le> x \<Longrightarrow> 0 \<le> py_int x"
  by (simp add: py_int_def)

lemma py_int_le: "0 \<le> x \<Longrightarrow> x \<le> y \<Longrightarrow> of_int (py_int x) \<le> y"
  by (simp add: py_int_def) (meson of_int_floor_le order_trans)

lemma py_int_mono: "0 \<le> x \<Longrightarrow> x \<le> y \<Longrightarrow> py_int x \<le> py_int y"
  by (simp add: py_int_def floor_mono)

lemma py_int_ge_of_int: "0 \<le> i \<Longrightarrow> of_int i \<le> x \<Longrightarrow> i \<le> py_int x"
  by (auto simp: py_int_def le_floor_iff intro: order_trans [of 0 "rat_of_int i"])

section \<open>Errors\<close>

text \<open>
  What the modelled code raises; \<open>TypeError\<close> also stands for the AttributeError and the
  decimal InvalidOperation of a value of the wrong kind. An operation that may raise returns
  \<open>err + 'a\<close>; an operation inside \<^verbatim>\<open>transaction.atomic()\<close> that raises
  returns no state, since its writes roll back.
\<close>

datatype err =
    GraphError string
  | ValueError string
  | InvalidStatusTransition
  | DoesNotExist
  | IntegrityError
  | BrokerError
  | BudgetExhausted
  | RateLimited
  | RedeliveredAttempt
  | TypeError
  | KeyError
  | ImportError
  | TimeoutError
  | TaskResultDoesNotExist
  | ValidationError
  | CommandError string

type_synonym 'a res = "err + 'a"

definition rbind :: "'a res \<Rightarrow> ('a \<Rightarrow> 'b res) \<Rightarrow> 'b res" where
  "rbind x f = (case x of Inl e \<Rightarrow> Inl e | Inr a \<Rightarrow> f a)"

definition guard :: "bool \<Rightarrow> err \<Rightarrow> unit res" where
  "guard b e = (if b then Inr () else Inl e)"

lemma rbind_simps [simp]: "rbind (Inl e) f = Inl e" "rbind (Inr a) f = f a"
  by (simp_all add: rbind_def)

lemma rbind_Inr: "rbind x f = Inr b \<longleftrightarrow> (\<exists>a. x = Inr a \<and> f a = Inr b)"
  by (cases x) auto

lemma rbind_Inl: "rbind x f = Inl e \<longleftrightarrow> x = Inl e \<or> (\<exists>a. x = Inr a \<and> f a = Inl e)"
  by (cases x) auto

lemma rbindE: "rbind x f = Inr b \<Longrightarrow> (\<And>a. x = Inr a \<Longrightarrow> f a = Inr b \<Longrightarrow> P) \<Longrightarrow> P"
  by (auto simp: rbind_Inr)

lemma guard_Inr [simp]: "guard b e = Inr u \<longleftrightarrow> b"
  by (simp add: guard_def)

lemma guard_Inl [simp]: "guard b e = Inl e' \<longleftrightarrow> \<not> b \<and> e' = e"
  by (auto simp: guard_def)

section \<open>Tables\<close>

definition upd_where :: "('r \<Rightarrow> bool) \<Rightarrow> ('r \<Rightarrow> 'r) \<Rightarrow> 'r list \<Rightarrow> 'r list" where
  "upd_where P f rows = map (\<lambda>r. if P r then f r else r) rows"

definition hits :: "('r \<Rightarrow> bool) \<Rightarrow> 'r list \<Rightarrow> nat" where
  "hits P rows = length (filter P rows)"

definition exists_where :: "('r \<Rightarrow> bool) \<Rightarrow> 'r list \<Rightarrow> bool" where
  "exists_where P rows = list_ex P rows"

definition get_by :: "('r \<Rightarrow> id) \<Rightarrow> id \<Rightarrow> 'r list \<Rightarrow> 'r option" where
  "get_by pk i rows = find (\<lambda>r. pk r = i) rows"

definition first_row :: "'r list \<Rightarrow> 'r option" where
  "first_row rows = (case rows of [] \<Rightarrow> None | r # _ \<Rightarrow> Some r)"

lemma first_row_simps [simp]:
  "first_row [] = None" "first_row (r # rs) = Some r"
  by (simp_all add: first_row_def)

lemma first_row_Some: "first_row rows = Some r \<Longrightarrow> r \<in> set rows"
  by (cases rows) (auto simp: first_row_def)

lemma first_row_None [simp]: "first_row rows = None \<longleftrightarrow> rows = []"
  by (cases rows) (auto simp: first_row_def)

lemma upd_where_Nil [simp, table_simps]: "upd_where P f [] = []"
  by (simp add: upd_where_def)

lemma upd_where_Cons [simp, table_simps]:
  "upd_where P f (r # rs) = (if P r then f r else r) # upd_where P f rs"
  by (simp add: upd_where_def)

lemma upd_where_append [simp, table_simps]:
  "upd_where P f (xs @ ys) = upd_where P f xs @ upd_where P f ys"
  by (simp add: upd_where_def)

lemma length_upd_where [simp, table_simps]: "length (upd_where P f rs) = length rs"
  by (simp add: upd_where_def)

lemma set_upd_where [table_simps]:
  "set (upd_where P f rs) = (\<lambda>r. if P r then f r else r) ` set rs"
  by (simp add: upd_where_def)

lemma upd_where_none: "\<not> exists_where P rs \<Longrightarrow> upd_where P f rs = rs"
  by (induction rs) (auto simp: exists_where_def)

lemma exists_where_iff [table_simps]: "exists_where P rs \<longleftrightarrow> (\<exists>r \<in> set rs. P r)"
  by (auto simp: exists_where_def list_ex_iff)

lemma exists_where_simps [simp]:
  "exists_where P [] = False"
  "exists_where P (r # rs) = (P r \<or> exists_where P rs)"
  by (simp_all add: exists_where_def)

lemma hits_pos: "0 < hits P rs \<longleftrightarrow> exists_where P rs"
  by (induction rs) (auto simp: hits_def)

lemma hits_simps [simp]:
  "hits P [] = 0"
  "hits P (r # rs) = (if P r then Suc (hits P rs) else hits P rs)"
  by (simp_all add: hits_def)

lemma hits_append: "hits P (xs @ ys) = hits P xs + hits P ys"
  by (simp add: hits_def)

lemma map_upd_where:
  assumes "\<And>r. P r \<Longrightarrow> g (f r) = g r"
  shows "map g (upd_where P f rs) = map g rs"
  using assms by (induction rs) auto

lemma upd_where_comp:
  "upd_where P f (upd_where P g rs) = map (\<lambda>r. let r' = (if P r then g r else r) in
     if P r' then f r' else r') rs"
  by (simp add: upd_where_def Let_def)

lemma get_by_simps [simp]:
  "get_by pk i [] = None"
  "get_by pk i (r # rs) = (if pk r = i then Some r else get_by pk i rs)"
  by (simp_all add: get_by_def)

lemma get_by_append:
  "get_by pk i (xs @ ys) = (case get_by pk i xs of Some r \<Rightarrow> Some r | None \<Rightarrow> get_by pk i ys)"
  by (induction xs) auto

lemma get_by_SomeD: "get_by pk i rs = Some r \<Longrightarrow> r \<in> set rs \<and> pk r = i"
  by (induction rs) (auto split: if_splits)

lemma get_by_None: "get_by pk i rs = None \<longleftrightarrow> i \<notin> pk ` set rs"
  by (induction rs) auto

lemma get_by_distinct:
  "distinct (map pk rs) \<Longrightarrow> r \<in> set rs \<Longrightarrow> get_by pk (pk r) rs = Some r"
  by (induction rs) auto

lemma get_by_iff:
  "distinct (map pk rs) \<Longrightarrow> get_by pk i rs = Some r \<longleftrightarrow> r \<in> set rs \<and> pk r = i"
  using get_by_SomeD [of pk i rs r] get_by_distinct [of pk rs r] by auto

lemma get_by_upd_where:
  assumes "\<And>r. P r \<Longrightarrow> pk (f r) = pk r"
  shows "get_by pk i (upd_where P f rs) =
    map_option (\<lambda>r. if P r then f r else r) (get_by pk i rs)"
  using assms by (induction rs) auto

text \<open>Rows with the same key, in a table whose keys are distinct, are the same row.\<close>

lemma key_inj:
  "distinct (map pk rs) \<Longrightarrow> r \<in> set rs \<Longrightarrow> r' \<in> set rs \<Longrightarrow> pk r = pk r' \<Longrightarrow> r = r'"
  by (auto simp: distinct_map inj_on_def)

lemma hits_0: "hits P rs = 0 \<longleftrightarrow> \<not> exists_where P rs"
  by (metis hits_pos neq0_conv)

lemma hits_const: "(\<And>x. x \<in> set rs \<Longrightarrow> P x = b) \<Longrightarrow> hits P rs = (if b then length rs else 0)"
  by (induction rs) auto

lemma upd_where_cong:
  "rs = ss \<Longrightarrow> (\<And>x. x \<in> set ss \<Longrightarrow> P x = Q x) \<Longrightarrow> upd_where P f rs = upd_where Q f ss"
  by (simp add: upd_where_def)

lemma hits_keep: "(\<And>x. x \<in> set rs \<Longrightarrow> Q x \<Longrightarrow> P (f x) = P x) \<Longrightarrow> hits P (upd_where Q f rs) = hits P rs"
  by (induction rs) auto

text \<open>Updating the one row with a given key.\<close>

lemma hits_upd_at:
  assumes "distinct (map pk rs)" "a \<in> set rs"
  shows "hits P (upd_where (\<lambda>x. pk x = pk a) f rs) + (if P a then 1 else 0) =
    hits P rs + (if P (f a) then 1 else 0)"
  using assms
proof (induction rs)
  case (Cons r rs)
  show ?case
  proof (cases "r = a")
    case True
    with Cons.prems have "\<not> exists_where (\<lambda>x. pk x = pk a) rs"
      by (auto simp: exists_where_iff image_iff)
    with True show ?thesis by (simp add: upd_where_none)
  next
    case False
    with Cons.prems have "a \<in> set rs" "pk r \<noteq> pk a" by auto
    with Cons show ?thesis by auto
  qed
qed simp

lemma hits_upd_key:
  assumes "distinct (map pk rs)" "a \<in> set rs" "P a" "\<And>x. \<not> P (f x)"
  shows "hits P rs = Suc (hits P (upd_where (\<lambda>x. pk x = pk a) f rs))"
  using hits_upd_at [OF assms(1,2), of P f] assms(3,4) by simp

section \<open>Interface: a transition that fires once\<close>

text \<open>
  A race is a sequence of contenders (\<open>Inl\<close>), each trying to fire, interleaved with other
  operations on the same state (\<open>Inr\<close>). The result is the final state and the contenders
  that fired, in order.
\<close>

fun race ::
  "('e \<Rightarrow> 's \<Rightarrow> 's option) \<Rightarrow> ('x \<Rightarrow> 's \<Rightarrow> 's) \<Rightarrow> ('e + 'x) list \<Rightarrow> 's \<Rightarrow> 's \<times> 'e list" where
  "race fire env [] s = (s, [])"
| "race fire env (Inl e # es) s =
     (case fire e s of
        None \<Rightarrow> race fire env es s
      | Some s' \<Rightarrow> (let (t, ws) = race fire env es s' in (t, e # ws)))"
| "race fire env (Inr x # es) s = race fire env es (env x s)"

locale cas_once =
  fixes fire :: "'e \<Rightarrow> 's \<Rightarrow> 's option"
    and env :: "'x \<Rightarrow> 's \<Rightarrow> 's"
    and fired :: "'s \<Rightarrow> bool"
  assumes fired_blocks: "fired s \<Longrightarrow> fire e s = None"
    and fire_closes: "fire e s = Some s' \<Longrightarrow> fired s'"
    and env_keeps: "fired s \<Longrightarrow> fired (env x s)"
begin

lemma race_closed: "fired s \<Longrightarrow> snd (race fire env es s) = []"
proof (induction es arbitrary: s)
  case (Cons c es)
  then show ?case
    by (cases c) (auto simp: fired_blocks env_keeps)
qed simp

lemma race_at_most_one: "length (snd (race fire env es s)) \<le> 1"
proof (induction es arbitrary: s)
  case Nil
  show ?case by simp
next
  case (Cons c es)
  show ?case
  proof (cases c)
    case (Inl e)
    show ?thesis
    proof (cases "fire e s")
      case None
      with Inl Cons.IH show ?thesis by simp
    next
      case (Some s')
      then have "snd (race fire env es s') = []" by (intro race_closed fire_closes)
      with Inl Some show ?thesis by (simp add: case_prod_beta)
    qed
  next
    case (Inr x)
    with Cons.IH show ?thesis by simp
  qed
qed

lemma race_first_wins:
  assumes "fire e s = Some s'"
  shows "snd (race fire env (Inl e # es) s) = [e]"
  using race_closed [OF fire_closes [OF assms]] assms by (simp add: case_prod_beta)

end

section \<open>Interface: invariants of runs\<close>

inductive run_steps :: "('s \<Rightarrow> 's \<Rightarrow> bool) \<Rightarrow> 's \<Rightarrow> 's \<Rightarrow> bool" for step where
  run_refl: "run_steps step s s"
| run_step: "run_steps step s t \<Longrightarrow> step t u \<Longrightarrow> run_steps step s u"

locale step_invariant =
  fixes step :: "'s \<Rightarrow> 's \<Rightarrow> bool"
    and inv :: "'s \<Rightarrow> bool"
  assumes step_keeps: "step s t \<Longrightarrow> inv s \<Longrightarrow> inv t"
begin

lemma run_keeps: "run_steps step s t \<Longrightarrow> inv s \<Longrightarrow> inv t"
  by (induction rule: run_steps.induct) (auto dest: step_keeps)

end

lemma find_append: "find P (xs @ ys) = (case find P xs of None \<Rightarrow> find P ys | Some x \<Rightarrow> Some x)"
  by (induction xs) auto

end
