(* ===== verification/Qraft_Schema.thy ===== *)
theory Qraft_Schema
  imports Qraft_Base
begin

text \<open>
  The data of the program: the status enumerations, one record per model of
  \<^verbatim>\<open>qraft/models\<close>, the Django-Q2 rows the code reads, and the database \<open>db\<close>
  holding all tables. Everything the program reads that is not its own code (Django-Q2's
  \<^verbatim>\<open>async_task\<close>, the settings, the pricing resolver, importability of a dotted path)
  is a field of the record \<open>world\<close>, which the operations take as an argument.
  The signals sent on commit are the log \<open>d_events\<close>.
\<close>

section \<open>Status enumerations\<close>

datatype task_status = TPending | TRunning | TSucceeded | TFailed | TExhausted

datatype priority = High | Default | Low

datatype attempt_state = Scheduled | Queued

datatype wf_status = WPending | WRunning | WWaiting | WSucceeded | WFailed | WCancelled

datatype graph_status = GRunning | GSucceeded | GFailed | GCancelled | GWaiting

datatype node_status =
  NPending | NRunning | NSucceeded | NFailed | NCancelled | NSkipped | NWaiting

datatype wf_type = ChainWf | IterWf | BatchWf | GraphWf

datatype wf_hook_type = OnSuccess | OnFailure | OnCancelled | OnSettled

definition terminal_graph :: "graph_status \<Rightarrow> bool" where
  "terminal_graph s \<longleftrightarrow> s \<in> {GSucceeded, GFailed, GCancelled}"

definition settled_node :: "node_status \<Rightarrow> bool" where
  "settled_node s \<longleftrightarrow> s \<in> {NSucceeded, NFailed, NCancelled, NSkipped}"

text \<open>\<^verbatim>\<open>settled.get(dep) in (SUCCEEDED, SKIPPED)\<close>: what releases a dependent.\<close>

definition releases :: "node_status \<Rightarrow> bool" where
  "releases s \<longleftrightarrow> s = NSucceeded \<or> s = NSkipped"

text \<open>The lanes in the order a worker drains them: \<open>High < Default < Low\<close>.\<close>

fun lane_rank :: "priority \<Rightarrow> nat" where
  "lane_rank High = 0"
| "lane_rank Default = 1"
| "lane_rank Low = 2"

instantiation priority :: linorder
begin

definition less_eq_priority :: "priority \<Rightarrow> priority \<Rightarrow> bool" where
  "less_eq_priority a b \<longleftrightarrow> lane_rank a \<le> lane_rank b"

definition less_priority :: "priority \<Rightarrow> priority \<Rightarrow> bool" where
  "less_priority a b \<longleftrightarrow> lane_rank a < lane_rank b"

instance
proof
  fix a b :: priority
  show "a \<le> b \<Longrightarrow> b \<le> a \<Longrightarrow> a = b"
    by (cases a; cases b) (simp_all add: less_eq_priority_def)
qed (auto simp: less_eq_priority_def less_priority_def)

end

section \<open>Rows\<close>

record task_row =
  t_id :: id
  t_status :: task_status
  t_func :: string
  t_args :: "pyval list"
  t_kwargs :: dict
  t_success_hook :: "string option"
  t_success_args :: "pyval list"
  t_success_kwargs :: dict
  t_failure_hook :: "string option"
  t_failure_args :: "pyval list"
  t_failure_kwargs :: dict
  t_hook_context :: bool
  t_retry_policy :: dict
  t_stall_after :: "secs option"
  t_idem_key :: "string option"
  t_priority :: priority
  t_progress :: "dict option"
  t_iter :: "id option"
  t_batch :: "id option"
  t_graph_node :: "id option"
  t_subject_type :: "string option"
  t_subject_id :: "string option"
  t_graph_id :: "id option"
  t_node :: "string option"
  t_created :: time
  t_updated :: time

record attempt_row =
  a_id :: id
  a_task :: id
  a_number :: nat
  a_q2 :: "q2id option"
  a_state :: attempt_state
  a_not_before :: "time option"
  a_claimed_at :: "time option"
  a_cluster :: "string option"
  a_dispatch_func :: "string option"
  a_dispatch_args :: "pyval list option"
  a_success :: "bool option"
  a_exc :: "string option"
  a_exec_count :: nat
  a_counted :: bool
  a_routed :: bool
  a_usage :: "dict option"
  a_progress :: "dict option"
  a_reported_at :: "time option"
  a_advanced_at :: "time option"
  a_stall_at :: "time option"
  a_trace :: "string option"
  a_created :: time
  a_enqueued_at :: "time option"
  a_started :: "time option"
  a_heartbeat :: "time option"
  a_returned_at :: "time option"
  a_committed_at :: "time option"
  a_completed :: "time option"
  a_pid :: "nat option"
  a_thread :: "string option"

record graph_row =
  g_id :: id
  g_kind :: "string option"
  g_revision :: "string option"
  g_metadata :: "pyval option"
  g_previous :: "id option"
  g_status :: graph_status
  g_generation :: nat
  g_cluster :: "string option"
  g_started :: time
  g_settled_at :: "time option"
  g_resumed_at :: "time option"
  g_overdue_at :: "time option"
  g_on_settled :: "string option"
  g_on_settled_kwargs :: dict
  g_budgets :: "dict option"
  g_summary :: "dict option"
  g_request_key :: "string option"
  g_plan_hash :: "string option"
  g_subject_type :: "string option"
  g_subject_id :: "string option"
  g_created :: time
  g_updated :: time

record node_row =
  n_id :: id
  n_graph :: id
  n_key :: string
  n_position :: nat
  n_depth :: nat
  n_after :: "string list"
  n_func :: string
  n_args :: "pyval list"
  n_kwargs :: dict
  n_options :: dict
  n_recovery :: string
  n_generation :: nat
  n_gate :: bool
  n_receipt :: "dict option"
  n_receipt_attempt :: "id option"
  n_task :: "id option"
  n_status :: node_status
  n_skip_reason :: "string option"
  n_dispatched_at :: "time option"
  n_settled_at :: "time option"

record settlement_row =
  se_graph :: id
  se_generation :: nat
  se_hook_path :: string
  se_hook_kwargs :: dict
  se_context :: dict
  se_created :: time

text \<open>The hook columns that chains, iters and batches share (\<^verbatim>\<open>WorkflowHookMixin\<close>).\<close>

record wf_hooks =
  h_success_hook :: "string option"
  h_success_args :: "pyval list"
  h_success_kwargs :: dict
  h_failure_hook :: "string option"
  h_failure_args :: "pyval list"
  h_failure_kwargs :: dict
  h_on_cancelled :: "string option"
  h_progress_hook :: "string option"
  h_context :: bool

record chain_row =
  c_id :: id
  c_status :: wf_status
  c_settled_at :: "time option"
  c_index :: nat
  c_hooks :: wf_hooks
  c_subject_type :: "string option"
  c_subject_id :: "string option"
  c_graph_id :: "id option"
  c_node :: "string option"
  c_created :: time
  c_updated :: time

record step_row =
  s_id :: id
  s_chain :: id
  s_index :: nat
  s_func :: string
  s_args :: "pyval list"
  s_kwargs :: dict
  s_options :: dict
  s_gate :: bool
  s_task :: "id option"

text \<open>
  \<^verbatim>\<open>QraftIterModel\<close> and \<^verbatim>\<open>QraftBatchModel\<close> have the same columns but for
  \<^verbatim>\<open>func\<close> and \<^verbatim>\<open>default_qraft_options\<close>, which a batch leaves empty.
\<close>

record par_row =
  p_id :: id
  p_type :: wf_type
  p_status :: wf_status
  p_settled_at :: "time option"
  p_func :: string
  p_options :: dict
  p_total :: nat
  p_completed :: nat
  p_success :: nat
  p_failure :: nat
  p_hooks :: wf_hooks
  p_subject_type :: "string option"
  p_subject_id :: "string option"
  p_graph_id :: "id option"
  p_node :: "string option"
  p_created :: time
  p_updated :: time

record hook_row =
  hd_task :: id
  hd_success :: bool
  hd_path :: string
  hd_q2 :: q2id

record wf_hook_row =
  wh_type :: wf_type
  wh_workflow :: id
  wh_hook :: wf_hook_type
  wh_generation :: nat
  wh_path :: string
  wh_q2 :: q2id
  wh_created :: time

record bucket_row =
  b_key :: string
  b_tokens :: rat
  b_updated :: time

section \<open>Django-Q2 as the code sees it\<close>

text \<open>
  \<open>q2msg\<close> is one call of \<^verbatim>\<open>django_q.tasks.async_task\<close>: the function, its
  arguments and the task options the code sets. \<open>m_list_key\<close> is the queue the explicit
  broker enqueues into; \<open>m_save\<close> and \<open>m_timeout\<close> are the options of that name where given,
  \<open>m_q_options\<close> the caller's \<^verbatim>\<open>q_options\<close>.
\<close>

record q2msg =
  m_func :: string
  m_args :: "pyval list"
  m_kwargs :: dict
  m_hook :: "string option"
  m_task_name :: "string option"
  m_ack_failure :: bool
  m_save :: "bool option"
  m_group :: "string option"
  m_timeout :: "int option"
  m_q_options :: dict
  m_cluster :: "string option"
  m_list_key :: string

text \<open>A saved Django-Q2 \<^verbatim>\<open>Task\<close> row: written by the monitor when a task finished.\<close>

record q2_row =
  q_id :: q2id
  q_name :: "string option"
  q_success :: bool
  q_result :: "string option"
  q_stopped :: time

type_synonym queue = "(q2id \<times> q2msg) list"

record price =
  pr_input :: rat
  pr_output :: rat
  pr_cached :: "rat option"
  pr_currency :: pyval
  pr_revision :: pyval
  pr_subset :: bool

type_synonym resolver = "pyval \<Rightarrow> pyval \<Rightarrow> price option"

record retry_defaults =
  rd_max_attempts :: int
  rd_delay :: rat
  rd_backoff :: string
  rd_jitter :: bool
  rd_jitter_max :: rat

text \<open>
  \<open>w_enqueue q m\<close>: the id Django-Q2 gives the message when the queue holds \<open>q\<close>, or
  \<open>None\<close> when the broker raises. \<open>w_drains\<close>: whether the broker class named by a
  dotted path drains the priority lanes (an import and a subclass test).
  \<open>w_coroutine\<close>: whether a dotted path resolves to a coroutine function.
\<close>

record world =
  w_enqueue :: "queue \<Rightarrow> q2msg \<Rightarrow> q2id option"
  w_cluster :: string
  w_broker_class :: "string option"
  w_q_cluster :: dict
  w_drains :: "string \<Rightarrow> bool"
  w_coroutine :: "string \<Rightarrow> bool"
  w_pricing :: "resolver option"
  w_retry_defaults :: retry_defaults
  w_sync_hooks :: bool
  w_max_executions :: nat
  w_heartbeat_interval :: secs
  w_min_grace :: secs
  w_stale_after :: secs
  w_dispatch_batch :: nat
  w_overdue_after :: "secs option"
  w_progress_interval :: secs

section \<open>Signals and the database\<close>

datatype outcome = Succeeded | Failed | Orphaned

datatype event =
    TaskStarted id
  | AttemptFinished id outcome
  | TaskSettled id outcome
  | WorkflowSettled wf_type id wf_status
  | StallSuspected id
  | NodeSettled id string nat node_status
  | GraphSettled id nat graph_status
  | GraphOverdue id

record db =
  d_tasks :: "task_row list"
  d_attempts :: "attempt_row list"
  d_graphs :: "graph_row list"
  d_nodes :: "node_row list"
  d_settlements :: "settlement_row list"
  d_chains :: "chain_row list"
  d_steps :: "step_row list"
  d_pars :: "par_row list"
  d_hooks :: "hook_row list"
  d_wf_hooks :: "wf_hook_row list"
  d_buckets :: "bucket_row list"
  d_queue :: queue
  d_q2 :: "q2_row list"
  d_events :: "event list"
  d_next :: id

definition emit :: "event \<Rightarrow> db \<Rightarrow> db" where
  "emit e d = d\<lparr>d_events := d_events d @ [e]\<rparr>"

definition get_task :: "id \<Rightarrow> db \<Rightarrow> task_row option" where
  "get_task i d = get_by t_id i (d_tasks d)"

definition get_attempt :: "id \<Rightarrow> db \<Rightarrow> attempt_row option" where
  "get_attempt i d = get_by a_id i (d_attempts d)"

definition get_graph :: "id \<Rightarrow> db \<Rightarrow> graph_row option" where
  "get_graph i d = get_by g_id i (d_graphs d)"

definition get_node :: "id \<Rightarrow> db \<Rightarrow> node_row option" where
  "get_node i d = get_by n_id i (d_nodes d)"

definition get_chain :: "id \<Rightarrow> db \<Rightarrow> chain_row option" where
  "get_chain i d = get_by c_id i (d_chains d)"

definition get_par :: "id \<Rightarrow> db \<Rightarrow> par_row option" where
  "get_par i d = get_by p_id i (d_pars d)"

definition get_q2 :: "q2id \<Rightarrow> db \<Rightarrow> q2_row option" where
  "get_q2 i d = get_by q_id i (d_q2 d)"

definition upd_tasks :: "(task_row \<Rightarrow> bool) \<Rightarrow> (task_row \<Rightarrow> task_row) \<Rightarrow> db \<Rightarrow> db" where
  "upd_tasks P f d = d\<lparr>d_tasks := upd_where P f (d_tasks d)\<rparr>"

definition upd_attempts :: "(attempt_row \<Rightarrow> bool) \<Rightarrow> (attempt_row \<Rightarrow> attempt_row) \<Rightarrow> db \<Rightarrow> db" where
  "upd_attempts P f d = d\<lparr>d_attempts := upd_where P f (d_attempts d)\<rparr>"

definition upd_graphs :: "(graph_row \<Rightarrow> bool) \<Rightarrow> (graph_row \<Rightarrow> graph_row) \<Rightarrow> db \<Rightarrow> db" where
  "upd_graphs P f d = d\<lparr>d_graphs := upd_where P f (d_graphs d)\<rparr>"

definition upd_nodes :: "(node_row \<Rightarrow> bool) \<Rightarrow> (node_row \<Rightarrow> node_row) \<Rightarrow> db \<Rightarrow> db" where
  "upd_nodes P f d = d\<lparr>d_nodes := upd_where P f (d_nodes d)\<rparr>"

definition upd_chains :: "(chain_row \<Rightarrow> bool) \<Rightarrow> (chain_row \<Rightarrow> chain_row) \<Rightarrow> db \<Rightarrow> db" where
  "upd_chains P f d = d\<lparr>d_chains := upd_where P f (d_chains d)\<rparr>"

definition upd_steps :: "(step_row \<Rightarrow> bool) \<Rightarrow> (step_row \<Rightarrow> step_row) \<Rightarrow> db \<Rightarrow> db" where
  "upd_steps P f d = d\<lparr>d_steps := upd_where P f (d_steps d)\<rparr>"

definition upd_pars :: "(par_row \<Rightarrow> bool) \<Rightarrow> (par_row \<Rightarrow> par_row) \<Rightarrow> db \<Rightarrow> db" where
  "upd_pars P f d = d\<lparr>d_pars := upd_where P f (d_pars d)\<rparr>"

text \<open>The attempts of a task, oldest number first, and \<^verbatim>\<open>QraftTask.latest_attempt\<close>.\<close>

definition task_attempts :: "id \<Rightarrow> db \<Rightarrow> attempt_row list" where
  "task_attempts t d = sort_key a_number (filter (\<lambda>a. a_task a = t) (d_attempts d))"

definition latest_attempt :: "id \<Rightarrow> db \<Rightarrow> attempt_row option" where
  "latest_attempt t d = first_row (rev (task_attempts t d))"

definition graph_nodes :: "id \<Rightarrow> db \<Rightarrow> node_row list" where
  "graph_nodes g d = filter (\<lambda>n. n_graph n = g) (d_nodes d)"

text \<open>\<^verbatim>\<open>order_by("depth", "position")\<close>.\<close>

definition ordered_nodes :: "id \<Rightarrow> db \<Rightarrow> node_row list" where
  "ordered_nodes g d = sort_key (\<lambda>n. (n_depth n, n_position n)) (graph_nodes g d)"

text \<open>
  A call of \<^verbatim>\<open>q2_async_task\<close>: the queue rows of the ORM broker live in the same
  database, so the message commits or rolls back with the caller's other writes.
\<close>

definition q2_async_task :: "world \<Rightarrow> q2msg \<Rightarrow> db \<Rightarrow> (q2id \<times> db) res" where
  "q2_async_task w m d =
     (case w_enqueue w (d_queue d) m of
        None \<Rightarrow> Inl BrokerError
      | Some q \<Rightarrow> Inr (q, d\<lparr>d_queue := d_queue d @ [(q, m)]\<rparr>))"

text \<open>Django-Q2 task ids are fresh: the documented behaviour the linkage of attempts rests on.\<close>

definition fresh_ids :: "world \<Rightarrow> bool" where
  "fresh_ids w \<longleftrightarrow> (\<forall>q m i. w_enqueue w q m = Some i \<longrightarrow> i \<notin> fst ` set q)"

section \<open>Frame lemmas\<close>

lemma emit_frame [simp]:
  "d_tasks (emit e d) = d_tasks d" "d_attempts (emit e d) = d_attempts d"
  "d_graphs (emit e d) = d_graphs d" "d_nodes (emit e d) = d_nodes d"
  "d_settlements (emit e d) = d_settlements d" "d_chains (emit e d) = d_chains d"
  "d_steps (emit e d) = d_steps d" "d_pars (emit e d) = d_pars d"
  "d_hooks (emit e d) = d_hooks d" "d_wf_hooks (emit e d) = d_wf_hooks d"
  "d_queue (emit e d) = d_queue d" "d_q2 (emit e d) = d_q2 d"
  "d_next (emit e d) = d_next d" "d_events (emit e d) = d_events d @ [e]"
  "d_buckets (emit e d) = d_buckets d"
  by (simp_all add: emit_def)

lemma upd_tasks_frame [simp]:
  "d_attempts (upd_tasks P f d) = d_attempts d" "d_graphs (upd_tasks P f d) = d_graphs d"
  "d_nodes (upd_tasks P f d) = d_nodes d" "d_settlements (upd_tasks P f d) = d_settlements d"
  "d_chains (upd_tasks P f d) = d_chains d" "d_steps (upd_tasks P f d) = d_steps d"
  "d_pars (upd_tasks P f d) = d_pars d" "d_hooks (upd_tasks P f d) = d_hooks d"
  "d_wf_hooks (upd_tasks P f d) = d_wf_hooks d" "d_queue (upd_tasks P f d) = d_queue d"
  "d_q2 (upd_tasks P f d) = d_q2 d" "d_next (upd_tasks P f d) = d_next d"
  "d_events (upd_tasks P f d) = d_events d" "d_buckets (upd_tasks P f d) = d_buckets d"
  "d_tasks (upd_tasks P f d) = upd_where P f (d_tasks d)"
  by (simp_all add: upd_tasks_def)

lemma upd_attempts_frame [simp]:
  "d_tasks (upd_attempts P f d) = d_tasks d" "d_graphs (upd_attempts P f d) = d_graphs d"
  "d_nodes (upd_attempts P f d) = d_nodes d"
  "d_settlements (upd_attempts P f d) = d_settlements d"
  "d_chains (upd_attempts P f d) = d_chains d" "d_steps (upd_attempts P f d) = d_steps d"
  "d_pars (upd_attempts P f d) = d_pars d" "d_hooks (upd_attempts P f d) = d_hooks d"
  "d_wf_hooks (upd_attempts P f d) = d_wf_hooks d" "d_queue (upd_attempts P f d) = d_queue d"
  "d_q2 (upd_attempts P f d) = d_q2 d" "d_next (upd_attempts P f d) = d_next d"
  "d_events (upd_attempts P f d) = d_events d" "d_buckets (upd_attempts P f d) = d_buckets d"
  "d_attempts (upd_attempts P f d) = upd_where P f (d_attempts d)"
  by (simp_all add: upd_attempts_def)

lemma upd_graphs_frame [simp]:
  "d_tasks (upd_graphs P f d) = d_tasks d" "d_attempts (upd_graphs P f d) = d_attempts d"
  "d_nodes (upd_graphs P f d) = d_nodes d" "d_settlements (upd_graphs P f d) = d_settlements d"
  "d_chains (upd_graphs P f d) = d_chains d" "d_steps (upd_graphs P f d) = d_steps d"
  "d_pars (upd_graphs P f d) = d_pars d" "d_hooks (upd_graphs P f d) = d_hooks d"
  "d_wf_hooks (upd_graphs P f d) = d_wf_hooks d" "d_queue (upd_graphs P f d) = d_queue d"
  "d_q2 (upd_graphs P f d) = d_q2 d" "d_next (upd_graphs P f d) = d_next d"
  "d_events (upd_graphs P f d) = d_events d" "d_buckets (upd_graphs P f d) = d_buckets d"
  "d_graphs (upd_graphs P f d) = upd_where P f (d_graphs d)"
  by (simp_all add: upd_graphs_def)

lemma upd_nodes_frame [simp]:
  "d_tasks (upd_nodes P f d) = d_tasks d" "d_attempts (upd_nodes P f d) = d_attempts d"
  "d_graphs (upd_nodes P f d) = d_graphs d" "d_settlements (upd_nodes P f d) = d_settlements d"
  "d_chains (upd_nodes P f d) = d_chains d" "d_steps (upd_nodes P f d) = d_steps d"
  "d_pars (upd_nodes P f d) = d_pars d" "d_hooks (upd_nodes P f d) = d_hooks d"
  "d_wf_hooks (upd_nodes P f d) = d_wf_hooks d" "d_queue (upd_nodes P f d) = d_queue d"
  "d_q2 (upd_nodes P f d) = d_q2 d" "d_next (upd_nodes P f d) = d_next d"
  "d_events (upd_nodes P f d) = d_events d" "d_buckets (upd_nodes P f d) = d_buckets d"
  "d_nodes (upd_nodes P f d) = upd_where P f (d_nodes d)"
  by (simp_all add: upd_nodes_def)

lemma upd_chains_frame [simp]:
  "d_tasks (upd_chains P f d) = d_tasks d" "d_attempts (upd_chains P f d) = d_attempts d"
  "d_graphs (upd_chains P f d) = d_graphs d" "d_nodes (upd_chains P f d) = d_nodes d"
  "d_settlements (upd_chains P f d) = d_settlements d" "d_steps (upd_chains P f d) = d_steps d"
  "d_pars (upd_chains P f d) = d_pars d" "d_hooks (upd_chains P f d) = d_hooks d"
  "d_wf_hooks (upd_chains P f d) = d_wf_hooks d" "d_queue (upd_chains P f d) = d_queue d"
  "d_q2 (upd_chains P f d) = d_q2 d" "d_next (upd_chains P f d) = d_next d"
  "d_events (upd_chains P f d) = d_events d" "d_buckets (upd_chains P f d) = d_buckets d"
  "d_chains (upd_chains P f d) = upd_where P f (d_chains d)"
  by (simp_all add: upd_chains_def)

lemma upd_steps_frame [simp]:
  "d_tasks (upd_steps P f d) = d_tasks d" "d_attempts (upd_steps P f d) = d_attempts d"
  "d_graphs (upd_steps P f d) = d_graphs d" "d_nodes (upd_steps P f d) = d_nodes d"
  "d_settlements (upd_steps P f d) = d_settlements d" "d_chains (upd_steps P f d) = d_chains d"
  "d_pars (upd_steps P f d) = d_pars d" "d_hooks (upd_steps P f d) = d_hooks d"
  "d_wf_hooks (upd_steps P f d) = d_wf_hooks d" "d_queue (upd_steps P f d) = d_queue d"
  "d_q2 (upd_steps P f d) = d_q2 d" "d_next (upd_steps P f d) = d_next d"
  "d_events (upd_steps P f d) = d_events d" "d_buckets (upd_steps P f d) = d_buckets d"
  "d_steps (upd_steps P f d) = upd_where P f (d_steps d)"
  by (simp_all add: upd_steps_def)

lemma upd_pars_frame [simp]:
  "d_tasks (upd_pars P f d) = d_tasks d" "d_attempts (upd_pars P f d) = d_attempts d"
  "d_graphs (upd_pars P f d) = d_graphs d" "d_nodes (upd_pars P f d) = d_nodes d"
  "d_settlements (upd_pars P f d) = d_settlements d" "d_chains (upd_pars P f d) = d_chains d"
  "d_steps (upd_pars P f d) = d_steps d" "d_hooks (upd_pars P f d) = d_hooks d"
  "d_wf_hooks (upd_pars P f d) = d_wf_hooks d" "d_queue (upd_pars P f d) = d_queue d"
  "d_q2 (upd_pars P f d) = d_q2 d" "d_next (upd_pars P f d) = d_next d"
  "d_events (upd_pars P f d) = d_events d" "d_buckets (upd_pars P f d) = d_buckets d"
  "d_pars (upd_pars P f d) = upd_where P f (d_pars d)"
  by (simp_all add: upd_pars_def)

lemmas get_defs = get_task_def get_attempt_def get_graph_def get_node_def get_chain_def
  get_par_def get_q2_def

lemma q2_async_task_Inr:
  "q2_async_task w m d = Inr (q, d') \<Longrightarrow>
     w_enqueue w (d_queue d) m = Some q \<and> d' = d\<lparr>d_queue := d_queue d @ [(q, m)]\<rparr>"
  by (auto simp: q2_async_task_def split: option.splits)

lemma ordered_nodes_set [simp]: "set (ordered_nodes g d) = set (graph_nodes g d)"
  by (simp add: ordered_nodes_def)

lemma graph_nodes_set: "n \<in> set (graph_nodes g d) \<longleftrightarrow> n \<in> set (d_nodes d) \<and> n_graph n = g"
  by (auto simp: graph_nodes_def)

lemma latest_attempt_Some:
  assumes "latest_attempt t d = Some a"
  shows "a \<in> set (d_attempts d)" "a_task a = t"
    "\<forall>b \<in> set (d_attempts d). a_task b = t \<longrightarrow> a_number b \<le> a_number a"
proof -
  let ?xs = "task_attempts t d"
  have mem: "set ?xs = {b \<in> set (d_attempts d). a_task b = t}"
    by (auto simp: task_attempts_def)
  from assms obtain ys where ys: "rev ?xs = a # ys"
    by (cases "rev ?xs") (auto simp: latest_attempt_def)
  then have eq: "?xs = rev ys @ [a]" by simp
  then have "a \<in> set ?xs" by simp
  with mem show "a \<in> set (d_attempts d)" "a_task a = t" by auto
  have "sorted (map a_number ?xs)" by (simp add: task_attempts_def)
  with eq have "\<forall>b \<in> set ?xs. a_number b \<le> a_number a"
    by (auto simp: sorted_append)
  with mem show "\<forall>b \<in> set (d_attempts d). a_task b = t \<longrightarrow> a_number b \<le> a_number a"
    by auto
qed

lemma latest_attempt_None:
  "latest_attempt t d = None \<longleftrightarrow> (\<forall>a \<in> set (d_attempts d). a_task a \<noteq> t)"
proof -
  have "task_attempts t d = [] \<longleftrightarrow> filter (\<lambda>a. a_task a = t) (d_attempts d) = []"
    by (metis length_0_conv length_sort task_attempts_def)
  then show ?thesis by (simp add: latest_attempt_def filter_empty_conv)
qed

lemma latest_attempt_cong:
  "d_attempts d = d_attempts d' \<Longrightarrow> latest_attempt t d = latest_attempt t d'"
  by (simp add: latest_attempt_def task_attempts_def)

section \<open>A concrete world and database\<close>

text \<open>
  A broker that accepts every message and numbers it by its position in the queue, no pricing
  table, the documented defaults: the instance on which the properties are exercised.
\<close>

definition demo_world :: world where
  "demo_world = \<lparr>w_enqueue = (\<lambda>q m. Some (length q)), w_cluster = ''default'',
     w_broker_class = None, w_q_cluster = [], w_drains = (\<lambda>_. False), w_coroutine = (\<lambda>_. False),
     w_pricing = None,
     w_retry_defaults = \<lparr>rd_max_attempts = 3, rd_delay = 30, rd_backoff = ''exponential'',
       rd_jitter = True, rd_jitter_max = 1 / 5\<rparr>,
     w_sync_hooks = False, w_max_executions = 1, w_heartbeat_interval = 30, w_min_grace = 90,
     w_stale_after = 3600, w_dispatch_batch = 50, w_overdue_after = None,
     w_progress_interval = 0\<rparr>"

definition empty_db :: db where
  "empty_db = \<lparr>d_tasks = [], d_attempts = [], d_graphs = [], d_nodes = [], d_settlements = [],
     d_chains = [], d_steps = [], d_pars = [], d_hooks = [], d_wf_hooks = [], d_buckets = [],
     d_queue = [], d_q2 = [], d_events = [], d_next = 100\<rparr>"

definition demo_task :: "id \<Rightarrow> task_row" where
  "demo_task i = \<lparr>t_id = i, t_status = TPending, t_func = ''app.work'', t_args = [], t_kwargs = [],
     t_success_hook = None, t_success_args = [], t_success_kwargs = [], t_failure_hook = None,
     t_failure_args = [], t_failure_kwargs = [], t_hook_context = False, t_retry_policy = [],
     t_stall_after = None, t_idem_key = None, t_priority = Default, t_progress = None,
     t_iter = None, t_batch = None, t_graph_node = None, t_subject_type = None,
     t_subject_id = None, t_graph_id = None, t_node = None, t_created = 0, t_updated = 0\<rparr>"

end
