(* ===== verification/Qraft_Text.thy ===== *)
theory Qraft_Text
  imports Qraft_Base
begin

text \<open>
  The text scanning of the program: decimal numerals, the retry-after hints of
  \<^verbatim>\<open>qraft/retry.py\<close> (\<^verbatim>\<open>parse_retry_after\<close>), the exception
  class of a traceback and the task-name marker of \<^verbatim>\<open>qraft/hooks.py\<close>.
  The regular expressions are scanners: in all three of them every repetition is followed by
  a character its class excludes, so the greedy match is the only one and no backtracking is
  modelled. Characters are ASCII.
\<close>

section \<open>Characters and decimal numerals\<close>

definition code :: "char \<Rightarrow> nat" where
  "code c = of_char c"

definition is_digit :: "char \<Rightarrow> bool" where
  "is_digit c \<longleftrightarrow> 48 \<le> code c \<and> code c \<le> 57"

definition is_space :: "char \<Rightarrow> bool" where
  "is_space c \<longleftrightarrow> (9 \<le> code c \<and> code c \<le> 13) \<or> (28 \<le> code c \<and> code c \<le> 32)"

definition is_word :: "char \<Rightarrow> bool" where
  "is_word c \<longleftrightarrow> is_digit c \<or> (65 \<le> code c \<and> code c \<le> 90) \<or>
     (97 \<le> code c \<and> code c \<le> 122) \<or> code c = 95"

definition lower :: "char \<Rightarrow> char" where
  "lower c = (if 65 \<le> code c \<and> code c \<le> 90 then char_of (code c + 32) else c)"

definition digit_val :: "char \<Rightarrow> nat" where
  "digit_val c = code c - 48"

definition digit_char :: "nat \<Rightarrow> char" where
  "digit_char n = char_of (48 + n)"

fun show_nat :: "nat \<Rightarrow> string" where
  "show_nat n = (if n < 10 then [digit_char n] else show_nat (n div 10) @ [digit_char (n mod 10)])"

declare show_nat.simps [simp del]

definition read_nat :: "string \<Rightarrow> nat" where
  "read_nat s = foldl (\<lambda>a c. 10 * a + digit_val c) 0 s"

lemma code_digit_char: "n < 10 \<Longrightarrow> code (digit_char n) = 48 + n"
  by (simp add: code_def digit_char_def of_char_of)

lemma digit_char [simp]:
  "n < 10 \<Longrightarrow> is_digit (digit_char n)" "n < 10 \<Longrightarrow> digit_val (digit_char n) = n"
  by (simp_all add: is_digit_def digit_val_def code_digit_char)

lemma read_nat_snoc: "read_nat (s @ [c]) = 10 * read_nat s + digit_val c"
  by (simp add: read_nat_def)

lemma read_show_nat [simp]: "read_nat (show_nat n) = n"
proof (induction n rule: show_nat.induct)
  case (1 n)
  show ?case
  proof (cases "n < 10")
    case True
    then show ?thesis by (simp add: show_nat.simps [of n] read_nat_def)
  next
    case False
    with 1 have "read_nat (show_nat (n div 10)) = n div 10" by simp
    with False show ?thesis by (simp add: show_nat.simps [of n] read_nat_snoc)
  qed
qed

lemma show_nat_digits: "c \<in> set (show_nat n) \<Longrightarrow> is_digit c"
proof (induction n rule: show_nat.induct)
  case (1 n)
  then show ?case by (cases "n < 10") (auto simp: show_nat.simps [of n])
qed

lemma show_nat_nonempty [simp]: "show_nat n \<noteq> []"
  by (simp add: show_nat.simps [of n])

lemma takeWhile_show_nat:
  assumes "rest = [] \<or> \<not> is_digit (hd rest)"
  shows "takeWhile is_digit (show_nat n @ rest) = show_nat n"
    "dropWhile is_digit (show_nat n @ rest) = rest"
proof -
  have "takeWhile is_digit rest = []" "dropWhile is_digit rest = rest"
    using assms by (cases rest; simp)+
  then show "takeWhile is_digit (show_nat n @ rest) = show_nat n"
    "dropWhile is_digit (show_nat n @ rest) = rest"
    by (simp_all add: takeWhile_append2 dropWhile_append2 show_nat_digits)
qed

section \<open>Retry-after hints\<close>

text \<open>A literal of a pattern under \<^verbatim>\<open>re.IGNORECASE\<close>; the rest of the text when it matches.\<close>

fun lit :: "string \<Rightarrow> string \<Rightarrow> string option" where
  "lit [] s = Some s"
| "lit (p # ps) [] = None"
| "lit (p # ps) (c # s) = (if lower c = p then lit ps s else None)"

definition one_of :: "string \<Rightarrow> string \<Rightarrow> string option" where
  "one_of cs s = (case s of [] \<Rightarrow> None | c # r \<Rightarrow> if c \<in> set cs then Some r else None)"

definition some_of :: "(char \<Rightarrow> bool) \<Rightarrow> string \<Rightarrow> string option" where
  "some_of P s = (if takeWhile P s = [] then None else Some (dropWhile P s))"

text \<open>\<^verbatim>\<open>\\d+(?:\\.\\d+)?\<close>: the number and the rest.\<close>

definition number :: "string \<Rightarrow> (rat \<times> string) option" where
  "number s =
     (let ds = takeWhile is_digit s; r = dropWhile is_digit s in
      if ds = [] then None
      else (case r of
          [] \<Rightarrow> Some (of_nat (read_nat ds), r)
        | c # r' \<Rightarrow>
            (let fs = takeWhile is_digit r' in
             if c \<noteq> CHR ''.'' \<or> fs = [] then Some (of_nat (read_nat ds), r)
             else Some (of_nat (read_nat ds) + of_nat (read_nat fs) / 10 ^ length fs,
                        dropWhile is_digit r'))))"

definition match_retry_after :: "string \<Rightarrow> rat option" where
  "match_retry_after s =
     Option.bind (lit ''retry'' s) (\<lambda>s.
     Option.bind (one_of ''-_ '' s) (\<lambda>s.
     Option.bind (lit ''after'' s) (\<lambda>s.
     Option.bind (some_of (\<lambda>c. c = CHR '':'' \<or> c = CHR ''='' \<or> is_space c) s) (\<lambda>s.
     map_option fst (number s)))))"

definition match_try_again :: "string \<Rightarrow> rat option" where
  "match_try_again s =
     Option.bind (lit ''try again in '' s) (\<lambda>s.
     Option.bind (number s) (\<lambda>(v, s).
     map_option (\<lambda>_. v) (lit ''s'' (dropWhile is_space s))))"

text \<open>\<^verbatim>\<open>pattern.search\<close>: the first position where the pattern matches.\<close>

fun search :: "(string \<Rightarrow> 'a option) \<Rightarrow> string \<Rightarrow> 'a option" where
  "search m [] = m []"
| "search m (c # s) = (case m (c # s) of Some x \<Rightarrow> Some x | None \<Rightarrow> search m s)"

definition parse_retry_after :: "string option \<Rightarrow> rat option" where
  "parse_retry_after text =
     (case text of
        None \<Rightarrow> None
      | Some t \<Rightarrow>
          if t = [] then None
          else (case search match_retry_after t of
              Some v \<Rightarrow> Some (max 1 v)
            | None \<Rightarrow> (case search match_try_again t of
                Some v \<Rightarrow> Some (max 1 v)
              | None \<Rightarrow> None)))"

text \<open>A hint, whatever the provider wrote, is never below one second.\<close>

lemma parse_retry_after_ge_1: "parse_retry_after t = Some v \<Longrightarrow> 1 \<le> v"
  by (auto simp: parse_retry_after_def split: option.splits if_splits)

lemma number_show_nat:
  assumes "rest = [] \<or> (\<not> is_digit (hd rest) \<and> hd rest \<noteq> CHR ''.'')"
  shows "number (show_nat n @ rest) = Some (of_nat n, rest)"
proof -
  have "rest = [] \<or> \<not> is_digit (hd rest)" using assms by auto
  note tw = takeWhile_show_nat [OF this, of n]
  show ?thesis
    unfolding number_def Let_def tw using assms by (cases rest) simp_all
qed

lemma lower_simps:
  "lower (CHR ''e'') = CHR ''e''" "lower (CHR ''t'') = CHR ''t''" "lower (CHR ''r'') = CHR ''r''"
  "lower (CHR ''y'') = CHR ''y''" "lower (CHR ''f'') = CHR ''f''" "lower (CHR ''a'') = CHR ''a''"
  by (simp_all add: lower_def code_def)

lemma search_here: "m s = Some v \<Longrightarrow> search m s = Some v"
  by (cases s) auto

lemma search_skip: "m (c # s) = None \<Longrightarrow> search m (c # s) = search m s"
  by simp

lemma match_retry_after_header:
  "match_retry_after (''Retry-After: '' @ show_nat n @ rest) = Some (of_nat n)"
  if "rest = [] \<or> (\<not> is_digit (hd rest) \<and> hd rest \<noteq> CHR ''.'')"
proof -
  have hd: "\<not> (hd (show_nat n @ rest) = CHR '':'' \<or> hd (show_nat n @ rest) = CHR ''='' \<or>
      is_space (hd (show_nat n @ rest)))"
    using show_nat_digits [of "hd (show_nat n)" n]
    by (auto simp: hd_append is_digit_def is_space_def code_def)
  let ?P = "\<lambda>c. c = CHR '':'' \<or> c = CHR ''='' \<or> is_space c"
  obtain y ys where y: "show_nat n @ rest = y # ys" "\<not> ?P y"
    using hd by (cases "show_nat n @ rest") auto
  have sp: "is_space (CHR '' '')" by (simp add: is_space_def code_def)
  have "some_of ?P (CHR '':'' # CHR '' '' # show_nat n @ rest) = Some (show_nat n @ rest)"
    using y sp by (simp add: some_of_def)
  moreover have "lower (CHR ''R'') = CHR ''r''" "lower (CHR ''A'') = CHR ''a''"
    by code_simp+
  ultimately show ?thesis
    using number_show_nat [OF that]
    by (simp add: match_retry_after_def one_of_def lower_simps)
qed

section \<open>The exception class of a traceback\<close>

text \<open>
  The lines of a text, each with the flag \<open>True\<close> when a newline ends it: under
  \<^verbatim>\<open>re.MULTILINE\<close> the pattern \<^verbatim>\<open>^([\w.]+):\s\<close> matches at most once
  per line, and a newline counts as the \<^verbatim>\<open>\s\<close>.
\<close>

fun split_lines :: "string \<Rightarrow> string \<Rightarrow> (string \<times> bool) list" where
  "split_lines acc [] = [(rev acc, False)]"
| "split_lines acc (c # s) =
     (if c = CHR ''\<newline>'' then (rev acc, True) # split_lines [] s else split_lines (c # acc) s)"

definition line_exception :: "string \<times> bool \<Rightarrow> string option" where
  "line_exception l =
     (let name = takeWhile (\<lambda>c. is_word c \<or> c = CHR ''.'') (fst l);
          rest = dropWhile (\<lambda>c. is_word c \<or> c = CHR ''.'') (fst l) in
      if name = [] then None
      else (case rest of
          [] \<Rightarrow> None
        | x # r \<Rightarrow>
            if x \<noteq> CHR '':'' then None
            else (case r of
               [] \<Rightarrow> if snd l then Some name else None
             | c # _ \<Rightarrow> if is_space c then Some name else None)))"

text \<open>\<^verbatim>\<open>name.rsplit(".", 1)[-1]\<close>.\<close>

definition after_last_dot :: "string \<Rightarrow> string" where
  "after_last_dot s = rev (takeWhile (\<lambda>c. c \<noteq> CHR ''.'') (rev s))"

definition extract_exception_class :: "string option \<Rightarrow> string option" where
  "extract_exception_class result =
     (case result of
        None \<Rightarrow> None
      | Some r \<Rightarrow>
          if r = [] then None
          else (case rev (List.map_filter line_exception (split_lines [] r)) of
              [] \<Rightarrow> None
            | m # _ \<Rightarrow> Some (after_last_dot m)))"

section \<open>The task-name marker\<close>

text \<open>
  \<^verbatim>\<open>"qraft:{task_id}:{attempt}"\<close>. A task id is a UUID in the code and a number
  here, so the validity test of \<^verbatim>\<open>uuid.UUID\<close> is that its text is a numeral.
  The attempt is read by \<^verbatim>\<open>int()\<close>; a sign, white space and underscores, which
  \<^verbatim>\<open>int()\<close> would accept too, are not.
\<close>

definition qraft_marker :: "id \<Rightarrow> nat \<Rightarrow> string" where
  "qraft_marker t n = ''qraft:'' @ show_nat t @ '':'' @ show_nat n"

fun split_on :: "char \<Rightarrow> string \<Rightarrow> string \<Rightarrow> string list" where
  "split_on sep acc [] = [rev acc]"
| "split_on sep acc (c # s) =
     (if c = sep then rev acc # split_on sep [] s else split_on sep (c # acc) s)"

definition is_numeral :: "string \<Rightarrow> bool" where
  "is_numeral s \<longleftrightarrow> s \<noteq> [] \<and> list_all is_digit s"

definition parse_qraft_marker :: "string \<Rightarrow> (id \<times> nat) option" where
  "parse_qraft_marker m =
     (case split_on (CHR '':'') [] m of
        [p, t, n] \<Rightarrow>
          if p \<noteq> ''qraft'' then None
          else if is_numeral t \<and> is_numeral n then Some (read_nat t, read_nat n)
          else None
      | _ \<Rightarrow> None)"

lemma split_on_append:
  "sep \<notin> set s \<Longrightarrow> split_on sep acc (s @ sep # r) = (rev acc @ s) # split_on sep [] r"
  by (induction s arbitrary: acc) auto

lemma split_on_last: "sep \<notin> set s \<Longrightarrow> split_on sep acc s = [rev acc @ s]"
  by (induction s arbitrary: acc) auto

lemma colon_not_in_show_nat: "CHR '':'' \<notin> set (show_nat n)"
  using show_nat_digits [of "CHR '':''" n] by (auto simp: is_digit_def code_def)

lemma is_numeral_show_nat [simp]: "is_numeral (show_nat n)"
  by (auto simp: is_numeral_def list_all_iff show_nat_digits)

lemma parse_marker_roundtrip: "parse_qraft_marker (qraft_marker t n) = Some (t, n)"
proof -
  have "split_on (CHR '':'') [] (''qraft'' @ CHR '':'' # show_nat t @ CHR '':'' # show_nat n) =
      [''qraft'', show_nat t, show_nat n]"
    by (subst split_on_append, simp, subst split_on_append, rule colon_not_in_show_nat,
        subst split_on_last, rule colon_not_in_show_nat, simp)
  then show ?thesis by (simp add: parse_qraft_marker_def qraft_marker_def)
qed

lemma parse_marker_injective:
  "qraft_marker t n = qraft_marker t' n' \<Longrightarrow> t = t' \<and> n = n'"
  by (metis parse_marker_roundtrip option.inject prod.inject)

end
