(* ===== verification/Qraft_Conf.thy ===== *)
theory Qraft_Conf
  imports Qraft_Schema Qraft_Text
begin

text \<open>
  Settings loading (\<^verbatim>\<open>qraft/conf.py\<close>): the overlay of an ALT_CLUSTERS entry, the
  retention bound inherited from Django-Q2's save limit, the settings source, and the two
  derived settings. The field validation of pydantic is not modelled.
\<close>

definition lower_str :: "string \<Rightarrow> string" where
  "lower_str s = List.map lower s"

definition dict_del :: "string \<Rightarrow> dict \<Rightarrow> dict" where
  "dict_del k d = filter (\<lambda>(k', v). k' \<noteq> k) d"

lemma dict_get_del [simp]: "dict_get (dict_del k d) k' = (if k = k' then None else dict_get d k')"
  by (induction d) (auto simp: dict_del_def)

definition not_inherited_by_alt_clusters :: dict where
  "not_inherited_by_alt_clusters = [(''metrics_gauges'', PBool False)]"

definition overlay_default :: "string list \<Rightarrow> string \<times> pyval \<Rightarrow> dict \<Rightarrow> dict" where
  "overlay_default declared kv merged =
     (if fst kv \<in> set declared then merged
      else dict_set (fst kv) (snd kv) (filter (\<lambda>(n, v). lower_str n \<noteq> fst kv) merged))"

definition merge_alt_cluster :: "dict \<Rightarrow> string option \<Rightarrow> dict" where
  "merge_alt_cluster config name =
     (let merged = dict_del ''ALT_CLUSTERS'' config in
      case (name, dict_get config ''ALT_CLUSTERS'') of
        (Some n, Some (PDict alts)) \<Rightarrow>
          (case (n = [], dict_get alts n) of
             (False, Some (PDict alt)) \<Rightarrow>
               (let declared = map (lower_str \<circ> fst) alt in
                dict_merge
                  (fold (overlay_default declared) not_inherited_by_alt_clusters merged) alt)
           | _ \<Rightarrow> merged)
      | _ \<Rightarrow> merged)"

definition inherited_save_limit :: "pyval \<Rightarrow> string option \<Rightarrow> int option" where
  "inherited_save_limit q_cluster name =
     (case q_cluster of
        PDict q \<Rightarrow> (case dict_get (merge_alt_cluster q name) ''save_limit'' of
            Some (PInt i) \<Rightarrow> if 0 < i then Some i else None
          | _ \<Rightarrow> None)
      | _ \<Rightarrow> None)"

text \<open>\<^verbatim>\<open>DjangoSettingsSource.__call__\<close>: the lower-cased settings data.\<close>

definition settings_source :: "pyval \<Rightarrow> pyval \<Rightarrow> string option \<Rightarrow> dict" where
  "settings_source qraft q_cluster name =
     (let conf = merge_alt_cluster (case qraft of PDict d \<Rightarrow> d | _ \<Rightarrow> []) name;
          data = dict_merge [] (map (\<lambda>(k, v). (lower_str k, v)) conf) in
      if dict_get data ''retention_days'' = None \<and> dict_get data ''retention_max_tasks'' = None
      then (case inherited_save_limit q_cluster name of
              Some i \<Rightarrow> dict_set ''retention_inherited_from_save_limit'' (PBool True)
                           (dict_set ''retention_max_tasks'' (PInt i) data)
            | None \<Rightarrow> data)
      else data)"

definition retention_enabled :: "rat option \<Rightarrow> nat option \<Rightarrow> bool" where
  "retention_enabled days max_tasks \<longleftrightarrow>
     (case days of Some d \<Rightarrow> d \<noteq> 0 | None \<Rightarrow> False) \<or>
     (case max_tasks of Some m \<Rightarrow> m \<noteq> 0 | None \<Rightarrow> False)"

definition get_max_inflight :: "nat \<Rightarrow> nat option \<Rightarrow> nat" where
  "get_max_inflight threads max_inflight =
     (case max_inflight of Some m \<Rightarrow> m | None \<Rightarrow> threads * 2)"

section \<open>The reporting cluster\<close>

text \<open>An entry whose key is outside \<open>K\<close> is one of the base dict.\<close>

lemma dict_merge_entry:
  "(x, w) \<in> set (dict_merge a b) \<Longrightarrow> x \<notin> fst ` set b \<Longrightarrow> (x, w) \<in> set a"
proof (induction a b rule: dict_merge.induct)
  case (2 a k v b)
  have upd: "(x, w) \<in> set (AList.update k v a) \<Longrightarrow> x \<noteq> k \<Longrightarrow> (x, w) \<in> set a"
    by (induction a) (auto split: if_splits)
  with 2 show ?case by (auto simp: dict_set_def)
qed simp

lemma overlay_entry:
  assumes "lower_str k \<notin> set declared" "(k', v') \<in> set (overlay_default declared (lower_str k, v) d)"
    "lower_str k' = lower_str k" "lower_str (lower_str k) = lower_str k"
  shows "k' = lower_str k \<and> v' = v"
proof -
  have upd: "(x, w) \<in> set (AList.update a b xs) \<Longrightarrow> (x, w) \<in> set xs \<or> (x = a \<and> w = b)"
    for x a b w and xs :: dict
    by (induction xs) (auto split: if_splits)
  show ?thesis
    using assms by (auto simp: overlay_default_def dict_set_def dest!: upd)
qed

lemma merge_alt_cluster_gauges:
  assumes "dict_get config ''ALT_CLUSTERS'' = Some (PDict alts)" "n \<noteq> []"
    and "dict_get alts n = Some (PDict alt)"
    and "''metrics_gauges'' \<notin> (lower_str \<circ> fst) ` set alt"
    and "(k, v) \<in> set (merge_alt_cluster config (Some n))" "lower_str k = ''metrics_gauges''"
  shows "k = ''metrics_gauges'' \<and> v = PBool False"
proof -
  have idem: "lower_str ''metrics_gauges'' = ''metrics_gauges''" by code_simp
  let ?base = "overlay_default (map (lower_str \<circ> fst) alt) (''metrics_gauges'', PBool False)
      (dict_del ''ALT_CLUSTERS'' config)"
  have "merge_alt_cluster config (Some n) = dict_merge ?base alt"
    using assms(1-3)
    by (simp add: merge_alt_cluster_def not_inherited_by_alt_clusters_def)
  moreover have "k \<notin> fst ` set alt" using assms(4,6) by force
  ultimately have "(k, v) \<in> set ?base" using assms(5) dict_merge_entry by metis
  then show ?thesis
    using overlay_entry [of "''metrics_gauges''" "map (lower_str \<circ> fst) alt" k v] assms(4,6) idem
    by auto
qed

end
