(* ===== verification/Qraft_Broker.thy ===== *)
theory Qraft_Broker
  imports Qraft_Conf
begin

text \<open>
  Broker resolution and priority lanes (\<^verbatim>\<open>qraft/brokers.py\<close>). What an import
  finds at a dotted path is a parameter (\<open>w_drains\<close>, \<open>resolve\<close>). The queue table of the
  ORM broker is a list of rows in the order the database returns them; \<open>dequeue\<close> takes the
  rows as they were read (\<open>view\<close>) and the table its updates run on, since another worker may
  have locked rows in between.
\<close>

section \<open>Lane routing\<close>

definition lane_suffix :: "priority \<Rightarrow> string option" where
  "lane_suffix p = (case p of High \<Rightarrow> Some ''--high'' | Low \<Rightarrow> Some ''--low'' | Default \<Rightarrow> None)"

definition broker_class_for_cluster :: "world \<Rightarrow> string option \<Rightarrow> string option" where
  "broker_class_for_cluster w cluster =
     (case cluster of
        None \<Rightarrow> w_broker_class w
      | Some c \<Rightarrow>
          (case dict_get (merge_alt_cluster (w_q_cluster w) (Some c)) ''broker_class'' of
             Some (PStr s) \<Rightarrow> Some s
           | _ \<Rightarrow> None))"

definition lanes_drained_by :: "world \<Rightarrow> string option \<Rightarrow> bool" where
  "lanes_drained_by w broker_class =
     (case broker_class of None \<Rightarrow> False | Some s \<Rightarrow> s \<noteq> [] \<and> w_drains w s)"

definition priority_lanes_available :: "world \<Rightarrow> string option \<Rightarrow> bool" where
  "priority_lanes_available w cluster = lanes_drained_by w (broker_class_for_cluster w cluster)"

text \<open>\<^verbatim>\<open>cluster or Conf.CLUSTER_NAME\<close>.\<close>

definition cluster_or_own :: "world \<Rightarrow> string option \<Rightarrow> string" where
  "cluster_or_own w cluster =
     (case cluster of Some c \<Rightarrow> if c = [] then w_cluster w else c | None \<Rightarrow> w_cluster w)"

definition priority_list_key :: "world \<Rightarrow> priority \<Rightarrow> string option \<Rightarrow> string option" where
  "priority_list_key w p cluster =
     (case lane_suffix p of
        None \<Rightarrow> None
      | Some s \<Rightarrow>
          if \<not> priority_lanes_available w cluster then None
          else Some (cluster_or_own w cluster @ s))"

text \<open>The queue the broker of \<^verbatim>\<open>broker_for_cluster(cluster, priority)\<close> enqueues into.\<close>

definition broker_list_key :: "world \<Rightarrow> string option \<Rightarrow> priority option \<Rightarrow> string" where
  "broker_list_key w cluster p =
     (let lane = (case p of Some p \<Rightarrow> priority_list_key w p cluster | None \<Rightarrow> None) in
      case lane of Some k \<Rightarrow> k | None \<Rightarrow> cluster_or_own w cluster)"

section \<open>Which broker a cluster runs\<close>

datatype broker_class = Routing | Custom string | IronMQ | Sqs | OrmB | Mongo | Redis

definition present :: "pyval option \<Rightarrow> bool" where
  "present v = (case v of Some x \<Rightarrow> truthy x | None \<Rightarrow> False)"

definition is_dict :: "pyval option \<Rightarrow> bool" where
  "is_dict v = (case v of Some (PDict _) \<Rightarrow> True | _ \<Rightarrow> False)"

definition configured_class :: "dict \<Rightarrow> broker_class" where
  "configured_class config =
     (if present (dict_get config ''iron_mq'') then IronMQ
      else if is_dict (dict_get config ''sqs'') then Sqs
      else if present (dict_get config ''orm'') then OrmB
      else if present (dict_get config ''mongo'') then Mongo
      else Redis)"

definition broker_class_for_config :: "(pyval \<Rightarrow> broker_class option) \<Rightarrow> dict \<Rightarrow> broker_class" where
  "broker_class_for_config resolve config =
     (case dict_get config ''broker_class'' of
        None \<Rightarrow> configured_class config
      | Some path \<Rightarrow>
          if \<not> truthy path then configured_class config
          else (case resolve path of
              Some c \<Rightarrow> if c \<noteq> Routing then c else configured_class config
            | None \<Rightarrow> configured_class config))"

section \<open>Dequeue of the lanes\<close>

record orm_row =
  o_id :: nat
  o_key :: string
  o_lock :: time

definition lanes :: "string \<Rightarrow> string list" where
  "lanes base = [base @ ''--high'', base, base @ ''--low'']"

text \<open>The rows of a lane that are not locked, at most \<open>bulk\<close> of them.\<close>

definition visible :: "time \<Rightarrow> nat \<Rightarrow> string \<Rightarrow> orm_row list \<Rightarrow> orm_row list" where
  "visible now bulk key rows = take bulk (filter (\<lambda>r. o_key r = key \<and> o_lock r < now) rows)"

text \<open>The lock of a row is taken by an update that still finds it as it was read.\<close>

definition lock_row :: "time \<Rightarrow> orm_row \<Rightarrow> orm_row list \<Rightarrow> orm_row list option" where
  "lock_row until r table =
     (let P = (\<lambda>x. o_id x = o_id r \<and> o_lock x = o_lock r) in
      if 0 < hits P table then Some (upd_where P (o_lock_update (\<lambda>_. until)) table) else None)"

fun lock_rows :: "time \<Rightarrow> orm_row list \<Rightarrow> orm_row list \<Rightarrow> orm_row list \<times> nat list" where
  "lock_rows until [] table = (table, [])"
| "lock_rows until (r # rs) table =
     (case lock_row until r table of
        None \<Rightarrow> lock_rows until rs table
      | Some t \<Rightarrow> (let (t', ids) = lock_rows until rs t in (t', o_id r # ids)))"

fun dequeue_lanes ::
  "time \<Rightarrow> time \<Rightarrow> nat \<Rightarrow> string list \<Rightarrow> orm_row list \<Rightarrow> orm_row list \<Rightarrow> orm_row list \<times> nat list" where
  "dequeue_lanes now until bulk [] view table = (table, [])"
| "dequeue_lanes now until bulk (key # keys) view table =
     (case visible now bulk key view of
        [] \<Rightarrow> dequeue_lanes now until bulk keys view table
      | rs \<Rightarrow> (let (t, ids) = lock_rows until rs table in
                if ids \<noteq> [] then (t, ids) else dequeue_lanes now until bulk keys view t))"

definition dequeue ::
  "time \<Rightarrow> time \<Rightarrow> nat \<Rightarrow> string \<Rightarrow> orm_row list \<Rightarrow> orm_row list \<Rightarrow> orm_row list \<times> nat list" where
  "dequeue now until bulk base view table = dequeue_lanes now until bulk (lanes base) view table"

section \<open>Properties\<close>

lemma lane_is_drained_parts:
  "broker_list_key w cluster (Some p) =
     (if priority_lanes_available w cluster
      then cluster_or_own w cluster @ (case lane_suffix p of Some s \<Rightarrow> s | None \<Rightarrow> [])
      else cluster_or_own w cluster)"
  "broker_list_key w cluster None = cluster_or_own w cluster"
  "broker_list_key w cluster (Some p) \<in> set (lanes (cluster_or_own w cluster))"
  by (cases p; simp add: broker_list_key_def priority_list_key_def lane_suffix_def lanes_def)+

text \<open>
  A task is only ever routed into a suffixed lane that the target cluster drains; with
  any other broker, or at default priority, it goes to the cluster's own queue, so no task
  waits in a queue nothing reads.
\<close>

theorem lane_is_drained:
  "broker_list_key w cluster (Some p) =
     (if priority_lanes_available w cluster
      then cluster_or_own w cluster @ (case lane_suffix p of Some s \<Rightarrow> s | None \<Rightarrow> [])
      else cluster_or_own w cluster) \<and>
   broker_list_key w cluster None = cluster_or_own w cluster \<and>
   broker_list_key w cluster (Some p) \<in> set (lanes (cluster_or_own w cluster))"
  by (intro conjI lane_is_drained_parts)

text \<open>
  Broker resolution never returns the routing broker itself, which would recurse.
\<close>

theorem no_routing_recursion: "broker_class_for_config resolve config \<noteq> Routing"
  by (auto simp: broker_class_for_config_def configured_class_def split: option.splits)

lemma visible_mem:
  "r \<in> set (visible now bulk key rows) \<Longrightarrow> r \<in> set rows \<and> o_key r = key \<and> o_lock r < now"
  unfolding visible_def by (drule in_set_takeD) auto

lemma lock_rows_ids: "set (snd (lock_rows until rs table)) \<subseteq> o_id ` set rs"
  by (induction until rs table rule: lock_rows.induct)
    (auto split: option.splits prod.splits)

lemma dequeue_lanes_Cons:
  "dequeue_lanes now until bulk (key # keys) view table =
     (let res = lock_rows until (visible now bulk key view) table in
      if snd res \<noteq> [] then res else dequeue_lanes now until bulk keys view (fst res))"
  by (cases "visible now bulk key view") (auto simp: Let_def case_prod_beta)

lemmas dequeue_rules = dequeue_lanes.simps(1) dequeue_lanes_Cons
declare dequeue_lanes.simps [simp del] dequeue_lanes.simps(1) [simp]

text \<open>A lock of a row that is there succeeds and keeps every other row.\<close>

lemma lock_row_present:
  "r \<in> set table \<Longrightarrow> \<exists>t. lock_row until r table = Some t"
  by (auto simp: lock_row_def Let_def hits_pos exists_where_iff)

lemma lock_rows_first:
  "r \<in> set table \<Longrightarrow> snd (lock_rows until (r # rs) table) \<noteq> []"
  using lock_row_present [of r table until] by (auto split: prod.splits)


definition demo_queue :: "orm_row list" where
  "demo_queue = [\<lparr>o_id = 1, o_key = ''a'', o_lock = 0\<rparr>, \<lparr>o_id = 2, o_key = ''a--high'', o_lock = 0\<rparr>]"


text \<open>Once locked, a row no longer carries the lock any reader saw below the deadline.\<close>

lemma lock_row_other:
  "lock_row until r table = Some t \<Longrightarrow> x \<in> set t \<Longrightarrow>
     (x \<in> set table \<and> (o_id x = o_id r \<longrightarrow> o_lock x \<noteq> o_lock r)) \<or> (o_id x = o_id r \<and> o_lock x = until)"
  by (auto simp: lock_row_def Let_def set_upd_where split: if_splits)

lemma lock_rows_keep:
  "x \<in> set (fst (lock_rows until rs table)) \<Longrightarrow> x \<in> set table \<or> o_lock x = until"
proof (induction until rs table rule: lock_rows.induct)
  case (2 until r rs table)
  then show ?case
    by (auto split: option.splits prod.splits dest: lock_row_other)
qed simp

lemma lock_rows_taken:
  assumes "distinct (map o_id table)" "i \<in> set (snd (lock_rows until rs table))"
    "x \<in> set (fst (lock_rows until rs table))" "o_id x = i"
  shows "o_lock x = until"
  using assms
proof (induction until rs table arbitrary: x rule: lock_rows.induct)
  case (2 until r rs table)
  show ?case
  proof (cases "lock_row until r table")
    case None
    with 2 show ?thesis by simp
  next
    case (Some t)
    then have ids: "map o_id t = map o_id table"
      by (auto simp: lock_row_def Let_def map_upd_where split: if_splits)
    from Some have x: "x \<in> set (fst (lock_rows until rs t))" using 2 by (auto split: prod.splits)
    show ?thesis
    proof (cases "i \<in> set (snd (lock_rows until rs t))")
      case True
      with 2 Some ids x show ?thesis by auto
    next
      case False
      with 2 Some have i: "i = o_id r" by (auto split: prod.splits)
      from lock_rows_keep [OF x] show ?thesis
      proof
        assume "x \<in> set t"
        moreover from Some obtain y where y: "y \<in> set table" "o_id y = o_id r" "o_lock y = o_lock r"
          by (auto simp: lock_row_def Let_def hits_pos exists_where_iff split: if_splits)
        moreover have "x \<notin> set table \<or> o_lock x = o_lock r"
          using key_inj [OF 2(3), of x y] y i 2(6) by auto
        ultimately show ?thesis using lock_row_other [OF Some, of x] i 2(6) by auto
      qed simp
    qed
  qed
qed simp

lemma lock_rows_pk: "map o_id (fst (lock_rows until rs table)) = map o_id table"
proof (induction until rs table rule: lock_rows.induct)
  case (2 until r rs table)
  then show ?case
    by (auto simp: lock_row_def Let_def map_upd_where split: option.splits prod.splits if_splits)
qed simp

lemma lock_rows_delivers:
  assumes "i \<in> set (snd (lock_rows until rs table))" "\<forall>r \<in> set rs. o_lock r < until"
  shows "\<exists>r \<in> set rs. \<exists>x \<in> set table. o_id x = i \<and> o_id r = i \<and> o_lock x = o_lock r"
  using assms
proof (induction until rs table rule: lock_rows.induct)
  case (2 until r rs table)
  show ?case
  proof (cases "lock_row until r table")
    case None
    with 2 show ?thesis by auto
  next
    case (Some t)
    then have here: "\<exists>x \<in> set table. o_id x = o_id r \<and> o_lock x = o_lock r"
      by (auto simp: lock_row_def Let_def hits_pos exists_where_iff split: if_splits)
    show ?thesis
    proof (cases "i = o_id r")
      case False
      with 2 Some have "i \<in> set (snd (lock_rows until rs t))" by (auto split: prod.splits)
      with 2 Some obtain y x where "y \<in> set rs" "x \<in> set t" "o_id x = i" "o_id y = i" "o_lock x = o_lock y"
        by auto
      then show ?thesis using lock_row_other [OF Some, of x] 2(4) by fastforce
    qed (use here in auto)
  qed
qed simp

lemma dequeue_lanes_pk: "map o_id (fst (dequeue_lanes now until bulk keys view table)) = map o_id table"
  by (induction keys arbitrary: table) (auto simp: dequeue_lanes_Cons Let_def lock_rows_pk)

lemma dequeue_lanes_taken:
  "distinct (map o_id table) \<Longrightarrow> i \<in> set (snd (dequeue_lanes now until bulk keys view table)) \<Longrightarrow>
   x \<in> set (fst (dequeue_lanes now until bulk keys view table)) \<Longrightarrow> o_id x = i \<Longrightarrow> o_lock x = until"
proof (induction keys arbitrary: table)
  case (Cons key keys)
  show ?case
  proof (cases "snd (lock_rows until (visible now bulk key view) table) = []")
    case True
    with Cons.prems show ?thesis
      using Cons.IH [of "fst (lock_rows until (visible now bulk key view) table)"]
      by (simp add: dequeue_lanes_Cons Let_def lock_rows_pk)
  next
    case False
    with Cons.prems show ?thesis
      by (auto simp: dequeue_lanes_Cons Let_def dest: lock_rows_taken)
  qed
qed simp

lemma dequeue_lanes_delivers:
  "i \<in> set (snd (dequeue_lanes now until bulk keys view table)) \<Longrightarrow> now \<le> until \<Longrightarrow>
   \<exists>x \<in> set table. o_id x = i \<and> o_lock x < now"
proof (induction keys arbitrary: table)
  case (Cons key keys)
  let ?rs = "visible now bulk key view"
  have below: "\<forall>r \<in> set ?rs. o_lock r < now \<and> o_lock r < until"
    using visible_mem Cons.prems(2) by fastforce
  show ?case
  proof (cases "snd (lock_rows until ?rs table) = []")
    case True
    with Cons obtain x where "x \<in> set (fst (lock_rows until ?rs table))" "o_id x = i" "o_lock x < now"
      by (fastforce simp: dequeue_lanes_Cons Let_def)
    then show ?thesis using lock_rows_keep [of x until ?rs table] Cons.prems(2) by auto
  next
    case False
    with Cons.prems have "i \<in> set (snd (lock_rows until ?rs table))"
      by (simp add: dequeue_lanes_Cons Let_def)
    from lock_rows_delivers [OF this] below show ?thesis by fastforce
  qed
qed simp

text \<open>
  C19: exclusive delivery. Until a lock expires, no other worker is handed a message that one
  worker took, however stale the rows it read: the update that takes the lock only matches the
  lock it saw.
\<close>

theorem dequeue_exclusive:
  assumes "distinct (map o_id table)" "now' \<le> until" "now' \<le> until'"
    and "i \<in> set (snd (dequeue now until bulk base view table))"
  shows "i \<notin> set (snd (dequeue now' until' bulk' base' view'
    (fst (dequeue now until bulk base view table))))"
proof
  let ?T = "fst (dequeue now until bulk base view table)"
  assume "i \<in> set (snd (dequeue now' until' bulk' base' view' ?T))"
  then obtain x where x: "x \<in> set ?T" "o_id x = i" "o_lock x < now'"
    using dequeue_lanes_delivers assms(3) unfolding dequeue_def by blast
  with assms(1,4) have "o_lock x = until" unfolding dequeue_def by (blast dest: dequeue_lanes_taken)
  with x assms(2) show False by simp
qed

theorem dequeue_exclusive_witness:
  "2 \<in> set (snd (dequeue 5 9 10 ''a'' demo_queue demo_queue)) \<and>
   2 \<notin> set (snd (dequeue 6 12 10 ''a'' demo_queue (fst (dequeue 5 9 10 ''a'' demo_queue demo_queue))))"
proof -
  have "distinct (map o_id demo_queue)" by (simp add: demo_queue_def)
  moreover have "2 \<in> set (snd (dequeue 5 9 10 ''a'' demo_queue demo_queue))" by code_simp
  ultimately show ?thesis
    using dequeue_exclusive [of demo_queue 6 9 12 2 5 10 "''a''" demo_queue 10 "''a''" demo_queue]
    by simp
qed

end
