(* ===== verification/Qraft_Retry.thy ===== *)
theory Qraft_Retry
  imports Qraft_Schema Qraft_Text
begin

text \<open>
  The retry policy (\<^verbatim>\<open>qraft/retry.py\<close>, class \<^verbatim>\<open>RetryPolicy\<close>): its
  construction from a JSON dict with the validation in the order of the source, its
  serialisation, the retry decision and the delay. Numbers are exact rationals (the floats of
  the source round); \<^verbatim>\<open>random.uniform(a, b)\<close> is \<open>a + (b - a) * u\<close> for a
  parameter \<open>u\<close> in the unit interval.
\<close>

section \<open>Construction\<close>

record policy =
  rp_max :: rat
  rp_base :: rat
  rp_backoff :: string
  rp_jitter :: pyval
  rp_jmax :: rat
  rp_retry :: "pyval list"
  rp_skip :: "pyval list"
  rp_rl :: "pyval list"
  rp_rlmax :: rat

definition rate_limit_exceptions :: "pyval list" where
  "rate_limit_exceptions = map PStr
     [''RateLimited'', ''RateLimitError'', ''TooManyRequests'', ''TooManyRequestsError'',
      ''ThrottlingException'', ''ResourceExhausted'', ''ServiceUnavailableError'',
      ''OverloadedError'', ''APIStatusError429'']"

definition retry_keys :: "string list" where
  "retry_keys = [''max_attempts'', ''base_delay'', ''backoff_strategy'', ''jitter'',
     ''jitter_max'', ''retry_exceptions'', ''skip_exceptions'', ''rate_limit_exceptions'',
     ''rate_limit_max_delay'']"

definition arg :: "dict \<Rightarrow> string \<Rightarrow> pyval" where
  "arg d k = (case dict_get d k of Some v \<Rightarrow> v | None \<Rightarrow> PNone)"

text \<open>A value compared with a number: anything but a number raises TypeError.\<close>

fun num_of :: "pyval \<Rightarrow> rat res" where
  "num_of (PBool b) = Inr (if b then 1 else 0)"
| "num_of (PInt i) = Inr (of_int i)"
| "num_of (PFloat r) = Inr r"
| "num_of (PDec r) = Inr r"
| "num_of _ = Inl TypeError"

definition num_or :: "rat \<Rightarrow> pyval \<Rightarrow> rat res" where
  "num_or dflt v = (if v = PNone then Inr dflt else num_of v)"

fun hashable :: "pyval \<Rightarrow> bool" where
  "hashable (PList _) = False"
| "hashable (PDict _) = False"
| "hashable _ = True"

text \<open>\<^verbatim>\<open>set(v)\<close>, as the list of its elements in the order of first occurrence.\<close>

fun py_set :: "pyval \<Rightarrow> pyval list res" where
  "py_set (PList xs) = (if list_all hashable xs then Inr (remdups xs) else Inl TypeError)"
| "py_set (PStr s) = Inr (remdups (map (\<lambda>c. PStr [c]) s))"
| "py_set (PDict d) = Inr (remdups (map (PStr \<circ> fst) d))"
| "py_set _ = Inl TypeError"

definition backoffs :: "string list" where
  "backoffs = [''exponential'', ''linear'', ''fixed'']"

fun backoff_of :: "string \<Rightarrow> pyval \<Rightarrow> string res" where
  "backoff_of dflt PNone = Inr dflt"
| "backoff_of dflt (PStr s) =
     (if s \<in> set backoffs then Inr s else Inl (ValueError ''Invalid backoff strategy''))"
| "backoff_of dflt v =
     (if hashable v then Inl (ValueError ''Invalid backoff strategy'') else Inl TypeError)"

definition new_policy :: "retry_defaults \<Rightarrow> dict \<Rightarrow> policy res" where
  "new_policy rd d =
     rbind (guard (list_all (\<lambda>kv. fst kv \<in> set retry_keys) d) TypeError) (\<lambda>_.
     rbind (let v = arg d ''retry_exceptions'' in if truthy v then py_set v else Inr []) (\<lambda>re.
     rbind (let v = arg d ''skip_exceptions'' in if truthy v then py_set v else Inr []) (\<lambda>se.
     rbind (let v = arg d ''rate_limit_exceptions'' in
              if v = PNone then Inr rate_limit_exceptions else py_set v) (\<lambda>rl.
     rbind (num_or (of_int (rd_max_attempts rd)) (arg d ''max_attempts'')) (\<lambda>ma.
     rbind (guard (1 \<le> ma \<and> ma \<le> 10)
              (ValueError ''max_attempts must be between 1 and 10'')) (\<lambda>_.
     rbind (num_or (rd_jitter_max rd) (arg d ''jitter_max'')) (\<lambda>jm.
     rbind (guard (0 \<le> jm \<and> jm \<le> 1)
              (ValueError ''jitter_max must be between 0.0 and 1.0'')) (\<lambda>_.
     rbind (rbind (backoff_of (rd_backoff rd) (arg d ''backoff_strategy'')) (\<lambda>s.
              rbind (guard (s \<in> set backoffs) (ValueError ''Invalid backoff strategy''))
                (\<lambda>_. Inr s))) (\<lambda>bo.
     rbind (num_or (rd_delay rd) (arg d ''base_delay'')) (\<lambda>bd.
     rbind (guard (0 \<le> bd) (ValueError ''base_delay must be >= 0'')) (\<lambda>_.
     rbind (case dict_get d ''rate_limit_max_delay'' of
              None \<Rightarrow> Inr 300 | Some v \<Rightarrow> num_of v) (\<lambda>rm.
     rbind (guard (0 < rm) (ValueError ''rate_limit_max_delay must be > 0'')) (\<lambda>_.
     Inr \<lparr>rp_max = ma, rp_base = bd, rp_backoff = bo,
          rp_jitter = (let j = arg d ''jitter'' in if j = PNone then PBool (rd_jitter rd) else j),
          rp_jmax = jm, rp_retry = re, rp_skip = se, rp_rl = rl, rp_rlmax = rm\<rparr>)))))))))))))"

definition from_dict :: "retry_defaults \<Rightarrow> dict \<Rightarrow> policy res" where
  "from_dict rd d = new_policy rd d"

definition from_options :: "retry_defaults \<Rightarrow> dict \<Rightarrow> policy option res" where
  "from_options rd opts =
     (let o' = filter (\<lambda>kv. fst kv \<in> set retry_keys) opts in
      if o' = [] then Inr None else rbind (new_policy rd o') (\<lambda>p. Inr (Some p)))"

definition to_dict :: "policy \<Rightarrow> dict" where
  "to_dict p =
     [(''max_attempts'', PFloat (rp_max p)),
      (''base_delay'', PFloat (rp_base p)),
      (''backoff_strategy'', PStr (rp_backoff p)),
      (''jitter'', rp_jitter p),
      (''jitter_max'', PFloat (rp_jmax p)),
      (''retry_exceptions'', PList (rp_retry p)),
      (''skip_exceptions'', PList (rp_skip p)),
      (''rate_limit_exceptions'', PList (rp_rl p)),
      (''rate_limit_max_delay'', PFloat (rp_rlmax p))]"

definition exc_set :: "pyval list \<Rightarrow> bool" where
  "exc_set xs \<longleftrightarrow> distinct xs \<and> list_all hashable xs"

definition valid_policy :: "policy \<Rightarrow> bool" where
  "valid_policy p \<longleftrightarrow>
     1 \<le> rp_max p \<and> rp_max p \<le> 10 \<and> 0 \<le> rp_base p \<and> rp_backoff p \<in> set backoffs \<and>
     rp_jitter p \<noteq> PNone \<and> 0 \<le> rp_jmax p \<and> rp_jmax p \<le> 1 \<and> 0 < rp_rlmax p \<and>
     exc_set (rp_retry p) \<and> exc_set (rp_skip p) \<and> exc_set (rp_rl p)"

lemma py_set_exc_set: "py_set v = Inr xs \<Longrightarrow> exc_set xs"
  by (cases v) (auto simp: exc_set_def list_all_iff split: if_splits)

lemma rate_limit_exc_set: "exc_set rate_limit_exceptions"
  by (simp add: exc_set_def rate_limit_exceptions_def)

lemma new_policy_valid: "new_policy rd d = Inr p \<Longrightarrow> valid_policy p"
  by (auto simp: new_policy_def rbind_Inr Let_def valid_policy_def rate_limit_exc_set
      exc_set_def [of "[]"] split: if_splits dest: py_set_exc_set)

lemma exc_set_py_set: "exc_set xs \<Longrightarrow> py_set (PList xs) = Inr xs"
  by (simp add: exc_set_def)

section \<open>Decision\<close>

definition should_retry :: "policy \<Rightarrow> nat \<Rightarrow> string option \<Rightarrow> bool" where
  "should_retry p attempt exc =
     (if rp_max p \<le> of_nat attempt then False
      else (case exc of
          None \<Rightarrow> True
        | Some e \<Rightarrow>
            if PStr e \<in> set (rp_skip p) then False
            else if PStr e \<in> set (rp_rl p) then True
            else if rp_retry p \<noteq> [] then PStr e \<in> set (rp_retry p)
            else True))"

definition is_rate_limit :: "policy \<Rightarrow> string option \<Rightarrow> bool" where
  "is_rate_limit p exc = (case exc of None \<Rightarrow> False | Some e \<Rightarrow> PStr e \<in> set (rp_rl p))"

section \<open>Delay\<close>

definition min_jitter_delay :: rat where
  "min_jitter_delay = 1"

text \<open>\<^verbatim>\<open>2 ** (attempt_number - 1)\<close>; attempts are numbered from 1.\<close>

definition backoff_factor :: "nat \<Rightarrow> rat" where
  "backoff_factor n = (if n = 0 then 1 / 2 else 2 ^ (n - 1))"

definition jittered :: "policy \<Rightarrow> rat \<Rightarrow> rat \<Rightarrow> rat" where
  "jittered p u delay =
     (if truthy (rp_jitter p) \<and> 0 < delay
      then let j = delay * rp_jmax p in max min_jitter_delay (delay + (- j + 2 * j * u))
      else delay)"

definition plain_delay :: "policy \<Rightarrow> nat \<Rightarrow> rat" where
  "plain_delay p n =
     (if rp_backoff p = ''linear'' then rp_base p * of_nat n
      else if rp_backoff p = ''exponential'' then rp_base p * backoff_factor n
      else rp_base p)"

definition calculate_delay :: "rat \<Rightarrow> policy \<Rightarrow> nat \<Rightarrow> rat option \<Rightarrow> bool \<Rightarrow> int" where
  "calculate_delay u p n retry_after rl =
     (case retry_after of
        Some h \<Rightarrow> py_int (min (h + h * (1 / 10) * u) (rp_rlmax p))
      | None \<Rightarrow>
          (let delay = (if rl then min (rp_base p * backoff_factor n) (rp_rlmax p)
                        else plain_delay p n);
               delay = jittered p u delay;
               delay = (if rl then min delay (rp_rlmax p) else delay) in
           py_int delay))"

lemma backoff_factor_pos: "0 < backoff_factor n"
  by (simp add: backoff_factor_def)

lemma backoff_factor_Suc: "0 < n \<Longrightarrow> backoff_factor (Suc n) = 2 * backoff_factor n"
  by (cases n) (simp_all add: backoff_factor_def)

lemma plain_delay_nonneg: "0 \<le> rp_base p \<Longrightarrow> 0 \<le> plain_delay p n"
  using backoff_factor_pos [of n] by (simp add: plain_delay_def)

lemma jittered_nonneg: "0 \<le> d \<Longrightarrow> 0 \<le> jittered p u d"
  by (simp add: jittered_def min_jitter_delay_def Let_def le_max_iff_disj)

lemma jitter_bounds:
  assumes "0 \<le> d" "0 \<le> rp_jmax p" "0 \<le> u" "u \<le> 1"
  shows "d - d * rp_jmax p \<le> jittered p u d" "jittered p u d \<le> max 1 (d + d * rp_jmax p)"
proof -
  define j where "j = d * rp_jmax p"
  have j: "0 \<le> j" using assms by (simp add: j_def)
  have "j * u \<le> j * 1" using j assms by (intro mult_left_mono)
  moreover have "0 \<le> j * u" using j assms by simp
  moreover note j
  ultimately
  show "d - d * rp_jmax p \<le> jittered p u d" "jittered p u d \<le> max 1 (d + d * rp_jmax p)"
    by (auto simp: jittered_def min_jitter_delay_def Let_def max_def algebra_simps
        simp flip: j_def)
qed

section \<open>Properties\<close>

text \<open>
  Every policy the constructor accepts is valid: between 1 and 10 executions, a jitter
  fraction in the unit interval, a known backoff, a non-negative base delay and a positive
  rate-limit cap, whatever JSON the stored policy held.
\<close>

theorem from_dict_valid: "from_dict rd d = Inr p \<Longrightarrow> valid_policy p"
  by (simp add: from_dict_def new_policy_valid)

definition demo_defaults :: retry_defaults where
  "demo_defaults = \<lparr>rd_max_attempts = 3, rd_delay = 30, rd_backoff = ''exponential'',
     rd_jitter = True, rd_jitter_max = 1 / 5\<rparr>"

definition demo_policy :: policy where
  "demo_policy = \<lparr>rp_max = 4, rp_base = 5, rp_backoff = ''exponential'', rp_jitter = PBool False,
     rp_jmax = 1 / 5, rp_retry = [], rp_skip = [PStr ''ValueError''],
     rp_rl = rate_limit_exceptions, rp_rlmax = 300\<rparr>"

lemma demo_policy_valid: "valid_policy demo_policy"
  by (simp add: valid_policy_def demo_policy_def backoffs_def rate_limit_exc_set exc_set_def
      [of "[]"] exc_set_def [of "[PStr ''ValueError'']"])

lemma demo_from_dict: "from_dict demo_defaults (to_dict demo_policy) = Inr demo_policy"
  by code_simp

theorem from_dict_valid_witness:
  "from_dict demo_defaults (to_dict demo_policy) = Inr demo_policy \<and> valid_policy demo_policy"
  using from_dict_valid [OF demo_from_dict] demo_from_dict by simp

text \<open>
  C24: the stored form of a policy loads back as the same policy, under any defaults.
\<close>

theorem policy_roundtrip: "valid_policy p \<Longrightarrow> from_dict rd (to_dict p) = Inr p"
  by (cases p)
    (auto simp: from_dict_def new_policy_def to_dict_def arg_def dict_get_def retry_keys_def
      valid_policy_def num_or_def exc_set_def backoffs_def rbind_def guard_def Let_def)

theorem policy_roundtrip_witness:
  "valid_policy demo_policy \<and> from_dict demo_defaults (to_dict demo_policy) = Inr demo_policy"
  using policy_roundtrip [OF demo_policy_valid] demo_policy_valid by simp

lemma should_retry_bound:
  assumes "valid_policy p" "of_nat n < rp_max p \<or> should_retry p n e"
  shows "of_nat n < rp_max p \<and> n < 10"
proof -
  have lt: "of_nat n < rp_max p" using assms(2) by (auto simp: should_retry_def split: if_splits)
  moreover have "rp_max p \<le> 10" using assms(1) by (simp add: valid_policy_def)
  ultimately have "rat_of_nat n < of_nat 10" by simp
  with lt show ?thesis by (simp only: of_nat_less_iff)
qed

lemma should_retry_decision_parts:
  assumes "valid_policy p"
  shows "should_retry p n (Some e) \<longleftrightarrow>
      of_nat n < rp_max p \<and> n < 10 \<and> PStr e \<notin> set (rp_skip p) \<and>
      (PStr e \<in> set (rp_rl p) \<or> rp_retry p = [] \<or> PStr e \<in> set (rp_retry p))"
    and "should_retry p n None \<longleftrightarrow> of_nat n < rp_max p \<and> n < 10"
  using should_retry_bound [OF assms, of n] by (auto simp: should_retry_def not_le)

text \<open>
  The retry decision. Under a valid policy a retry is only granted below the tenth
  execution and below the policy's own bound; a named exception in the skip list is never
  retried, a rate-limit exception outside it is retried although an allowlist omits it, and
  any other one is retried exactly when the allowlist is empty or names it.
\<close>

theorem should_retry_decision:
  assumes "valid_policy p"
  shows "(should_retry p n (Some e) \<longleftrightarrow>
      of_nat n < rp_max p \<and> n < 10 \<and> PStr e \<notin> set (rp_skip p) \<and>
      (PStr e \<in> set (rp_rl p) \<or> rp_retry p = [] \<or> PStr e \<in> set (rp_retry p))) \<and>
    (should_retry p n None \<longleftrightarrow> of_nat n < rp_max p \<and> n < 10)"
  using should_retry_decision_parts [OF assms] by blast

theorem should_retry_decision_witness:
  "should_retry demo_policy 3 (Some ''KeyError'') \<and> \<not> should_retry demo_policy 1 (Some ''ValueError'')"
  using should_retry_decision [OF demo_policy_valid, of 3 "''KeyError''"]
    should_retry_decision [OF demo_policy_valid, of 1 "''ValueError''"]
  by (simp add: demo_policy_def)

lemma delay_bounds_parts:
  assumes "valid_policy p" "0 \<le> u" "u \<le> 1"
  shows "0 \<le> h \<Longrightarrow> min \<lfloor>h\<rfloor> \<lfloor>rp_rlmax p\<rfloor> \<le> calculate_delay u p n (Some h) rl"
    and "0 \<le> h \<Longrightarrow> of_int (calculate_delay u p n (Some h) rl) \<le> rp_rlmax p"
    and "0 \<le> calculate_delay u p n None rl"
    and "of_int (calculate_delay u p n None True) \<le> rp_rlmax p"
    and "of_int (calculate_delay u p n None False) \<le> max 1 (plain_delay p n * (1 + rp_jmax p))"
proof -
  note v = assms(1) [unfolded valid_policy_def]
  have base: "0 \<le> rp_base p" and jm: "0 \<le> rp_jmax p" and cap: "0 < rp_rlmax p" using v by auto
  show "min \<lfloor>h\<rfloor> \<lfloor>rp_rlmax p\<rfloor> \<le> calculate_delay u p n (Some h) rl" if h: "0 \<le> h"
  proof -
    have "h \<le> h + h * (1 / 10) * u" using h assms by simp
    then have "\<lfloor>h\<rfloor> \<le> \<lfloor>h + h * (1 / 10) * u\<rfloor>" by (rule floor_mono)
    then show ?thesis
      using h cap assms by (auto simp: calculate_delay_def py_int_def min_def)
  qed
  show "of_int (calculate_delay u p n (Some h) rl) \<le> rp_rlmax p" if "0 \<le> h"
    using that cap assms unfolding calculate_delay_def option.case
    by (intro py_int_le) (auto simp: min_def)
  define raw where "raw rl = (if rl then min (rp_base p * backoff_factor n) (rp_rlmax p)
      else plain_delay p n)" for rl :: bool
  have raw: "0 \<le> raw rl" for rl
    using base cap backoff_factor_pos [of n] plain_delay_nonneg [OF base, of n]
    by (simp add: raw_def min_def)
  have eq: "calculate_delay u p n None rl =
      py_int (if rl then min (jittered p u (raw rl)) (rp_rlmax p) else jittered p u (raw rl))" for rl
    by (simp add: calculate_delay_def raw_def Let_def)
  show "0 \<le> calculate_delay u p n None rl"
    unfolding eq using raw jittered_nonneg cap by (intro py_int_nonneg) (auto simp: min_def)
  show "of_int (calculate_delay u p n None True) \<le> rp_rlmax p"
    unfolding eq using raw jittered_nonneg cap by (intro py_int_le) (auto simp: min_def)
  have "jittered p u (raw False) \<le> max 1 (raw False + raw False * rp_jmax p)"
    by (rule jitter_bounds(2)) (use raw jm assms in auto)
  then show "of_int (calculate_delay u p n None False) \<le> max 1 (plain_delay p n * (1 + rp_jmax p))"
    unfolding eq using raw [of False] jittered_nonneg
    by (intro py_int_le) (simp_all add: raw_def distrib_left)
qed

text \<open>
  C23: the delay is never negative and keeps its bounds. A provider hint is served as a floor,
  up to the truncation to whole seconds and to the cap; every rate-limit delay stays under
  the cap; the other delays stay within the jitter fraction of the configured backoff, but
  for the floor of one second.
\<close>

theorem delay_bounds:
  assumes "valid_policy p" "0 \<le> u" "u \<le> 1"
  shows "(0 \<le> h \<longrightarrow> min \<lfloor>h\<rfloor> \<lfloor>rp_rlmax p\<rfloor> \<le> calculate_delay u p n (Some h) rl \<and>
      of_int (calculate_delay u p n (Some h) rl) \<le> rp_rlmax p) \<and>
    0 \<le> calculate_delay u p n None rl \<and>
    of_int (calculate_delay u p n None True) \<le> rp_rlmax p \<and>
    of_int (calculate_delay u p n None False) \<le> max 1 (plain_delay p n * (1 + rp_jmax p))"
  using delay_bounds_parts [OF assms] by blast

theorem delay_bounds_witness:
  "12 \<le> calculate_delay (1 / 2) demo_policy 1 (Some 12) True \<and>
   of_int (calculate_delay (1 / 2) demo_policy 9 None True) \<le> (300 :: rat)"
  using delay_bounds [OF demo_policy_valid, of "1 / 2" 12 1 True]
    delay_bounds [OF demo_policy_valid, of "1 / 2" 12 9 True]
  by (simp add: demo_policy_def)

lemma delay_schedule_parts:
  assumes "valid_policy p" "\<not> truthy (rp_jitter p)" "0 < n"
  shows "rp_backoff p = ''exponential'' \<Longrightarrow>
           calculate_delay u p n None False = \<lfloor>rp_base p * 2 ^ (n - 1)\<rfloor>"
    and "rp_backoff p = ''linear'' \<Longrightarrow> calculate_delay u p n None False = \<lfloor>rp_base p * of_nat n\<rfloor>"
    and "rp_backoff p = ''fixed'' \<Longrightarrow> calculate_delay u p n None False = \<lfloor>rp_base p\<rfloor>"
  using assms
  by (simp_all add: calculate_delay_def jittered_def plain_delay_def backoff_factor_def
      py_int_def valid_policy_def Let_def)

text \<open>
  Without jitter the exponential strategy doubles exactly: attempt n waits the whole
  seconds of base * 2 ^ (n - 1), the linear one base * n, the fixed one base.
\<close>

theorem delay_schedule:
  assumes "valid_policy p" "\<not> truthy (rp_jitter p)" "0 < n"
  shows "(rp_backoff p = ''exponential'' \<longrightarrow>
       calculate_delay u p n None False = \<lfloor>rp_base p * 2 ^ (n - 1)\<rfloor>) \<and>
    (rp_backoff p = ''linear'' \<longrightarrow> calculate_delay u p n None False = \<lfloor>rp_base p * of_nat n\<rfloor>) \<and>
    (rp_backoff p = ''fixed'' \<longrightarrow> calculate_delay u p n None False = \<lfloor>rp_base p\<rfloor>)"
  using delay_schedule_parts [OF assms] by blast

theorem delay_schedule_witness:
  "calculate_delay (1 / 2) demo_policy 3 None False = 20"
  using delay_schedule [OF demo_policy_valid, of 3 "1 / 2"] by (simp add: demo_policy_def)

text \<open>
  A fractional hint is truncated to whole seconds after the jitter, so the served delay can
  fall below what the provider asked for, against the comment in \<^verbatim>\<open>calculate_delay\<close>.
\<close>

lemma fractional_hint_truncated:
  "of_int (calculate_delay 0 demo_policy 1 (Some (19 / 10)) True) < (19 / 10 :: rat)"
proof -
  have "calculate_delay 0 demo_policy 1 (Some (19 / 10)) True = 1" by code_simp
  then show ?thesis by simp
qed

end
