(* ===== verification/Qraft_Scheduler.thy ===== *)
theory Qraft_Scheduler
  imports Qraft_Broker Qraft_Retry
begin

text \<open>
  Scheduling of attempts (\<^verbatim>\<open>qraft/scheduler.py\<close>), requeueing of dead tasks
  (\<^verbatim>\<open>qraft/dlq.py\<close>) and the retry decision (\<^verbatim>\<open>handle_task_retry\<close> of
  \<^verbatim>\<open>qraft/retry.py\<close>).
  \<^item> \<open>schedule_attempt\<close> writes a SCHEDULED row; \<open>claim_and_enqueue\<close> claims the most overdue one
    of the rows as they were read (\<open>view\<close>) by a compare-and-swap on the current table \<open>d\<close>.
  \<^item> \<open>dispatch_due\<close> is one pass of the dispatcher; \<open>clk i\<close> is the time of its i-th round.
\<close>

section \<open>Scheduling an attempt\<close>

definition inherited_cluster :: "id \<Rightarrow> db \<Rightarrow> string option" where
  "inherited_cluster task d =
     (case latest_attempt task d of Some a \<Rightarrow> a_cluster a | None \<Rightarrow> None)"

text \<open>An attempt row with the column defaults of the model.\<close>

definition blank_attempt :: "id \<Rightarrow> id \<Rightarrow> nat \<Rightarrow> time \<Rightarrow> attempt_row" where
  "blank_attempt i task n now = \<lparr>a_id = i, a_task = task, a_number = n, a_q2 = None,
     a_state = Queued, a_not_before = None, a_claimed_at = None, a_cluster = None,
     a_dispatch_func = None, a_dispatch_args = None, a_success = None, a_exc = None,
     a_exec_count = 0, a_counted = False, a_routed = False, a_usage = None, a_progress = None,
     a_reported_at = None, a_advanced_at = None, a_stall_at = None, a_trace = None,
     a_created = now, a_enqueued_at = None, a_started = None, a_heartbeat = None,
     a_returned_at = None, a_committed_at = None, a_completed = None, a_pid = None,
     a_thread = None\<rparr>"

text \<open>The insert of an attempt, under the unique constraint on (task, attempt number).\<close>

definition insert_attempt :: "attempt_row \<Rightarrow> db \<Rightarrow> db res" where
  "insert_attempt a d =
     (if exists_where (\<lambda>b. a_task b = a_task a \<and> a_number b = a_number a) (d_attempts d)
      then Inl IntegrityError
      else Inr (d\<lparr>d_attempts := d_attempts d @ [a], d_next := Suc (d_next d)\<rparr>))"

definition set_task_status :: "time \<Rightarrow> task_status \<Rightarrow> task_row \<Rightarrow> task_row" where
  "set_task_status now s t = t\<lparr>t_status := s, t_updated := now\<rparr>"

definition schedule_attempt ::
  "time \<Rightarrow> id \<Rightarrow> nat \<Rightarrow> time \<Rightarrow> string option \<Rightarrow> string option \<Rightarrow> pyval list option \<Rightarrow> db \<Rightarrow>
   (id \<times> db) res" where
  "schedule_attempt now task n not_before cluster dfunc dargs d =
     (let trace = (case latest_attempt task d of Some a \<Rightarrow> a_trace a | None \<Rightarrow> None);
          i = d_next d;
          a = (blank_attempt i task n now)\<lparr>a_state := Scheduled, a_not_before := Some not_before,
            a_cluster := cluster, a_dispatch_func := dfunc, a_dispatch_args := dargs,
            a_trace := trace\<rparr> in
      if get_task task d = None then Inl IntegrityError
      else rbind (insert_attempt a d) (\<lambda>d.
        Inr (i, upd_tasks (\<lambda>t. t_id t = task) (set_task_status now TPending) d)))"

section \<open>Handing an attempt to the broker\<close>

definition default_dispatch_func :: string where
  "default_dispatch_func = ''qraft.runner.run_task''"

definition or_str :: "string option \<Rightarrow> string \<Rightarrow> string" where
  "or_str s dflt = (case s of Some x \<Rightarrow> if x = [] then dflt else x | None \<Rightarrow> dflt)"

definition enqueue_msg :: "world \<Rightarrow> attempt_row \<Rightarrow> task_row \<Rightarrow> q2msg" where
  "enqueue_msg w a t =
     (let target = or_str (a_cluster a) (w_cluster w) in
      \<lparr>m_func = or_str (a_dispatch_func a) default_dispatch_func,
       m_args = (case a_dispatch_args a of Some xs \<Rightarrow> xs
         | None \<Rightarrow> [PStr (t_func t), PList (t_args t), PDict (t_kwargs t)]),
       m_kwargs = [], m_hook = Some ''qraft.hooks.qraft_hook_handler'',
       m_task_name = Some (qraft_marker (t_id t) (a_number a)), m_ack_failure = True,
       m_save = None, m_group = None, m_timeout = None, m_q_options = [],
       m_cluster = Some target,
       m_list_key = broker_list_key w (Some target) (Some (t_priority t))\<rparr>)"

definition due_attempts :: "time \<Rightarrow> db \<Rightarrow> attempt_row list" where
  "due_attempts now d =
     sort_key (\<lambda>a. the (a_not_before a))
       (filter (\<lambda>a. a_state a = Scheduled \<and> (case a_not_before a of Some t \<Rightarrow> t \<le> now | None \<Rightarrow> False))
          (d_attempts d))"

text \<open>The compare-and-swap of the claim: None when the row is no longer SCHEDULED.\<close>

definition claim_attempt :: "time \<Rightarrow> id \<Rightarrow> db \<Rightarrow> db option" where
  "claim_attempt t i d =
     (let P = (\<lambda>a. a_id a = i \<and> a_state a = Scheduled) in
      if hits P (d_attempts d) = 0 then None
      else Some (upd_attempts P (\<lambda>a. a\<lparr>a_state := Queued, a_claimed_at := Some t\<rparr>) d))"

definition claim_and_enqueue ::
  "world \<Rightarrow> time \<Rightarrow> time \<Rightarrow> db \<Rightarrow> db \<Rightarrow> (bool option \<times> db) res" where
  "claim_and_enqueue w now claimed_at view d =
     (case first_row (due_attempts now view) of
        None \<Rightarrow> Inr (None, d)
      | Some a \<Rightarrow>
          (case claim_attempt claimed_at (a_id a) d of
             None \<Rightarrow> Inr (Some False, d)
           | Some d \<Rightarrow>
               (case get_task (a_task a) d of
                  None \<Rightarrow> Inl DoesNotExist
                | Some t \<Rightarrow>
                    (let cluster = or_str (a_cluster a) (w_cluster w) in
                     rbind (q2_async_task w (enqueue_msg w (a\<lparr>a_cluster := Some cluster\<rparr>) t) d) (\<lambda>(q, d).
                     Inr (Some True,
                       upd_tasks (\<lambda>x. t_id x = t_id t \<and> t_status x = TPending)
                         (set_task_status claimed_at TRunning)
                         (upd_attempts (\<lambda>x. a_id x = a_id a)
                            (\<lambda>x. x\<lparr>a_state := Queued, a_claimed_at := Some claimed_at,
                               a_enqueued_at := Some claimed_at, a_cluster := Some cluster,
                               a_q2 := Some q\<rparr>) d)))))))"

fun dispatch_rounds ::
  "world \<Rightarrow> time \<Rightarrow> (nat \<Rightarrow> time) \<Rightarrow> nat \<Rightarrow> nat \<Rightarrow> nat \<Rightarrow> db \<Rightarrow> nat \<times> db" where
  "dispatch_rounds w now clk limit 0 dispatched d = (dispatched, d)"
| "dispatch_rounds w now clk limit (Suc n) dispatched d =
     (if limit \<le> dispatched then (dispatched, d)
      else (case claim_and_enqueue w now (clk n) d d of
          Inl e \<Rightarrow> (dispatched, d)
        | Inr (None, d') \<Rightarrow> (dispatched, d')
        | Inr (Some b, d') \<Rightarrow>
            dispatch_rounds w now clk limit n (dispatched + (if b then 1 else 0)) d'))"

definition dispatch_due :: "world \<Rightarrow> time \<Rightarrow> (nat \<Rightarrow> time) \<Rightarrow> nat option \<Rightarrow> db \<Rightarrow> nat \<times> db" where
  "dispatch_due w now clk limit d =
     (let lim = (case limit of Some l \<Rightarrow> l | None \<Rightarrow> w_dispatch_batch w) in
      dispatch_rounds w now clk lim (2 * lim) 0 d)"

definition min_sleep :: secs where
  "min_sleep = 1 / 20"

fun min_opt :: "time option \<Rightarrow> time option \<Rightarrow> time option" where
  "min_opt None y = y"
| "min_opt x None = x"
| "min_opt (Some a) (Some b) = Some (min a b)"

definition earliest_due :: "db \<Rightarrow> time option" where
  "earliest_due d =
     fold (\<lambda>a m. min_opt (a_not_before a) m)
       (filter (\<lambda>a. a_state a = Scheduled) (d_attempts d)) None"

definition seconds_until_due :: "secs \<Rightarrow> time \<Rightarrow> db \<Rightarrow> secs" where
  "seconds_until_due interval now d =
     (case earliest_due d of
        None \<Rightarrow> interval
      | Some e \<Rightarrow> max min_sleep (min interval (e - now)))"

section \<open>Requeue and retry\<close>

definition dead_status :: "task_status \<Rightarrow> bool" where
  "dead_status s \<longleftrightarrow> s = TFailed \<or> s = TExhausted"

definition dead_letters :: "db \<Rightarrow> task_row list" where
  "dead_letters d = sort_key (\<lambda>t. - t_created t) (filter (\<lambda>t. dead_status (t_status t)) (d_tasks d))"

definition requeue :: "time \<Rightarrow> task_row \<Rightarrow> db \<Rightarrow> (id \<times> db) res" where
  "requeue now t d =
     (if \<not> dead_status (t_status t) then Inl (ValueError ''not dead'')
      else
        (let n = (case latest_attempt (t_id t) d of Some a \<Rightarrow> a_number a | None \<Rightarrow> 0) + 1 in
         schedule_attempt now (t_id t) n now (inherited_cluster (t_id t) d) None None d))"

definition schedule_retry ::
  "world \<Rightarrow> rat \<Rightarrow> time \<Rightarrow> policy \<Rightarrow> id \<Rightarrow> nat \<Rightarrow> rat option \<Rightarrow> bool \<Rightarrow> db \<Rightarrow> (id \<times> db) res" where
  "schedule_retry w u now p task n retry_after rl d =
     schedule_attempt now task (n + 1) (now + of_int (calculate_delay u p n retry_after rl))
       (Some (or_str (inherited_cluster task d) (w_cluster w))) None None d"

definition handle_task_retry ::
  "world \<Rightarrow> rat \<Rightarrow> time \<Rightarrow> task_row \<Rightarrow> attempt_row \<Rightarrow> string option \<Rightarrow> db \<Rightarrow> (bool \<times> db) res" where
  "handle_task_retry w u now t a result d =
     (if t_retry_policy t = [] then Inr (False, d)
      else rbind (from_dict (w_retry_defaults w) (t_retry_policy t)) (\<lambda>p.
        if should_retry p (a_number a) (a_exc a) then
          (let rl = is_rate_limit p (a_exc a);
               hint = (if rl then parse_retry_after result else None) in
           rbind (schedule_retry w u now p (t_id t) (a_number a) hint rl d) (\<lambda>(_, d).
           Inr (True, d)))
        else Inr (False,
          upd_tasks (\<lambda>x. t_id x = t_id t) (set_task_status now TExhausted) d)))"

section \<open>An attempt is enqueued at most once\<close>

text \<open>The messages handed to the broker under the marker of attempt \<open>n\<close> of task \<open>t\<close>.\<close>

definition sent :: "id \<Rightarrow> nat \<Rightarrow> db \<Rightarrow> nat" where
  "sent t n d = length (filter (\<lambda>(q, m). m_task_name m = Some (qraft_marker t n)) (d_queue d))"

text \<open>
  A dispatcher may act on rows read earlier: what it read of an attempt that still exists is
  its identity, which never changes; its state may have.
\<close>

definition stale_view :: "db \<Rightarrow> db \<Rightarrow> bool" where
  "stale_view view d \<longleftrightarrow> (\<forall>a \<in> set (d_attempts view). \<forall>b \<in> set (d_attempts d).
     a_id a = a_id b \<longrightarrow> a_task a = a_task b \<and> a_number a = a_number b)"

inductive sched_step :: "world \<Rightarrow> db \<Rightarrow> db \<Rightarrow> bool" for w where
  sched_new: "schedule_attempt now task n nb cl f args d = Inr (i, d') \<Longrightarrow> sched_step w d d'"
| sched_claim: "stale_view view d \<Longrightarrow> claim_and_enqueue w now t view d = Inr (r, d') \<Longrightarrow>
    sched_step w d d'"

inductive_cases sched_stepE: "sched_step w d d'"

definition queued_pair :: "id \<Rightarrow> nat \<Rightarrow> db \<Rightarrow> bool" where
  "queued_pair t n d \<longleftrightarrow>
     (\<exists>a \<in> set (d_attempts d). a_task a = t \<and> a_number a = n \<and> a_state a = Queued)"

definition attempt_keys :: "db \<Rightarrow> bool" where
  "attempt_keys d \<longleftrightarrow> distinct (map a_id (d_attempts d)) \<and>
     (\<forall>a \<in> set (d_attempts d). a_id a < d_next d) \<and>
     distinct (map (\<lambda>a. (a_task a, a_number a)) (d_attempts d))"

definition sched_inv :: "db \<Rightarrow> bool" where
  "sched_inv d \<longleftrightarrow> attempt_keys d \<and> (\<forall>t n. sent t n d \<le> (if queued_pair t n d then 1 else 0))"

lemma insert_attempt_Inr:
  "insert_attempt a d = Inr d' \<longleftrightarrow>
     (\<forall>b \<in> set (d_attempts d). a_task b = a_task a \<longrightarrow> a_number b \<noteq> a_number a) \<and>
     d' = d\<lparr>d_attempts := d_attempts d @ [a], d_next := Suc (d_next d)\<rparr>"
  by (auto simp: insert_attempt_def exists_where_iff)

lemma schedule_attempt_Inr:
  assumes "schedule_attempt now task n nb cl f args d = Inr (i, d')"
  obtains a where "i = d_next d" "a_id a = i" "a_task a = task" "a_number a = n"
    "a_state a = Scheduled" "a_not_before a = Some nb" "a_cluster a = cl" "a_success a = None"
    "a_routed a = False" "\<forall>b \<in> set (d_attempts d). a_task b = task \<longrightarrow> a_number b \<noteq> n"
    "d_attempts d' = d_attempts d @ [a]" "d_next d' = Suc (d_next d)" "d_queue d' = d_queue d"
    "d_tasks d' = upd_where (\<lambda>t. t_id t = task) (set_task_status now TPending) (d_tasks d)"
proof -
  define a where "a = (blank_attempt (d_next d) task n now)\<lparr>a_state := Scheduled,
    a_not_before := Some nb, a_cluster := cl, a_dispatch_func := f, a_dispatch_args := args,
    a_trace := (case latest_attempt task d of Some a \<Rightarrow> a_trace a | None \<Rightarrow> None)\<rparr>"
  have a: "a_id a = d_next d" "a_task a = task" "a_number a = n" "a_state a = Scheduled"
    "a_not_before a = Some nb" "a_cluster a = cl" "a_success a = None" "a_routed a = False"
    by (simp_all add: a_def blank_attempt_def)
  have "i = d_next d" "\<forall>b \<in> set (d_attempts d). a_task b = task \<longrightarrow> a_number b \<noteq> n"
    "d' = upd_tasks (\<lambda>t. t_id t = task) (set_task_status now TPending)
       (d\<lparr>d_attempts := d_attempts d @ [a], d_next := Suc (d_next d)\<rparr>)"
    using assms a unfolding schedule_attempt_def Let_def a_def [symmetric]
    by (auto simp: rbind_Inr insert_attempt_Inr split: if_splits)
  then show thesis using a by (intro that [of a]) auto
qed

lemma claim_Some:
  assumes "claim_attempt t i d = Some d'"
  shows "\<exists>a \<in> set (d_attempts d). a_id a = i \<and> a_state a = Scheduled"
    "d' = upd_attempts (\<lambda>a. a_id a = i \<and> a_state a = Scheduled)
       (\<lambda>a. a\<lparr>a_state := Queued, a_claimed_at := Some t\<rparr>) d"
  using assms hits_pos [of "\<lambda>a. a_id a = i \<and> a_state a = Scheduled" "d_attempts d"]
  by (auto simp: claim_attempt_def Let_def exists_where_iff split: if_splits)

lemma claim_and_enqueue_True:
  assumes "claim_and_enqueue w now t view d = Inr (Some True, d')"
  obtains a tk q m f where "first_row (due_attempts now view) = Some a" "a \<in> set (d_attempts view)"
    "\<exists>b \<in> set (d_attempts d). a_id b = a_id a \<and> a_state b = Scheduled"
    "get_task (a_task a) d = Some tk"
    "m_task_name m = Some (qraft_marker (t_id tk) (a_number a))"
    "d_queue d' = d_queue d @ [(q, m)]" "d_next d' = d_next d"
    "\<And>x. a_state (f x) = Queued" "\<And>x. a_id (f x) = a_id x" "\<And>x. a_task (f x) = a_task x"
    "\<And>x. a_number (f x) = a_number x"
    "d_attempts d' = upd_where (\<lambda>x. a_id x = a_id a) f (d_attempts d)"
    "map t_id (d_tasks d') = map t_id (d_tasks d)"
proof -
  from assms obtain a where a: "first_row (due_attempts now view) = Some a"
    by (auto simp: claim_and_enqueue_def split: option.splits)
  from assms a obtain d1 where d1: "claim_attempt t (a_id a) d = Some d1"
    by (auto simp: claim_and_enqueue_def split: option.splits)
  let ?cl = "or_str (a_cluster a) (w_cluster w)"
  from assms a d1 obtain tk q d2 where tk: "get_task (a_task a) d1 = Some tk"
    and q: "q2_async_task w (enqueue_msg w (a\<lparr>a_cluster := Some ?cl\<rparr>) tk) d1 = Inr (q, d2)"
    and d': "d' = upd_tasks (\<lambda>x. t_id x = t_id tk \<and> t_status x = TPending)
       (set_task_status t TRunning) (upd_attempts (\<lambda>x. a_id x = a_id a)
       (\<lambda>x. x\<lparr>a_state := Queued, a_claimed_at := Some t, a_enqueued_at := Some t,
          a_cluster := Some ?cl, a_q2 := Some q\<rparr>) d2)"
    by (auto simp: claim_and_enqueue_def Let_def rbind_Inr split: option.splits)
  note c = claim_Some [OF d1]
  note d2 = q2_async_task_Inr [OF q]
  let ?g = "\<lambda>x. x\<lparr>a_state := Queued, a_claimed_at := Some t, a_enqueued_at := Some t,
      a_cluster := Some ?cl, a_q2 := Some q\<rparr>"
  show thesis
  proof (rule that [of a tk "enqueue_msg w (a\<lparr>a_cluster := Some ?cl\<rparr>) tk" q ?g])
    have "a \<in> set (due_attempts now view)" using a by (rule first_row_Some)
    then show "a \<in> set (d_attempts view)" by (simp add: due_attempts_def)
    show "first_row (due_attempts now view) = Some a" by (rule a)
    show "get_task (a_task a) d = Some tk" using tk c(2) by (simp add: get_task_def)
    show "d_attempts d' = upd_where (\<lambda>x. a_id x = a_id a) ?g (d_attempts d)"
      by (auto simp: d' d2 c(2) upd_where_def)
    show "map t_id (d_tasks d') = map t_id (d_tasks d)"
      by (simp add: d' d2 c(2) map_upd_where set_task_status_def)
  qed (use c in \<open>simp_all add: d' d2 enqueue_msg_def Let_def\<close>)
qed

lemma claim_and_enqueue_idle:
  "claim_and_enqueue w now t view d = Inr (r, d') \<Longrightarrow> r \<noteq> Some True \<Longrightarrow> d' = d"
  by (auto simp: claim_and_enqueue_def Let_def rbind_Inr split: option.splits)

lemma sched_inv_new:
  assumes "schedule_attempt now task n nb cl f args d = Inr (i, d')" "sched_inv d"
  shows "sched_inv d'"
proof -
  from assms(1) obtain a where a: "i = d_next d" "a_id a = i" "a_task a = task" "a_number a = n"
    "a_state a = Scheduled" "\<forall>b \<in> set (d_attempts d). a_task b = task \<longrightarrow> a_number b \<noteq> n"
    "d_attempts d' = d_attempts d @ [a]" "d_next d' = Suc (d_next d)" "d_queue d' = d_queue d"
    by (rule schedule_attempt_Inr)
  have keys: "attempt_keys d'"
    using assms(2) a unfolding sched_inv_def attempt_keys_def by (auto simp: less_Suc_eq)
  have "sent t m d' = sent t m d" "queued_pair t m d' = queued_pair t m d" for t m
    using a by (auto simp: sent_def queued_pair_def)
  with keys assms(2) show ?thesis by (simp add: sched_inv_def)
qed

lemma attempt_keys_pair:
  assumes "attempt_keys d" "a \<in> set (d_attempts d)" "b \<in> set (d_attempts d)"
    "a_task a = a_task b" "a_number a = a_number b"
  shows "a = b"
  using assms key_inj [of "\<lambda>a. (a_task a, a_number a)" "d_attempts d" a b]
  by (simp add: attempt_keys_def)

lemma sched_inv_claim:
  assumes "stale_view view d" "claim_and_enqueue w now t view d = Inr (r, d')" "sched_inv d"
  shows "sched_inv d'"
proof (cases "r = Some True")
  case False
  then show ?thesis using claim_and_enqueue_idle [OF assms(2)] assms(3) by simp
next
  case True
  from assms(2) [unfolded True] obtain a tk q m f where
    a: "a \<in> set (d_attempts view)" "\<exists>b \<in> set (d_attempts d). a_id b = a_id a \<and> a_state b = Scheduled"
    and tk: "get_task (a_task a) d = Some tk"
    and m: "m_task_name m = Some (qraft_marker (t_id tk) (a_number a))"
    and qu: "d_queue d' = d_queue d @ [(q, m)]" "d_next d' = d_next d"
    and f: "\<And>x. a_state (f x) = Queued" "\<And>x. a_id (f x) = a_id x"
      "\<And>x. a_task (f x) = a_task x" "\<And>x. a_number (f x) = a_number x"
    and at: "d_attempts d' = upd_where (\<lambda>x. a_id x = a_id a) f (d_attempts d)"
    by (rule claim_and_enqueue_True) (rule that, assumption+)
  from a(2) obtain b where b: "b \<in> set (d_attempts d)" "a_id b = a_id a" "a_state b = Scheduled"
    by auto
  have same: "a_task a = a_task b" "a_number a = a_number b"
    using assms(1) a(1) b by (auto simp: stale_view_def)
  have tid: "t_id tk = a_task a"
    using tk get_by_SomeD [of t_id] by (auto simp: get_task_def)
  have inv: "attempt_keys d" "\<And>t n. sent t n d \<le> (if queued_pair t n d then 1 else 0)"
    using assms(3) by (auto simp: sched_inv_def)
  have "map a_id (d_attempts d') = map a_id (d_attempts d)"
    "map (\<lambda>a. (a_task a, a_number a)) (d_attempts d') = map (\<lambda>a. (a_task a, a_number a)) (d_attempts d)"
    unfolding at by (auto intro!: map_upd_where simp: f)
  moreover have "\<forall>x \<in> set (d_attempts d'). a_id x < d_next d'"
    using inv(1) by (auto simp: attempt_keys_def at set_upd_where f qu)
  ultimately have keys: "attempt_keys d'" using inv(1) by (simp add: attempt_keys_def)
  have "sent x n d' \<le> (if queued_pair x n d' then 1 else 0)" for x n
  proof (cases "x = a_task a \<and> n = a_number a")
    case True
    have "\<not> queued_pair x n d"
      using True same attempt_keys_pair [OF inv(1) _ b(1)] b(3)
      by (metis attempt_state.distinct(1) queued_pair_def)
    then have "sent x n d = 0" using inv(2) [of x n] by simp
    moreover have "f b \<in> set (d_attempts d')" using b by (auto simp: at set_upd_where)
    then have "queued_pair x n d'"
      unfolding queued_pair_def using True same f by (intro bexI [of _ "f b"]) simp_all
    ultimately show ?thesis by (simp add: sent_def qu split: prod.splits)
  next
    case False
    then have "m_task_name m \<noteq> Some (qraft_marker x n)"
      using m tid parse_marker_injective by auto
    then have "sent x n d' = sent x n d" by (simp add: sent_def qu)
    moreover have "queued_pair x n d' \<longleftrightarrow> queued_pair x n d"
      using False same key_inj [OF _ _ b(1), of a_id] inv(1) b(2)
      by (fastforce simp: queued_pair_def at set_upd_where f attempt_keys_def)
    ultimately show ?thesis using inv(2) [of x n] by simp
  qed
  with keys show ?thesis by (simp add: sched_inv_def)
qed

interpretation sched: step_invariant "sched_step w" sched_inv for w
  by unfold_locales (auto elim!: sched_stepE intro: sched_inv_new sched_inv_claim)

text \<open>
  C7: an attempt is handed to the broker at most once. However many dispatchers poll the
  table, with rows read however long ago, in any interleaving with newly scheduled attempts,
  the queue never receives a second message for the same attempt of the same task.
\<close>

theorem attempt_enqueued_at_most_once:
  assumes "sched_inv d0" "run_steps (sched_step w) d0 d"
  shows "sent t n d \<le> 1"
proof -
  have "sched_inv d" by (rule sched.run_keeps [OF assms(2,1)])
  then have "sent t n d \<le> (if queued_pair t n d then 1 else 0)" by (simp add: sched_inv_def)
  then show ?thesis by (simp split: if_splits)
qed

definition sched_db :: db where
  "sched_db = empty_db\<lparr>d_tasks := [demo_task 1]\<rparr>"

definition sched_db1 :: db where
  "sched_db1 = (case schedule_attempt 0 1 1 5 None None None sched_db of Inr (i, d) \<Rightarrow> d | Inl _ \<Rightarrow> sched_db)"

definition sched_db2 :: db where
  "sched_db2 = (case claim_and_enqueue demo_world 6 6 sched_db1 sched_db1 of
     Inr (r, d) \<Rightarrow> d | Inl _ \<Rightarrow> sched_db1)"

lemma sched_db_run: "run_steps (sched_step demo_world) sched_db sched_db2"
proof -
  obtain i d1 where s: "schedule_attempt 0 1 1 5 None None None sched_db = Inr (i, d1)"
    by (cases "schedule_attempt 0 1 1 5 None None None sched_db")
      (auto simp: schedule_attempt_def sched_db_def empty_db_def get_task_def demo_task_def
        insert_attempt_def Let_def)
  then have d1: "sched_db1 = d1" by (simp add: sched_db1_def)
  have "\<not> Inl DoesNotExist = claim_and_enqueue demo_world 6 6 sched_db1 sched_db1"
    "\<not> Inl BrokerError = claim_and_enqueue demo_world 6 6 sched_db1 sched_db1"
    by code_simp+
  then obtain r d2 where c: "claim_and_enqueue demo_world 6 6 sched_db1 sched_db1 = Inr (r, d2)"
    by (cases "claim_and_enqueue demo_world 6 6 sched_db1 sched_db1")
      (auto simp: claim_and_enqueue_def Let_def rbind_Inl q2_async_task_def split: option.splits)
  then have d2: "sched_db2 = d2" by (simp add: sched_db2_def)
  have "attempt_keys sched_db1" unfolding attempt_keys_def by code_simp
  then have "stale_view sched_db1 sched_db1"
    using key_inj [of a_id "d_attempts sched_db1"] by (auto simp: stale_view_def attempt_keys_def)
  then have "sched_step demo_world sched_db1 sched_db2" unfolding d2 by (rule sched_claim) (rule c)
  moreover have "sched_step demo_world sched_db sched_db1" unfolding d1 by (rule sched_new) (rule s)
  ultimately show ?thesis by (blast intro: run_refl run_step)
qed

theorem attempt_enqueued_at_most_once_witness: "sent 1 1 sched_db2 = 1"
proof -
  have inv: "sched_inv sched_db"
    by (simp add: sched_inv_def attempt_keys_def sent_def sched_db_def empty_db_def)
  have "0 < sent 1 1 sched_db2" by code_simp
  with attempt_enqueued_at_most_once [OF inv sched_db_run, of 1 1] show ?thesis by simp
qed

section \<open>One pass of the dispatcher\<close>

definition due :: "time \<Rightarrow> attempt_row \<Rightarrow> bool" where
  "due now a \<longleftrightarrow> a_state a = Scheduled \<and> (case a_not_before a of Some t \<Rightarrow> t \<le> now | None \<Rightarrow> False)"

definition due_count :: "time \<Rightarrow> db \<Rightarrow> nat" where
  "due_count now d = hits (due now) (d_attempts d)"

text \<open>Every attempt belongs to a task that is there: the foreign key of the table.\<close>

definition attempts_have_tasks :: "db \<Rightarrow> bool" where
  "attempts_have_tasks d \<longleftrightarrow> (\<forall>a \<in> set (d_attempts d). get_task (a_task a) d \<noteq> None)"

lemma due_attempts_length: "length (due_attempts now d) = due_count now d"
  by (simp add: due_attempts_def due_count_def hits_def due_def [abs_def])

lemma first_due:
  assumes "0 < due_count now d"
  obtains a where "first_row (due_attempts now d) = Some a" "a \<in> set (d_attempts d)" "due now a"
proof -
  from assms obtain a xs where x: "due_attempts now d = a # xs"
    using due_attempts_length [of now d] by (cases "due_attempts now d") auto
  then have "a \<in> set (due_attempts now d)" by simp
  then have "a \<in> set (d_attempts d)" "due now a" by (auto simp: due_attempts_def due_def)
  with x that show thesis by simp
qed

lemma claim_progress:
  assumes "attempt_keys d" "attempts_have_tasks d" "0 < due_count now d"
    and "\<forall>q m. w_enqueue w q m \<noteq> None"
  shows "\<exists>d'. claim_and_enqueue w now t d d = Inr (Some True, d') \<and> attempt_keys d' \<and>
    attempts_have_tasks d' \<and> due_count now d = Suc (due_count now d')"
proof -
  from first_due [OF assms(3)] obtain a where a: "first_row (due_attempts now d) = Some a"
    "a \<in> set (d_attempts d)" "due now a" by auto
  then have st: "a_state a = Scheduled" by (simp add: due_def)
  have "0 < hits (\<lambda>x. a_id x = a_id a \<and> a_state x = Scheduled) (d_attempts d)"
    using a(2) st by (auto simp: hits_pos exists_where_iff)
  then obtain d1 where d1: "claim_attempt t (a_id a) d = Some d1"
    by (simp add: claim_attempt_def Let_def)
  have "get_task (a_task a) d \<noteq> None" using assms(2) a(2) by (simp add: attempts_have_tasks_def)
  then obtain tk where "get_task (a_task a) d1 = Some tk"
    using claim_Some(2) [OF d1] by (auto simp: get_task_def)
  moreover obtain q d2 where
    "q2_async_task w (enqueue_msg w (a\<lparr>a_cluster := Some (or_str (a_cluster a) (w_cluster w))\<rparr>) tk) d1
      = Inr (q, d2)"
    using assms(4) by (fastforce simp: q2_async_task_def split: option.splits)
  ultimately obtain d' where c: "claim_and_enqueue w now t d d = Inr (Some True, d')"
    using a d1 by (auto simp: claim_and_enqueue_def Let_def)
  from c obtain b f where first: "first_row (due_attempts now d) = Some b"
    and f: "\<And>x. a_state (f x) = Queued" "\<And>x. a_id (f x) = a_id x"
      "\<And>x. a_task (f x) = a_task x" "\<And>x. a_number (f x) = a_number x"
    and at: "d_attempts d' = upd_where (\<lambda>x. a_id x = a_id b) f (d_attempts d)"
    and nx: "d_next d' = d_next d" and tids: "map t_id (d_tasks d') = map t_id (d_tasks d)"
    by (rule claim_and_enqueue_True) (rule that, assumption+)
  have b: "b = a" using first a by simp
  have "map a_id (d_attempts d') = map a_id (d_attempts d)"
    "map (\<lambda>a. (a_task a, a_number a)) (d_attempts d') = map (\<lambda>a. (a_task a, a_number a)) (d_attempts d)"
    unfolding at by (auto intro!: map_upd_where simp: f)
  moreover have "\<forall>x \<in> set (d_attempts d'). a_id x < d_next d'"
    using assms(1) by (auto simp: attempt_keys_def at set_upd_where f nx)
  ultimately have "attempt_keys d'" using assms(1) by (simp add: attempt_keys_def)
  moreover have "set (map t_id (d_tasks d')) = set (map t_id (d_tasks d))" by (simp only: tids)
  then have "attempts_have_tasks d'"
    using assms(2) by (auto simp: attempts_have_tasks_def get_task_def get_by_None at set_upd_where f)
  moreover have "due_count now d = Suc (due_count now d')"
    unfolding due_count_def at b
    by (rule hits_upd_key) (use assms(1) a f in \<open>auto simp: attempt_keys_def due_def\<close>)
  ultimately show ?thesis using c by blast
qed

lemma dispatch_rounds_complete:
  assumes "attempt_keys d" "attempts_have_tasks d" "\<forall>q m. w_enqueue w q m \<noteq> None"
    and "limit - k \<le> n" "k \<le> limit"
  shows "\<exists>d'. dispatch_rounds w now clk limit n k d = (min limit (k + due_count now d), d') \<and>
    due_count now d' = due_count now d - (limit - k)"
  using assms(1,2,4,5)
proof (induction n arbitrary: k d)
  case 0
  then show ?case by simp
next
  case (Suc n)
  show ?case
  proof (cases "limit \<le> k")
    case True
    with Suc.prems show ?thesis by simp
  next
    case more: False
    show ?thesis
    proof (cases "due_count now d = 0")
      case True
      then have "first_row (due_attempts now d) = None"
        using due_attempts_length [of now d] by simp
      then have "claim_and_enqueue w now (clk n) d d = Inr (None, d)"
        by (simp add: claim_and_enqueue_def)
      with more True show ?thesis by simp
    next
      case False
      then obtain d' where d': "claim_and_enqueue w now (clk n) d d = Inr (Some True, d')"
        "attempt_keys d'" "attempts_have_tasks d'" "due_count now d = Suc (due_count now d')"
        using claim_progress [OF Suc.prems(1,2) _ assms(3), of now "clk n"] by auto
      have "limit - Suc k \<le> n" "Suc k \<le> limit" using Suc.prems more by auto
      from Suc.IH [OF d'(2,3) this] d' more show ?thesis by auto
    qed
  qed
qed

text \<open>
  C21: one pass of the dispatcher drains what is due. With a reachable broker it enqueues
  every due attempt up to the limit, and exactly as many stay due as the limit left over; its
  bound of twice the limit rounds is enough.
\<close>

theorem dispatch_due_complete:
  assumes "attempt_keys d" "attempts_have_tasks d" "\<forall>q m. w_enqueue w q m \<noteq> None"
  shows "\<exists>d'. dispatch_due w now clk (Some l) d = (min l (due_count now d), d') \<and>
    due_count now d' = due_count now d - l"
  using dispatch_rounds_complete [OF assms, of l 0 "2 * l" now clk]
  by (simp add: dispatch_due_def)

theorem dispatch_due_complete_witness:
  "\<exists>d'. dispatch_due demo_world 6 (\<lambda>_. 6) (Some 5) sched_db1 = (1, d') \<and> due_count 6 d' = 0"
proof -
  have "attempt_keys sched_db1" unfolding attempt_keys_def by code_simp
  moreover have "attempts_have_tasks sched_db1" unfolding attempts_have_tasks_def by code_simp
  moreover have "\<forall>q m. w_enqueue demo_world q m \<noteq> None" by (simp add: demo_world_def)
  moreover have "due_count 6 sched_db1 = 1" by code_simp
  ultimately show ?thesis
    using dispatch_due_complete [of sched_db1 demo_world 6 "\<lambda>_. 6" 5] by simp
qed

section \<open>The sleep of the dispatcher loop\<close>

lemma min_opt_Some: "x = Some b \<or> y = Some b \<Longrightarrow> \<exists>z. min_opt x y = Some z \<and> z \<le> b"
  by (cases x; cases y) auto

lemma fold_min_opt:
  "fold (\<lambda>a m. min_opt (a_not_before a) m) xs m = Some e \<Longrightarrow>
   (\<forall>b. m = Some b \<longrightarrow> e \<le> b) \<and> (\<forall>a \<in> set xs. \<forall>t. a_not_before a = Some t \<longrightarrow> e \<le> t)"
proof (induction xs arbitrary: m)
  case (Cons a xs)
  let ?m = "min_opt (a_not_before a) m"
  from Cons have ih: "\<forall>b. ?m = Some b \<longrightarrow> e \<le> b"
    "\<forall>a \<in> set xs. \<forall>t. a_not_before a = Some t \<longrightarrow> e \<le> t"
    by simp_all
  have "e \<le> b" if "a_not_before a = Some b \<or> m = Some b" for b
    using min_opt_Some [OF that] ih(1) by auto
  with ih(2) show ?case by simp
qed simp

lemma min_opt_None: "min_opt x y = None \<longleftrightarrow> x = None \<and> y = None"
  by (cases x; cases y) auto

lemma fold_min_opt_None:
  "fold (\<lambda>a m. min_opt (a_not_before a) m) xs m = None \<longleftrightarrow>
     m = None \<and> (\<forall>a \<in> set xs. a_not_before a = None)"
  by (induction xs arbitrary: m) (auto simp: min_opt_None)

lemma never_oversleeps_parts:
  assumes "a \<in> set (d_attempts d)" "a_state a = Scheduled" "a_not_before a = Some t"
  shows "now + seconds_until_due interval now d \<le> max t (now + min_sleep)"
    and "seconds_until_due interval now d \<le> max interval min_sleep"
    and "min_sleep \<le> seconds_until_due interval now d"
proof -
  have "earliest_due d \<noteq> None"
    unfolding earliest_due_def fold_min_opt_None using assms by auto
  then obtain e where e: "earliest_due d = Some e" by auto
  have "e \<le> t"
    using fold_min_opt [OF e [unfolded earliest_due_def]] assms by auto
  with e show "now + seconds_until_due interval now d \<le> max t (now + min_sleep)"
    "seconds_until_due interval now d \<le> max interval min_sleep"
    "min_sleep \<le> seconds_until_due interval now d"
    by (auto simp: seconds_until_due_def max_def min_def)
qed

text \<open>
  The loop never oversleeps a due time: with an attempt scheduled for t the sleep ends at
  t at the latest, or after the 50 ms floor when t has nearly come; and it never exceeds the
  configured interval by more than that floor.
\<close>

theorem never_oversleeps:
  assumes "a \<in> set (d_attempts d)" "a_state a = Scheduled" "a_not_before a = Some t"
  shows "now + seconds_until_due interval now d \<le> max t (now + min_sleep) \<and>
    seconds_until_due interval now d \<le> max interval min_sleep \<and>
    min_sleep \<le> seconds_until_due interval now d"
  using never_oversleeps_parts [OF assms] by blast

theorem never_oversleeps_witness: "3 + seconds_until_due 60 3 sched_db1 \<le> 5"
proof -
  obtain a where "d_attempts sched_db1 = [a]" "a_state a = Scheduled" "a_not_before a = Some 5"
    by (rule that [of "hd (d_attempts sched_db1)"]) code_simp+
  then show ?thesis
    using never_oversleeps [of a sched_db1 5 3 60] by (simp add: min_sleep_def)
qed

section \<open>Retries are bounded\<close>

lemma calculate_delay_nonneg:
  assumes "valid_policy p" "0 \<le> u" "u \<le> 1" "\<forall>h. hint = Some h \<longrightarrow> 0 \<le> h"
  shows "0 \<le> calculate_delay u p n hint rl"
  using assms plain_delay_nonneg [of p n] backoff_factor_pos [of n]
  by (auto simp: calculate_delay_def Let_def valid_policy_def jittered_nonneg min_def
      intro!: py_int_nonneg split: option.splits)

lemma retry_bounded_parts:
  assumes "handle_task_retry w u now t a result d = Inr (r, d')" "t_retry_policy t \<noteq> []"
    and "0 \<le> u" "u \<le> 1"
  shows "\<exists>p. from_dict (w_retry_defaults w) (t_retry_policy t) = Inr p \<and>
      r = should_retry p (a_number a) (a_exc a) \<and>
      (r \<longrightarrow> of_nat (a_number a) < rp_max p \<and> a_number a + 1 \<le> 10)"
    and "r \<Longrightarrow> \<exists>b t'. b \<in> set (d_attempts d') \<and> a_task b = t_id t \<and>
      a_number b = a_number a + 1 \<and> a_state b = Scheduled \<and> a_not_before b = Some t' \<and> now \<le> t'"
    and "\<forall>x \<in> set (d_tasks d'). t_id x = t_id t \<longrightarrow> t_status x = (if r then TPending else TExhausted)"
proof -
  from assms(1,2) obtain p where p: "from_dict (w_retry_defaults w) (t_retry_policy t) = Inr p"
    by (auto simp: handle_task_retry_def rbind_Inr split: if_splits)
  then have v: "valid_policy p" by (simp add: from_dict_def new_policy_valid)
  have r: "r = should_retry p (a_number a) (a_exc a)"
    using assms(1,2) p by (auto simp: handle_task_retry_def rbind_Inr Let_def split: if_splits)
  have "should_retry p n e \<Longrightarrow> of_nat n < rp_max p \<and> n < 10" for n e
    using should_retry_bound [OF v] by blast
  with p r show "\<exists>p. from_dict (w_retry_defaults w) (t_retry_policy t) = Inr p \<and>
      r = should_retry p (a_number a) (a_exc a) \<and>
      (r \<longrightarrow> of_nat (a_number a) < rp_max p \<and> a_number a + 1 \<le> 10)"
    by (fastforce simp: Suc_le_eq)
  let ?rl = "is_rate_limit p (a_exc a)"
  let ?hint = "if ?rl then parse_retry_after result else None"
  let ?delay = "calculate_delay u p (a_number a) ?hint ?rl"
  have delay: "0 \<le> ?delay"
    by (rule calculate_delay_nonneg [OF v assms(3,4)])
      (auto dest: parse_retry_after_ge_1)
  have retried: "\<exists>b. a_task b = t_id t \<and> a_number b = a_number a + 1 \<and> a_state b = Scheduled \<and>
      a_not_before b = Some (now + of_int ?delay) \<and> d_attempts d' = d_attempts d @ [b] \<and>
      d_tasks d' = upd_where (\<lambda>x. t_id x = t_id t) (set_task_status now TPending) (d_tasks d)" if r
  proof -
    from that r assms(1,2) p obtain i where
      "schedule_retry w u now p (t_id t) (a_number a) ?hint ?rl d = Inr (i, d')"
      by (auto simp: handle_task_retry_def rbind_Inr Let_def split: if_splits)
    then show ?thesis
      unfolding schedule_retry_def by (rule schedule_attempt_Inr) (auto intro!: exI)
  qed
  then show "\<exists>b t'. b \<in> set (d_attempts d') \<and> a_task b = t_id t \<and> a_number b = a_number a + 1 \<and>
      a_state b = Scheduled \<and> a_not_before b = Some t' \<and> now \<le> t'" if r
    using that delay by force
  show "\<forall>x \<in> set (d_tasks d'). t_id x = t_id t \<longrightarrow> t_status x = (if r then TPending else TExhausted)"
  proof (cases r)
    case True
    with retried show ?thesis by (auto simp: set_upd_where set_task_status_def)
  next
    case False
    with r assms(1,2) p have "d' = upd_tasks (\<lambda>x. t_id x = t_id t) (set_task_status now TExhausted) d"
      by (auto simp: handle_task_retry_def rbind_Inr Let_def)
    with False show ?thesis by (auto simp: set_upd_where set_task_status_def)
  qed
qed

text \<open>
  C8: a failed attempt of a task with a policy is either retried or exhausts the task. A
  retry is a new SCHEDULED attempt with the next number, within the policy's bound and so
  never an eleventh execution, not due before now plus the computed delay; the task returns
  to PENDING, or becomes EXHAUSTED when the policy declines.
\<close>

theorem retry_bounded:
  assumes "handle_task_retry w u now t a result d = Inr (r, d')" "t_retry_policy t \<noteq> []"
    and "0 \<le> u" "u \<le> 1"
  shows "(\<exists>p. from_dict (w_retry_defaults w) (t_retry_policy t) = Inr p \<and>
      r = should_retry p (a_number a) (a_exc a) \<and>
      (r \<longrightarrow> of_nat (a_number a) < rp_max p \<and> a_number a + 1 \<le> 10)) \<and>
    (r \<longrightarrow> (\<exists>b t'. b \<in> set (d_attempts d') \<and> a_task b = t_id t \<and>
      a_number b = a_number a + 1 \<and> a_state b = Scheduled \<and> a_not_before b = Some t' \<and> now \<le> t')) \<and>
    (\<forall>x \<in> set (d_tasks d'). t_id x = t_id t \<longrightarrow> t_status x = (if r then TPending else TExhausted))"
  using retry_bounded_parts [OF assms] by blast

definition retry_task :: task_row where
  "retry_task = (demo_task 1)\<lparr>t_retry_policy := [(''max_attempts'', PInt 4)]\<rparr>"

definition failed_attempt :: attempt_row where
  "failed_attempt = (blank_attempt 7 1 1 0)\<lparr>a_success := Some False, a_exc := Some ''KeyError''\<rparr>"

definition retry_db :: db where
  "retry_db = empty_db\<lparr>d_tasks := [retry_task], d_attempts := [failed_attempt]\<rparr>"

theorem retry_bounded_witness:
  "\<exists>d'. handle_task_retry demo_world 0 50 retry_task failed_attempt None retry_db = Inr (True, d') \<and>
    (\<exists>b \<in> set (d_attempts d'). a_number b = 2 \<and> a_state b = Scheduled)"
proof -
  define res where "res = handle_task_retry demo_world 0 50 retry_task failed_attempt None retry_db"
  have "(case res of Inr (r, d) \<Rightarrow> r | Inl _ \<Rightarrow> False)" unfolding res_def by code_simp
  then obtain d' where d': "handle_task_retry demo_world 0 50 retry_task failed_attempt None retry_db
      = Inr (True, d')"
    by (auto simp: res_def split: sum.splits prod.splits)
  have h: "t_retry_policy retry_task \<noteq> []" "a_number failed_attempt = 1"
    by (simp_all add: retry_task_def failed_attempt_def blank_attempt_def)
  from retry_bounded [OF d' h(1)] obtain b where "b \<in> set (d_attempts d')" "a_number b = 2"
    "a_state b = Scheduled" unfolding h by auto
  with d' show ?thesis by blast
qed

end
