(* ===== verification/Qraft_Lease.thy ===== *)
theory Qraft_Lease
  imports Qraft_Scheduler
begin

text \<open>
  The execution lease and the worker-side runner (\<^verbatim>\<open>qraft/lease.py\<close>,
  \<^verbatim>\<open>qraft/runner.py\<close>), and the marker path of \<^verbatim>\<open>qraft/hooks.py\<close>
  the lease falls back to. \<open>proc\<close> is the state of one executing worker: the delivery it
  runs, the memoised claim, and the stop events of its heartbeat threads. The target function
  is a parameter of \<open>run_task\<close>.
\<close>

section \<open>Claiming a delivery\<close>

datatype verdict = FirstDelivery | RepeatDelivery | RefusedDelivery | NoAttempt

record proc =
  pr_q2 :: "q2id option"
  pr_claim :: "(q2id \<times> verdict \<times> time) option"
  pr_beats :: "(q2id \<times> bool) list"

definition claimable :: "world \<Rightarrow> q2id \<Rightarrow> attempt_row \<Rightarrow> bool" where
  "claimable w q a \<longleftrightarrow> a_q2 a = Some q \<and> a_success a = None \<and> a_exec_count a < w_max_executions w"

definition begin_execution :: "time \<Rightarrow> nat \<Rightarrow> string option \<Rightarrow> attempt_row \<Rightarrow> attempt_row" where
  "begin_execution now pid thread a = a\<lparr>a_heartbeat := Some now, a_pid := Some pid,
     a_thread := thread, a_exec_count := a_exec_count a + 1\<rparr>"

definition claim :: "world \<Rightarrow> nat \<Rightarrow> string option \<Rightarrow> time \<Rightarrow> q2id \<Rightarrow> db \<Rightarrow> verdict \<times> db" where
  "claim w pid thread now q d =
     (let first = (\<lambda>a. claimable w q a \<and> a_started a = None) in
      if 0 < hits first (d_attempts d) then
        (FirstDelivery,
         upd_attempts first (\<lambda>a. (begin_execution now pid thread a)\<lparr>a_started := Some now\<rparr>) d)
      else if 0 < hits (claimable w q) (d_attempts d) then
        (RepeatDelivery, upd_attempts (claimable w q) (begin_execution now pid thread) d)
      else if exists_where (\<lambda>a. a_q2 a = Some q) (d_attempts d) then (RefusedDelivery, d)
      else (NoAttempt, d))"

text \<open>\<^verbatim>\<open>_announce_start\<close>: the \<^verbatim>\<open>task_started\<close> signal of the attempt.\<close>

definition announce_start :: "q2id \<Rightarrow> db \<Rightarrow> db" where
  "announce_start q d =
     (case find (\<lambda>a. a_q2 a = Some q) (d_attempts d) of
        Some a \<Rightarrow> emit (TaskStarted (a_id a)) d
      | None \<Rightarrow> d)"

definition claim_delivery ::
  "world \<Rightarrow> nat \<Rightarrow> string option \<Rightarrow> time \<Rightarrow> q2id \<Rightarrow> proc \<Rightarrow> db \<Rightarrow> verdict \<times> proc \<times> db" where
  "claim_delivery w pid thread now q p d =
     (case pr_claim p of
        Some (q', v, t) \<Rightarrow>
          if q' = q then (v, p, d)
          else (let (v, d) = claim w pid thread now q d in
            (v, if v \<noteq> NoAttempt then p\<lparr>pr_claim := Some (q, v, now)\<rparr> else p,
             if v = FirstDelivery then announce_start q d else d))
      | None \<Rightarrow>
          (let (v, d) = claim w pid thread now q d in
            (v, if v \<noteq> NoAttempt then p\<lparr>pr_claim := Some (q, v, now)\<rparr> else p,
             if v = FirstDelivery then announce_start q d else d)))"

definition admitted :: "verdict \<Rightarrow> bool" where
  "admitted v \<longleftrightarrow> v = FirstDelivery \<or> v = RepeatDelivery"

definition stamp_start ::
  "world \<Rightarrow> nat \<Rightarrow> string option \<Rightarrow> time \<Rightarrow> q2id \<Rightarrow> proc \<Rightarrow> db \<Rightarrow> bool \<times> proc \<times> db" where
  "stamp_start w pid thread now q p d =
     (let (v, p, d) = claim_delivery w pid thread now q p d in (admitted v, p, d))"

section \<open>The marker path\<close>

definition starts_with :: "string \<Rightarrow> string \<Rightarrow> bool" where
  "starts_with p s \<longleftrightarrow> take (length p) s = p"

definition attempt_from_marker ::
  "world \<Rightarrow> time \<Rightarrow> string option \<Rightarrow> q2id \<Rightarrow> db \<Rightarrow> (id option \<times> db) res" where
  "attempt_from_marker w now name q d =
     (case name of
        None \<Rightarrow> Inr (None, d)
      | Some s \<Rightarrow>
          if \<not> starts_with ''qraft:'' s then Inr (None, d)
          else (case parse_qraft_marker s of
              None \<Rightarrow> Inr (None, d)
            | Some (t, n) \<Rightarrow>
                if get_task t d = None then Inr (None, d)
                else (case find (\<lambda>a. a_task a = t \<and> a_number a = n) (d_attempts d) of
                    Some a \<Rightarrow>
                      if a_q2 a = Some q then Inr (Some (a_id a), d)
                      else if exists_where (\<lambda>b. a_q2 b = Some q) (d_attempts d) then Inl IntegrityError
                      else Inr (Some (a_id a), upd_attempts (\<lambda>b. a_id b = a_id a)
                             (\<lambda>b. b\<lparr>a_q2 := Some q, a_state := Queued\<rparr>) d)
                  | None \<Rightarrow>
                      if exists_where (\<lambda>b. a_q2 b = Some q) (d_attempts d) then Inl IntegrityError
                      else rbind (insert_attempt ((blank_attempt (d_next d) t n now)
                             \<lparr>a_q2 := Some q, a_cluster := Some (w_cluster w)\<rparr>) d) (\<lambda>d'.
                           Inr (Some (d_next d), d')))))"

definition open_marker_lease :: "world \<Rightarrow> time \<Rightarrow> string option \<Rightarrow> q2id \<Rightarrow> db \<Rightarrow> (bool \<times> db) res" where
  "open_marker_lease w now name q d =
     rbind (attempt_from_marker w now name q d) (\<lambda>(a, d).
       case a of
         None \<Rightarrow> Inr (False, d)
       | Some i \<Rightarrow>
           (case get_attempt i d of
              None \<Rightarrow> Inl DoesNotExist
            | Some r \<Rightarrow> Inr (True, upd_tasks (\<lambda>t. t_id t = a_task r \<and> t_status t = TPending)
                              (set_task_status now TRunning) d)))"

section \<open>Heartbeats\<close>

definition touch :: "time \<Rightarrow> q2id \<Rightarrow> db \<Rightarrow> nat \<times> db" where
  "touch now q d =
     (let P = (\<lambda>a. a_q2 a = Some q \<and> a_success a = None) in
      (hits P (d_attempts d), upd_attempts P (\<lambda>a. a\<lparr>a_heartbeat := Some now\<rparr>) d))"

definition lease_deadline_seconds :: "secs option \<Rightarrow> secs" where
  "lease_deadline_seconds timeout =
     (case timeout of Some t \<Rightarrow> if t \<noteq> 0 then t + 60 else 24 * 3600 | None \<Rightarrow> 24 * 3600)"

text \<open>
  \<^verbatim>\<open>heartbeat_loop\<close>. \<open>stopped k\<close>: the stop event was set during the k-th wait;
  \<open>env k\<close>: what the rest of the system did to the database during it. The interval of the
  settings is positive. The result counts the updates made.
\<close>

function heartbeat_loop ::
  "secs \<Rightarrow> secs \<Rightarrow> (nat \<Rightarrow> bool) \<Rightarrow> (nat \<Rightarrow> db \<Rightarrow> db) \<Rightarrow> time \<Rightarrow> q2id \<Rightarrow> nat \<Rightarrow> secs \<Rightarrow> db \<Rightarrow> nat \<times> db"
where
  "heartbeat_loop interval deadline stopped env t0 q k elapsed d =
     (if interval \<le> 0 \<or> stopped k then (0, env k d)
      else if deadline \<le> elapsed + interval then (0, env k d)
      else (let (n, d') = touch (t0 + (elapsed + interval)) q (env k d) in
            if n = 0 then (1, d')
            else (let (m, d'') = heartbeat_loop interval deadline stopped env t0 q (Suc k)
                                   (elapsed + interval) d'
                  in (Suc m, d''))))"
  by pat_completeness auto

termination
proof (relation "measure (\<lambda>(interval, deadline, stopped, env, t0, q, k, elapsed, d).
    nat \<lceil>(deadline - elapsed) / interval\<rceil>)", goal_cases)
  case (2 interval deadline stopped env t0 q k elapsed d)
  then have i: "0 < interval" "elapsed + interval < deadline" by auto
  then have "(deadline - (elapsed + interval)) / interval = (deadline - elapsed) / interval - 1"
    by (simp add: field_simps)
  moreover have "1 < (deadline - elapsed) / interval" using i by (simp add: field_simps)
  ultimately show ?case by simp
qed simp

declare heartbeat_loop.simps [simp del]

definition start_heartbeat :: "q2id \<Rightarrow> proc \<Rightarrow> bool \<times> proc" where
  "start_heartbeat q p =
     (if map_of (pr_beats p) q \<noteq> None then (False, p)
      else (True, p\<lparr>pr_beats := (q, False) # pr_beats p\<rparr>))"

definition stop_heartbeat :: "q2id option \<Rightarrow> proc \<Rightarrow> proc" where
  "stop_heartbeat q p =
     (case q of None \<Rightarrow> p
      | Some q \<Rightarrow> p\<lparr>pr_beats := map (\<lambda>(i, s). if i = q then (i, True) else (i, s)) (pr_beats p)\<rparr>)"

text \<open>\<^verbatim>\<open>_on_pre_execute_lease\<close>; an error in it is logged and opens no lease.\<close>

definition on_pre_execute ::
  "world \<Rightarrow> nat \<Rightarrow> string option \<Rightarrow> time \<Rightarrow> string option \<Rightarrow> q2id \<Rightarrow> proc \<Rightarrow> db \<Rightarrow> proc \<times> db" where
  "on_pre_execute w pid thread now name q p d =
     (let (v, p, d) = claim_delivery w pid thread now q p d in
      if v = NoAttempt then
        (case open_marker_lease w now name q d of
           Inl e \<Rightarrow> (p, d)
         | Inr (b, d') \<Rightarrow>
             if \<not> b then (p, d')
             else (let (v', p', d'') = claim_delivery w pid thread now q p d' in
                   (if admitted v' then snd (start_heartbeat q p') else p', d'')))
      else (if admitted v then snd (start_heartbeat q p) else p, d))"

section \<open>Running the target\<close>

definition guard_delivery ::
  "world \<Rightarrow> nat \<Rightarrow> string option \<Rightarrow> time \<Rightarrow> proc \<Rightarrow> db \<Rightarrow> unit res \<times> proc \<times> db" where
  "guard_delivery w pid thread now p d =
     (case pr_q2 p of
        None \<Rightarrow> (Inr (), p, d)
      | Some q \<Rightarrow>
          (let (v, p, d) = claim_delivery w pid thread now q p d in
           (guard (v \<noteq> RefusedDelivery) RedeliveredAttempt, p, d)))"

definition close_lease :: "time \<Rightarrow> proc \<Rightarrow> db \<Rightarrow> proc \<times> db" where
  "close_lease now p d =
     (case pr_q2 p of
        None \<Rightarrow> (p, d)
      | Some q \<Rightarrow>
          (stop_heartbeat (Some q) p,
           upd_attempts (\<lambda>a. a_q2 a = Some q \<and> a_success a = None)
             (\<lambda>a. a\<lparr>a_returned_at := Some now\<rparr>) d))"

definition run_task ::
  "world \<Rightarrow> nat \<Rightarrow> string option \<Rightarrow> time \<Rightarrow> time \<Rightarrow> (db \<Rightarrow> 'a res \<times> db) \<Rightarrow> proc \<Rightarrow> db \<Rightarrow>
   'a res \<times> proc \<times> db" where
  "run_task w pid thread now done target p d =
     (let (g, p, d) = guard_delivery w pid thread now p d in
      case g of
        Inl e \<Rightarrow> (Inl e, p, d)
      | Inr _ \<Rightarrow> (let (r, d) = target d; (p, d) = close_lease done p d in (r, p, d)))"

text \<open>
  \<^verbatim>\<open>dispatch_spec\<close>: a coroutine function is rerouted through the runner.
\<close>

definition dispatch_spec ::
  "world \<Rightarrow> string \<Rightarrow> pyval list \<Rightarrow> dict \<Rightarrow> string \<times> pyval list \<times> dict" where
  "dispatch_spec w path args kwargs =
     (if w_coroutine w path
      then (''qraft.runner.run_task'', [PStr path, PList args, PDict kwargs], [])
      else (path, args, kwargs))"

end
