(* ===== verification/Qraft_LeaseProps.thy ===== *)
theory Qraft_LeaseProps
  imports Qraft_Lease
begin

text \<open>
  Properties of the execution lease: the execution allowance of an attempt, the memoised claim,
  refused deliveries, and the bounded life of a heartbeat thread.
\<close>

section \<open>The execution allowance\<close>

text \<open>
  What can happen to the attempt behind one Django-Q2 task id: deliveries of it to any worker
  (each a fresh process state), heartbeats, the return of the function, and its resolution.
\<close>

datatype lease_op =
    Deliver nat "string option" time
  | Beat time
  | Return time
  | Resolve bool time

definition resolve_row :: "bool \<Rightarrow> time \<Rightarrow> q2id \<Rightarrow> db \<Rightarrow> db" where
  "resolve_row s now q d = upd_attempts (\<lambda>a. a_q2 a = Some q \<and> a_success a = None)
     (\<lambda>a. a\<lparr>a_success := Some s, a_completed := Some now\<rparr>) d"

definition fresh_proc :: "q2id \<Rightarrow> proc" where
  "fresh_proc q = \<lparr>pr_q2 = Some q, pr_claim = None, pr_beats = []\<rparr>"

fun lease_run :: "world \<Rightarrow> q2id \<Rightarrow> lease_op list \<Rightarrow> db \<Rightarrow> verdict list \<times> db" where
  "lease_run w q [] d = ([], d)"
| "lease_run w q (Deliver pid th now # ops) d =
     (let (v, p, d) = claim_delivery w pid th now q (fresh_proc q) d;
          (vs, d) = lease_run w q ops d in (v # vs, d))"
| "lease_run w q (Beat now # ops) d = lease_run w q ops (snd (touch now q d))"
| "lease_run w q (Return now # ops) d = lease_run w q ops (snd (close_lease now (fresh_proc q) d))"
| "lease_run w q (Resolve s now # ops) d = lease_run w q ops (resolve_row s now q d)"

definition rows_of :: "q2id \<Rightarrow> db \<Rightarrow> attempt_row list" where
  "rows_of q d = filter (\<lambda>a. a_q2 a = Some q) (d_attempts d)"

lemma upd_where_filter:
  "(\<And>r. P r \<Longrightarrow> Q (f r) = Q r) \<Longrightarrow> filter Q (upd_where P f rs) = upd_where P f (filter Q rs)"
  by (induction rs) auto

lemma rows_of_upd:
  assumes "\<And>a. P a \<Longrightarrow> a_q2 (f a) = a_q2 a"
  shows "rows_of q (upd_attempts P f d) = upd_where P f (rows_of q d)"
  using assms by (simp add: rows_of_def upd_where_filter)

lemma rows_of_emit [simp]: "rows_of q (emit e d) = rows_of q d"
  by (simp add: rows_of_def)

lemma rows_of_announce [simp]: "rows_of q (announce_start q' d) = rows_of q d"
  by (simp add: announce_start_def split: option.splits)

lemma hits_rows:
  assumes "\<And>a. P a \<Longrightarrow> a_q2 a = Some q"
  shows "0 < hits P (d_attempts d) \<longleftrightarrow> exists_where P (rows_of q d)"
  using assms by (auto simp: hits_pos exists_where_iff rows_of_def)

lemma begin_execution_simps [simp]:
  "a_q2 (begin_execution now pid th a) = a_q2 a"
  "a_exec_count (begin_execution now pid th a) = Suc (a_exec_count a)"
  "a_success (begin_execution now pid th a) = a_success a"
  "a_started (begin_execution now pid th a) = a_started a"
  by (simp_all add: begin_execution_def)

text \<open>The claim, seen from the one row that carries the id.\<close>

lemma claim_row:
  assumes "rows_of q d = [a]" "claim w pid th now q d = (v, d')"
  shows "v = (if a_success a \<noteq> None \<or> w_max_executions w \<le> a_exec_count a then RefusedDelivery
      else if a_started a = None then FirstDelivery else RepeatDelivery)"
    and "\<exists>b. rows_of q d' = [b] \<and> a_success b = a_success a \<and>
      a_exec_count b = (if admitted v then Suc (a_exec_count a) else a_exec_count a) \<and>
      (a_started b = None \<longleftrightarrow> a_started a = None \<and> v \<noteq> FirstDelivery)"
proof -
  have q: "a_q2 a = Some q" using assms(1) by (auto simp: rows_of_def filter_eq_Cons_iff)
  have ex: "exists_where (\<lambda>a. a_q2 a = Some q) (d_attempts d)"
    using hits_rows [of "\<lambda>a. a_q2 a = Some q" q d] assms(1) q by (simp add: hits_pos)
  let ?first = "\<lambda>a. claimable w q a \<and> a_started a = None"
  have h1: "0 < hits ?first (d_attempts d) \<longleftrightarrow> ?first a"
    using hits_rows [of ?first q d] assms(1) by (simp add: claimable_def)
  have h2: "0 < hits (claimable w q) (d_attempts d) \<longleftrightarrow> claimable w q a"
    using hits_rows [of "claimable w q" q d] assms(1) by (simp add: claimable_def)
  note c = assms(2) [unfolded claim_def Let_def h1 h2, simplified ex, simplified]
  show "v = (if a_success a \<noteq> None \<or> w_max_executions w \<le> a_exec_count a then RefusedDelivery
      else if a_started a = None then FirstDelivery else RepeatDelivery)"
    using c q by (auto simp: claimable_def not_le split: if_splits)
  show "\<exists>b. rows_of q d' = [b] \<and> a_success b = a_success a \<and>
      a_exec_count b = (if admitted v then Suc (a_exec_count a) else a_exec_count a) \<and>
      (a_started b = None \<longleftrightarrow> a_started a = None \<and> v \<noteq> FirstDelivery)"
    using c assms(1) by (auto simp: rows_of_upd admitted_def split: if_splits)
qed

lemma deliver_row:
  assumes "rows_of q d = [a]" "claim_delivery w pid th now q (fresh_proc q) d = (v, p, d')"
  shows "v = (if a_success a \<noteq> None \<or> w_max_executions w \<le> a_exec_count a then RefusedDelivery
      else if a_started a = None then FirstDelivery else RepeatDelivery)"
    and "\<exists>b. rows_of q d' = [b] \<and> a_success b = a_success a \<and>
      a_exec_count b = (if admitted v then Suc (a_exec_count a) else a_exec_count a) \<and>
      (a_started b = None \<longleftrightarrow> a_started a = None \<and> v \<noteq> FirstDelivery)"
proof -
  obtain v1 d1 where c: "claim w pid th now q d = (v1, d1)" by force
  with assms(2) have "v = v1" "d' = (if v1 = FirstDelivery then announce_start q d1 else d1)"
    by (auto simp: claim_delivery_def fresh_proc_def)
  then show "v = (if a_success a \<noteq> None \<or> w_max_executions w \<le> a_exec_count a then RefusedDelivery
      else if a_started a = None then FirstDelivery else RepeatDelivery)"
    "\<exists>b. rows_of q d' = [b] \<and> a_success b = a_success a \<and>
      a_exec_count b = (if admitted v then Suc (a_exec_count a) else a_exec_count a) \<and>
      (a_started b = None \<longleftrightarrow> a_started a = None \<and> v \<noteq> FirstDelivery)"
    using claim_row [OF assms(1) c] by auto
qed

lemma other_op_row:
  assumes "rows_of q d = [a]"
  shows "\<exists>b. rows_of q (snd (touch now q d)) = [b] \<and> a_exec_count b = a_exec_count a \<and>
      a_started b = a_started a"
    "\<exists>b. rows_of q (snd (close_lease now (fresh_proc q) d)) = [b] \<and>
      a_exec_count b = a_exec_count a \<and> a_started b = a_started a"
    "\<exists>b. rows_of q (resolve_row s now q d) = [b] \<and> a_exec_count b = a_exec_count a \<and>
      a_started b = a_started a \<and> a_success b \<noteq> None"
  using assms
  by (auto simp: touch_def close_lease_def resolve_row_def fresh_proc_def rows_of_upd Let_def)
    (auto simp: rows_of_def filter_eq_Cons_iff)

lemma admitted_simps [simp]:
  "admitted FirstDelivery" "admitted RepeatDelivery" "\<not> admitted RefusedDelivery" "\<not> admitted NoAttempt"
  by (simp_all add: admitted_def)

lemma lease_run_deliver:
  "claim_delivery w pid th now q (fresh_proc q) d = (v, p, d') \<Longrightarrow>
   fst (lease_run w q (Deliver pid th now # ops) d) = v # fst (lease_run w q ops d')"
  by (simp add: case_prod_beta)

text \<open>Every operation but a delivery leaves the allowance and the start of the row alone.\<close>

lemma lease_run_other:
  assumes "rows_of q d = [a]" "\<nexists>pid th now. x = Deliver pid th now"
  shows "\<exists>d' b. lease_run w q (x # ops) d = lease_run w q ops d' \<and> rows_of q d' = [b] \<and>
    a_exec_count b = a_exec_count a \<and> a_started b = a_started a"
proof (cases x)
  case (Beat now)
  then show ?thesis using other_op_row(1) [OF assms(1), of now] by (metis lease_run.simps(3))
next
  case (Return now)
  then show ?thesis using other_op_row(2) [OF assms(1), of now] by (metis lease_run.simps(4))
next
  case (Resolve s now)
  then show ?thesis using other_op_row(3) [OF assms(1), of s now] by (metis lease_run.simps(5))
qed (use assms(2) in auto)

lemma lease_run_admits:
  "rows_of q d = [a] \<Longrightarrow>
   length (filter admitted (fst (lease_run w q ops d))) \<le> w_max_executions w - a_exec_count a"
proof (induction ops arbitrary: d a)
  case (Cons x ops)
  show ?case
  proof (cases "\<exists>pid th now. x = Deliver pid th now")
    case True
    then obtain pid th now where x: "x = Deliver pid th now" by auto
    obtain v p d' where c: "claim_delivery w pid th now q (fresh_proc q) d = (v, p, d')"
      by (rule prod_cases3)
    note r = deliver_row [OF Cons.prems c]
    from r(2) obtain b where b: "rows_of q d' = [b]"
      "a_exec_count b = (if admitted v then Suc (a_exec_count a) else a_exec_count a)" by blast
    have "admitted v \<Longrightarrow> a_exec_count a < w_max_executions w" using r(1) by (simp split: if_splits)
    then show ?thesis
      unfolding x lease_run_deliver [OF c]
      using Cons.IH [OF b(1)] b(2) by (cases "admitted v") auto
  next
    case False
    with lease_run_other [OF Cons.prems] obtain d' b where
      "lease_run w q (x # ops) d = lease_run w q ops d'" "rows_of q d' = [b]"
      "a_exec_count b = a_exec_count a" by blast
    with Cons.IH [of d' b] show ?thesis by simp
  qed
qed simp

lemma lease_run_first:
  "rows_of q d = [a] \<Longrightarrow> length (filter (\<lambda>v. v = FirstDelivery) (fst (lease_run w q ops d)))
     \<le> (if a_started a = None then 1 else 0)"
proof (induction ops arbitrary: d a)
  case (Cons x ops)
  show ?case
  proof (cases "\<exists>pid th now. x = Deliver pid th now")
    case True
    then obtain pid th now where x: "x = Deliver pid th now" by auto
    obtain v p d' where c: "claim_delivery w pid th now q (fresh_proc q) d = (v, p, d')"
      by (rule prod_cases3)
    note r = deliver_row [OF Cons.prems c]
    from r(2) obtain b where b: "rows_of q d' = [b]"
      "a_started b = None \<longleftrightarrow> a_started a = None \<and> v \<noteq> FirstDelivery"
      by (elim exE conjE) (rule that)
    have "v = FirstDelivery \<Longrightarrow> a_started a = None" using r(1) by (simp split: if_splits)
    then show ?thesis
      unfolding x lease_run_deliver [OF c]
      using Cons.IH [OF b(1)] b(2) by (cases "v = FirstDelivery"; cases "a_started a = None") auto
  next
    case False
    with lease_run_other [OF Cons.prems] obtain d' b where
      "lease_run w q (x # ops) d = lease_run w q ops d'" "rows_of q d' = [b]"
      "a_started b = a_started a" by blast
    with Cons.IH [of d' b] show ?thesis by simp
  qed
qed simp

lemma executions_bounded_parts:
  assumes "rows_of q d = [a]"
  shows "length (filter admitted (fst (lease_run w q ops d))) \<le> w_max_executions w - a_exec_count a"
    and "length (filter (\<lambda>v. v = FirstDelivery) (fst (lease_run w q ops d))) \<le> 1"
proof -
  show "length (filter admitted (fst (lease_run w q ops d))) \<le> w_max_executions w - a_exec_count a"
    by (rule lease_run_admits [OF assms])
  show "length (filter (\<lambda>v. v = FirstDelivery) (fst (lease_run w q ops d))) \<le> 1"
    using lease_run_first [OF assms, of w ops] by (simp split: if_splits)
qed


definition lease_db :: db where
  "lease_db = empty_db\<lparr>d_tasks := [demo_task 1],
     d_attempts := [(blank_attempt 7 1 1 0)\<lparr>a_q2 := Some 5\<rparr>]\<rparr>"


section \<open>Refused deliveries and the memoised claim\<close>

lemma refused_delivery_never_runs_parts:
  assumes "rows_of q d = [a]"
  shows "a_success a \<noteq> None \<or> w_max_executions w \<le> a_exec_count a \<Longrightarrow>
      fst (run_task w pid th now done target (fresh_proc q) d) = Inl RedeliveredAttempt \<and>
      d_attempts (snd (snd (run_task w pid th now done target (fresh_proc q) d))) = d_attempts d"
    and "a_success a = None \<Longrightarrow> a_exec_count a < w_max_executions w \<Longrightarrow>
      \<exists>d1. fst (run_task w pid th now done target (fresh_proc q) d) = fst (target d1) \<and>
        rows_of q (snd (snd (run_task w pid th now done target (fresh_proc q) d))) =
          upd_where (\<lambda>x. a_success x = None) (a_returned_at_update (\<lambda>_. Some done))
            (rows_of q (snd (target d1)))"
proof -
  obtain v d1 where c: "claim w pid th now q d = (v, d1)" by force
  let ?d2 = "if v = FirstDelivery then announce_start q d1 else d1"
  have g: "guard_delivery w pid th now (fresh_proc q) d =
      (guard (v \<noteq> RefusedDelivery) RedeliveredAttempt,
       if v \<noteq> NoAttempt then (fresh_proc q)\<lparr>pr_claim := Some (q, v, now)\<rparr> else fresh_proc q, ?d2)"
    using c by (simp add: guard_delivery_def claim_delivery_def fresh_proc_def)
  note v = claim_row(1) [OF assms c]
  show "fst (run_task w pid th now done target (fresh_proc q) d) = Inl RedeliveredAttempt \<and>
      d_attempts (snd (snd (run_task w pid th now done target (fresh_proc q) d))) = d_attempts d"
    if "a_success a \<noteq> None \<or> w_max_executions w \<le> a_exec_count a"
  proof -
    have "v = RefusedDelivery" using v that by simp
    moreover then have "d1 = d" using c by (auto simp: claim_def Let_def split: if_splits)
    ultimately show ?thesis by (simp add: run_task_def g guard_def)
  qed
  show "\<exists>d1. fst (run_task w pid th now done target (fresh_proc q) d) = fst (target d1) \<and>
        rows_of q (snd (snd (run_task w pid th now done target (fresh_proc q) d))) =
          upd_where (\<lambda>x. a_success x = None) (a_returned_at_update (\<lambda>_. Some done))
            (rows_of q (snd (target d1)))"
    if "a_success a = None" "a_exec_count a < w_max_executions w"
  proof -
    have "v \<noteq> RefusedDelivery" using v that by (simp split: if_splits)
    then have "run_task w pid th now done target (fresh_proc q) d =
      (fst (target ?d2), close_lease done (if v \<noteq> NoAttempt
          then (fresh_proc q)\<lparr>pr_claim := Some (q, v, now)\<rparr> else fresh_proc q) (snd (target ?d2)))"
      by (simp add: run_task_def g guard_def case_prod_beta)
    moreover have "rows_of q (snd (close_lease done p x)) =
        upd_where (\<lambda>x. a_success x = None) (a_returned_at_update (\<lambda>_. Some done)) (rows_of q x)"
      if "pr_q2 p = Some q" for p x
    proof -
      have "\<forall>a \<in> set (rows_of q x). a_q2 a = Some q" by (simp add: rows_of_def)
      then show ?thesis
        using that by (auto simp: close_lease_def rows_of_upd upd_where_def)
    qed
    ultimately show ?thesis by (intro exI [of _ ?d2]) (simp add: fresh_proc_def)
  qed
qed

text \<open>
  A delivery whose attempt is resolved, or has used its allowance, never reaches the target
  function: the runner raises \<^verbatim>\<open>RedeliveredAttempt\<close>, whatever the target, and
  the attempt rows are left as they were. A delivery that is not refused runs the target once
  and stamps the return, also when the target raises.
\<close>

theorem refused_delivery_never_runs:
  assumes "rows_of q d = [a]"
  shows "(a_success a \<noteq> None \<or> w_max_executions w \<le> a_exec_count a \<longrightarrow>
      fst (run_task w pid th now done target (fresh_proc q) d) = Inl RedeliveredAttempt \<and>
      d_attempts (snd (snd (run_task w pid th now done target (fresh_proc q) d))) = d_attempts d) \<and>
    (a_success a = None \<and> a_exec_count a < w_max_executions w \<longrightarrow>
      (\<exists>d1. fst (run_task w pid th now done target (fresh_proc q) d) = fst (target d1) \<and>
        rows_of q (snd (snd (run_task w pid th now done target (fresh_proc q) d))) =
          upd_where (\<lambda>x. a_success x = None) (a_returned_at_update (\<lambda>_. Some done))
            (rows_of q (snd (target d1)))))"
  using refused_delivery_never_runs_parts [OF assms] by blast

definition spent_db :: db where
  "spent_db = empty_db\<lparr>d_attempts := [(blank_attempt 7 1 1 0)\<lparr>a_q2 := Some 5, a_exec_count := 1,
     a_started := Some 1\<rparr>]\<rparr>"

theorem refused_delivery_never_runs_witness:
  "fst (run_task demo_world 3 None 9 10 (\<lambda>d. (Inr (42 :: int), d)) (fresh_proc 5) spent_db)
     = Inl RedeliveredAttempt"
proof -
  have "rows_of 5 spent_db = [(blank_attempt 7 1 1 0)\<lparr>a_q2 := Some 5, a_exec_count := 1, a_started := Some 1\<rparr>]"
    by (simp add: rows_of_def spent_db_def)
  from refused_delivery_never_runs [OF this, of demo_world 3 None 9 10 "\<lambda>d. (Inr (42 :: int), d)"]
  show ?thesis by (simp add: demo_world_def)
qed

text \<open>
  The lease receiver and the runner share one claim: within one delivery a second claim
  gives the same verdict and changes nothing, so the receiver's claim never makes the runner
  refuse the delivery it admitted.
\<close>

theorem claim_memoised:
  assumes "claim_delivery w pid th now q p d = (v, p', d')" "v \<noteq> NoAttempt"
  shows "claim_delivery w pid' th' now' q p' d'' = (v, p', d'')"
  using assms by (auto simp: claim_delivery_def split: option.splits prod.splits if_splits)

theorem claim_memoised_witness:
  "\<exists>p' d'. claim_delivery demo_world 3 None 1 5 (fresh_proc 5) lease_db = (FirstDelivery, p', d') \<and>
     claim_delivery demo_world 3 None 2 5 p' d' = (FirstDelivery, p', d')"
proof -
  have "fst (claim_delivery demo_world 3 None 1 5 (fresh_proc 5) lease_db) = FirstDelivery"
    by code_simp
  then obtain p' d' where c: "claim_delivery demo_world 3 None 1 5 (fresh_proc 5) lease_db
      = (FirstDelivery, p', d')" by (metis prod.collapse)
  with claim_memoised [OF c, of 3 None 2 d'] show ?thesis by auto
qed

section \<open>The life of a heartbeat\<close>

text \<open>
  A heartbeat thread ends, within its deadline: it makes fewer refreshes than fit in the
  deadline, so even a lost stop event cannot keep a dead attempt looking alive for ever.
\<close>

theorem heartbeat_bounded:
  assumes "0 < interval" "0 \<le> elapsed" "elapsed < deadline"
  shows "of_nat (fst (heartbeat_loop interval deadline stopped env t0 q k elapsed d)) * interval
    < deadline - elapsed"
  using assms
proof (induction interval deadline stopped env t0 q k elapsed d rule: heartbeat_loop.induct)
  case (1 interval deadline stopped env t0 q k elapsed d)
  obtain n d' where t: "touch (t0 + (elapsed + interval)) q (env k d) = (n, d')" by force
  show ?case
  proof (cases "interval \<le> 0 \<or> stopped k \<or> deadline \<le> elapsed + interval \<or> n = 0")
    case True
    with t 1 show ?thesis by (subst heartbeat_loop.simps) auto
  next
    case False
    with 1 t have "of_nat (fst (heartbeat_loop interval deadline stopped env t0 q (Suc k)
        (elapsed + interval) d')) * interval < deadline - (elapsed + interval)" by auto
    with False t show ?thesis
      by (subst heartbeat_loop.simps) (simp add: case_prod_beta algebra_simps)
  qed
qed

theorem heartbeat_bounded_witness:
  "of_nat (fst (heartbeat_loop 30 120 (\<lambda>_. False) (\<lambda>_ d. d) 0 5 0 0 lease_db)) * 30 < (120 :: rat)"
  using heartbeat_bounded [of 30 0 120 "\<lambda>_. False" "\<lambda>_ d. d" 0 5 0 lease_db] by simp

end
