(* ===== verification/Qraft_Hook.thy ===== *)
theory Qraft_Hook
  imports Qraft_Lease
begin

text \<open>
  Hook dispatch: the claim rows \<^verbatim>\<open>HookDispatch\<close> and
  \<^verbatim>\<open>WorkflowHookDispatch\<close> (\<^verbatim>\<open>dispatch_hook_once\<close>,
  \<^verbatim>\<open>HookDispatcher\<close> and \<^verbatim>\<open>announce_resolution\<close> of
  \<^verbatim>\<open>qraft/hooks.py\<close>, \<^verbatim>\<open>_dispatch_workflow_hook\<close> of
  \<^verbatim>\<open>qraft/dispatchers.py\<close>). A claim and its enqueue are one transaction, so a
  broker failure leaves the database as it was. A synchronous hook (\<open>w_sync_hooks\<close>) runs
  application code and writes no row.
\<close>

section \<open>Values in JSON\<close>

definition js :: "string option \<Rightarrow> pyval" where
  "js s = (case s of Some x \<Rightarrow> PStr x | None \<Rightarrow> PNone)"

definition jid :: "id option \<Rightarrow> pyval" where
  "jid i = (case i of Some n \<Rightarrow> PInt (int n) | None \<Rightarrow> PNone)"

definition jtime :: "time option \<Rightarrow> pyval" where
  "jtime t = (case t of Some x \<Rightarrow> PFloat x | None \<Rightarrow> PNone)"

definition seconds_between :: "time option \<Rightarrow> time option \<Rightarrow> secs option" where
  "seconds_between start end = (case (start, end) of (Some a, Some b) \<Rightarrow> Some (max 0 (b - a)) | _ \<Rightarrow> None)"

definition given :: "string option \<Rightarrow> string option" where
  "given s = (case s of Some x \<Rightarrow> if x = [] then None else Some x | None \<Rightarrow> None)"

section \<open>Dispatching once\<close>

text \<open>
  The shape of both dispatch functions: nothing when the claim exists, else the enqueue and the
  claim row together, or neither.
\<close>

definition dispatch_hook_once ::
  "world \<Rightarrow> (db \<Rightarrow> bool) \<Rightarrow> (q2id \<Rightarrow> db \<Rightarrow> db) \<Rightarrow> q2msg \<Rightarrow> db \<Rightarrow> db" where
  "dispatch_hook_once w claimed record_claim m d =
     (if claimed d then d
      else (case q2_async_task w m d of
          Inl e \<Rightarrow> d
        | Inr (q, d') \<Rightarrow> record_claim q d'))"

definition hook_msg :: "world \<Rightarrow> string option \<Rightarrow> string \<Rightarrow> pyval list \<Rightarrow> dict \<Rightarrow> q2msg" where
  "hook_msg w name path args kwargs =
     (case dispatch_spec w path args kwargs of (f, as, kw) \<Rightarrow>
        \<lparr>m_func = f, m_args = as, m_kwargs = kw, m_hook = None, m_task_name = name,
         m_ack_failure = True, m_save = None, m_group = None, m_timeout = None,
         m_q_options = [], m_cluster = Some (w_cluster w),
         m_list_key = broker_list_key w (Some (w_cluster w)) None\<rparr>)"

definition hook_type_name :: "bool \<Rightarrow> string" where
  "hook_type_name s = (if s then ''success'' else ''failure'')"

definition dispatch_task_hook ::
  "world \<Rightarrow> id \<Rightarrow> bool \<Rightarrow> string \<Rightarrow> pyval list \<Rightarrow> dict \<Rightarrow> db \<Rightarrow> db" where
  "dispatch_task_hook w task s path args kwargs d =
     dispatch_hook_once w
       (\<lambda>d. exists_where (\<lambda>h. hd_task h = task \<and> hd_success h = s) (d_hooks d))
       (\<lambda>q d. d\<lparr>d_hooks := d_hooks d @ [\<lparr>hd_task = task, hd_success = s, hd_path = path, hd_q2 = q\<rparr>]\<rparr>)
       (hook_msg w (Some (''hook:'' @ hook_type_name s @ '':'' @ show_nat task)) path args kwargs) d"

text \<open>\<^verbatim>\<open>signals.attempt_payload\<close>, restricted to what the hook context reads of it.\<close>

definition node_generation :: "task_row \<Rightarrow> db \<Rightarrow> pyval" where
  "node_generation t d =
     (case t_graph_node t of
        None \<Rightarrow> PNone
      | Some n \<Rightarrow> (case get_node n d of Some r \<Rightarrow> PInt (int (n_generation r)) | None \<Rightarrow> PNone))"

definition hook_context :: "attempt_row \<Rightarrow> task_row \<Rightarrow> string \<Rightarrow> db \<Rightarrow> dict" where
  "hook_context a t outcome d =
     [(''task_id'', PInt (int (t_id t))), (''attempt_id'', PInt (int (a_id a))),
      (''attempt_number'', PInt (int (a_number a))), (''outcome'', PStr outcome),
      (''exception_class'', js (a_exc a)), (''graph_id'', jid (t_graph_id t)),
      (''node_key'', js (t_node t)), (''generation'', node_generation t d),
      (''subject_type'', js (t_subject_type t)), (''subject_id'', js (t_subject_id t)),
      (''result_ref'', jid (a_q2 a)), (''traceparent'', js (a_trace a)),
      (''date_started'', jtime (a_started a)), (''date_completed'', jtime (a_completed a))]"

definition hook_kwargs :: "attempt_row \<Rightarrow> task_row \<Rightarrow> dict \<Rightarrow> string \<Rightarrow> db \<Rightarrow> dict" where
  "hook_kwargs a t configured outcome d =
     (if t_hook_context t
      then dict_set ''context'' (PDict (hook_context a t outcome d)) configured
      else configured)"

text \<open>\<^verbatim>\<open>HookDispatcher(task, attempt).dispatch(success)\<close>.\<close>

definition dispatch_hooks :: "world \<Rightarrow> task_row \<Rightarrow> attempt_row \<Rightarrow> bool \<Rightarrow> db \<Rightarrow> db" where
  "dispatch_hooks w t a s d =
     (case given (if s then t_success_hook t else t_failure_hook t) of
        None \<Rightarrow> d
      | Some path \<Rightarrow>
          if w_sync_hooks w then d
          else dispatch_task_hook w (t_id t) s path
                 (if s then t_success_args t else t_failure_args t)
                 (hook_kwargs a t (if s then t_success_kwargs t else t_failure_kwargs t)
                    (if s then ''succeeded'' else ''failed'') d) d)"

definition dispatch_workflow_hook ::
  "world \<Rightarrow> time \<Rightarrow> wf_type \<Rightarrow> id \<Rightarrow> wf_hook_type \<Rightarrow> string \<Rightarrow> pyval list \<Rightarrow> dict \<Rightarrow> dict option \<Rightarrow>
   nat \<Rightarrow> db \<Rightarrow> db" where
  "dispatch_workflow_hook w now ty wid h path args kwargs context gen d =
     (let kw = (case context of Some c \<Rightarrow> dict_set ''context'' (PDict c) kwargs | None \<Rightarrow> kwargs) in
      dispatch_hook_once w
        (\<lambda>d. exists_where (\<lambda>r. wh_type r = ty \<and> wh_workflow r = wid \<and> wh_hook r = h \<and>
               wh_generation r = gen) (d_wf_hooks d))
        (\<lambda>q d. d\<lparr>d_wf_hooks := d_wf_hooks d @
           [\<lparr>wh_type = ty, wh_workflow = wid, wh_hook = h, wh_generation = gen, wh_path = path,
             wh_q2 = q, wh_created = now\<rparr>]\<rparr>)
        (hook_msg w None path args kw) d)"

text \<open>\<^verbatim>\<open>announce_resolution\<close>: the signals of a resolved attempt.\<close>

definition announce_resolution :: "attempt_row \<Rightarrow> task_row \<Rightarrow> outcome \<Rightarrow> bool \<Rightarrow> db \<Rightarrow> db" where
  "announce_resolution a t out settled d =
     (let d = emit (AttemptFinished (a_id a) out) d in
      if settled then emit (TaskSettled (t_id t) out) d else d)"

section \<open>At most once\<close>

lemma dispatch_hook_once_cases:
  "dispatch_hook_once w cl rc m d = d \<or>
   (\<not> cl d \<and> (\<exists>q. w_enqueue w (d_queue d) m = Some q \<and>
      dispatch_hook_once w cl rc m d = rc q (d\<lparr>d_queue := d_queue d @ [(q, m)]\<rparr>)))"
  by (cases "q2_async_task w m d") (auto simp: dispatch_hook_once_def dest: q2_async_task_Inr)

lemma hook_msg_name [simp]: "m_task_name (hook_msg w n p as kw) = n"
  by (simp add: hook_msg_def split: prod.splits)

lemma dispatch_task_hook_cases:
  "dispatch_task_hook w t s p as kw d = d \<or>
   (\<not> exists_where (\<lambda>h. hd_task h = t \<and> hd_success h = s) (d_hooks d) \<and>
    (\<exists>q m. w_enqueue w (d_queue d) m = Some q \<and>
      m_task_name m = Some (''hook:'' @ hook_type_name s @ '':'' @ show_nat t) \<and>
      dispatch_task_hook w t s p as kw d = d\<lparr>d_queue := d_queue d @ [(q, m)],
        d_hooks := d_hooks d @ [\<lparr>hd_task = t, hd_success = s, hd_path = p, hd_q2 = q\<rparr>]\<rparr>))"
  (is "?L \<or> ?R")
proof -
  define m where "m = hook_msg w (Some (''hook:'' @ hook_type_name s @ '':'' @ show_nat t)) p as kw"
  have n: "m_task_name m = Some (''hook:'' @ hook_type_name s @ '':'' @ show_nat t)"
    by (simp add: m_def)
  have eq: "dispatch_task_hook w t s p as kw d = dispatch_hook_once w
      (\<lambda>d. exists_where (\<lambda>h. hd_task h = t \<and> hd_success h = s) (d_hooks d))
      (\<lambda>q d. d\<lparr>d_hooks := d_hooks d @ [\<lparr>hd_task = t, hd_success = s, hd_path = p, hd_q2 = q\<rparr>]\<rparr>) m d"
    by (simp only: dispatch_task_hook_def m_def)
  show ?thesis
  proof (cases "w_enqueue w (d_queue d) m")
    case None
    then show ?thesis by (simp add: eq dispatch_hook_once_def q2_async_task_def)
  next
    case (Some q)
    then have "dispatch_task_hook w t s p as kw d = d \<or> (\<not> exists_where (\<lambda>h. hd_task h = t \<and> hd_success h = s) (d_hooks d) \<and> dispatch_task_hook w t s p as kw d = d\<lparr>d_queue := d_queue d @ [(q, m)], 
        d_hooks := d_hooks d @ [\<lparr>hd_task = t, hd_success = s, hd_path = p, hd_q2 = q\<rparr>]\<rparr>)"
      by (simp add: eq dispatch_hook_once_def q2_async_task_def)
    with Some n show ?thesis by blast
  qed
qed

lemma dispatch_workflow_hook_cases:
  "dispatch_workflow_hook w now ty wid h p as kw c g d = d \<or>
   (\<not> exists_where (\<lambda>r. wh_type r = ty \<and> wh_workflow r = wid \<and> wh_hook r = h \<and> wh_generation r = g)
        (d_wf_hooks d) \<and>
    (\<exists>q m. w_enqueue w (d_queue d) m = Some q \<and> m_task_name m = None \<and>
      dispatch_workflow_hook w now ty wid h p as kw c g d = d\<lparr>d_queue := d_queue d @ [(q, m)],
        d_wf_hooks := d_wf_hooks d @ [\<lparr>wh_type = ty, wh_workflow = wid, wh_hook = h,
          wh_generation = g, wh_path = p, wh_q2 = q, wh_created = now\<rparr>]\<rparr>))"
proof -
  define m where "m = hook_msg w None p as
    (case c of Some c \<Rightarrow> dict_set ''context'' (PDict c) kw | None \<Rightarrow> kw)"
  have n: "m_task_name m = None" by (simp add: m_def)
  have eq: "dispatch_workflow_hook w now ty wid h p as kw c g d = dispatch_hook_once w
      (\<lambda>d. exists_where (\<lambda>r. wh_type r = ty \<and> wh_workflow r = wid \<and> wh_hook r = h \<and>
        wh_generation r = g) (d_wf_hooks d))
      (\<lambda>q d. d\<lparr>d_wf_hooks := d_wf_hooks d @ [\<lparr>wh_type = ty, wh_workflow = wid, wh_hook = h,
        wh_generation = g, wh_path = p, wh_q2 = q, wh_created = now\<rparr>]\<rparr>) m d"
    by (simp only: dispatch_workflow_hook_def m_def Let_def)
  show ?thesis
  proof (cases "w_enqueue w (d_queue d) m")
    case None
    then show ?thesis by (simp add: eq dispatch_hook_once_def q2_async_task_def)
  next
    case (Some q)
    then have "dispatch_workflow_hook w now ty wid h p as kw c g d = d \<or> (\<not> exists_where (\<lambda>r. wh_type r = ty \<and> wh_workflow r = wid \<and> wh_hook r = h \<and>
        wh_generation r = g) (d_wf_hooks d) \<and> dispatch_workflow_hook w now ty wid h p as kw c g d = d\<lparr>d_queue := d_queue d @ [(q, m)], 
        d_wf_hooks := d_wf_hooks d @ [\<lparr>wh_type = ty, wh_workflow = wid, wh_hook = h,
          wh_generation = g, wh_path = p, wh_q2 = q, wh_created = now\<rparr>]\<rparr>)"
      by (simp add: eq dispatch_hook_once_def q2_async_task_def)
    with Some n show ?thesis by blast
  qed
qed

lemma dispatch_workflow_hook_frame [simp]:
  "d_tasks (dispatch_workflow_hook w now ty wid h p as kw c g d) = d_tasks d"
  "d_attempts (dispatch_workflow_hook w now ty wid h p as kw c g d) = d_attempts d"
  "d_graphs (dispatch_workflow_hook w now ty wid h p as kw c g d) = d_graphs d"
  "d_nodes (dispatch_workflow_hook w now ty wid h p as kw c g d) = d_nodes d"
  "d_settlements (dispatch_workflow_hook w now ty wid h p as kw c g d) = d_settlements d"
  "d_chains (dispatch_workflow_hook w now ty wid h p as kw c g d) = d_chains d"
  "d_steps (dispatch_workflow_hook w now ty wid h p as kw c g d) = d_steps d"
  "d_pars (dispatch_workflow_hook w now ty wid h p as kw c g d) = d_pars d"
  "d_events (dispatch_workflow_hook w now ty wid h p as kw c g d) = d_events d"
  "d_next (dispatch_workflow_hook w now ty wid h p as kw c g d) = d_next d"
  "d_hooks (dispatch_workflow_hook w now ty wid h p as kw c g d) = d_hooks d"
  using dispatch_workflow_hook_cases [of w now ty wid h p as kw c g d] by auto

lemma dispatch_task_hook_frame [simp]:
  "d_tasks (dispatch_task_hook w t s p as kw d) = d_tasks d"
  "d_attempts (dispatch_task_hook w t s p as kw d) = d_attempts d"
  "d_graphs (dispatch_task_hook w t s p as kw d) = d_graphs d"
  "d_nodes (dispatch_task_hook w t s p as kw d) = d_nodes d"
  "d_settlements (dispatch_task_hook w t s p as kw d) = d_settlements d"
  "d_chains (dispatch_task_hook w t s p as kw d) = d_chains d"
  "d_steps (dispatch_task_hook w t s p as kw d) = d_steps d"
  "d_pars (dispatch_task_hook w t s p as kw d) = d_pars d"
  "d_events (dispatch_task_hook w t s p as kw d) = d_events d"
  "d_next (dispatch_task_hook w t s p as kw d) = d_next d"
  "d_wf_hooks (dispatch_task_hook w t s p as kw d) = d_wf_hooks d"
  using dispatch_task_hook_cases [of w t s p as kw d] by auto

lemma dispatch_hooks_frame [simp]:
  "d_tasks (dispatch_hooks w t a s d) = d_tasks d"
  "d_attempts (dispatch_hooks w t a s d) = d_attempts d"
  "d_graphs (dispatch_hooks w t a s d) = d_graphs d"
  "d_nodes (dispatch_hooks w t a s d) = d_nodes d"
  "d_settlements (dispatch_hooks w t a s d) = d_settlements d"
  "d_chains (dispatch_hooks w t a s d) = d_chains d"
  "d_steps (dispatch_hooks w t a s d) = d_steps d"
  "d_pars (dispatch_hooks w t a s d) = d_pars d"
  "d_events (dispatch_hooks w t a s d) = d_events d"
  "d_next (dispatch_hooks w t a s d) = d_next d"
  by (simp_all add: dispatch_hooks_def split: option.splits)

text \<open>
  One offer of a hook as a contender of a race: it fires when this offer queued the hook. The
  other operations of the race are offers of any task's hooks.
\<close>

type_synonym offer = "string \<times> pyval list \<times> dict"

definition offer_task_hook :: "world \<Rightarrow> id \<Rightarrow> bool \<Rightarrow> offer \<Rightarrow> db \<Rightarrow> db option" where
  "offer_task_hook w t s ofr d =
     (case ofr of (p, as, kw) \<Rightarrow>
        let d' = dispatch_task_hook w t s p as kw d in
        if length (d_hooks d') = length (d_hooks d) then None else Some d')"

definition other_offer :: "world \<Rightarrow> id \<times> bool \<times> offer \<Rightarrow> db \<Rightarrow> db" where
  "other_offer w x d = (case x of (t, s, p, as, kw) \<Rightarrow> dispatch_task_hook w t s p as kw d)"

interpretation task_hook: cas_once "offer_task_hook w t s" "other_offer w"
  "\<lambda>d. exists_where (\<lambda>h. hd_task h = t \<and> hd_success h = s) (d_hooks d)" for w t s
proof (unfold_locales, goal_cases)
  case (1 d e)
  then show ?case
    by (auto simp: offer_task_hook_def dispatch_task_hook_def dispatch_hook_once_def Let_def
        split: prod.splits)
next
  case (2 e d d')
  obtain p as kw where e: "e = (p, as, kw)" by (cases e) auto
  show ?case
    using dispatch_task_hook_cases [of w t s p as kw d] 2
    by (auto simp: offer_task_hook_def e Let_def exists_where_iff split: if_splits)
next
  case (3 d x)
  obtain t' s' p as kw where x: "x = (t', s', p, as, kw)" by (cases x) auto
  show ?case
    using dispatch_task_hook_cases [of w t' s' p as kw d] 3
    by (auto simp: other_offer_def x exists_where_iff)
qed

lemma task_hook_once_parts:
  "length (snd (race (offer_task_hook w t s) (other_offer w) es d)) \<le> 1"
  "offer_task_hook w t s e d = Some d' \<Longrightarrow>
   snd (race (offer_task_hook w t s) (other_offer w) (Inl e # es) d) = [e]"
  by (rule task_hook.race_at_most_one) (rule task_hook.race_first_wins)



end
