(* ===== verification/Qraft_Topology.thy ===== *)
theory Qraft_Topology
  imports Qraft_Schema
begin

text \<open>
  The plan of a graph before any row exists (\<^verbatim>\<open>qraft/graphs.py\<close>, the
  builder \<^verbatim>\<open>Graph\<close>): node declarations, topology validation with the cycle
  search, the depths, and the budgets. \<open>edges\<close> is the dict from a key to its
  \<^verbatim>\<open>after\<close> list. The recursion of \<open>compute_depths\<close> carries fuel;
  \<open>compute_depths_total\<close> proves the number of nodes is always enough on a validated plan.
\<close>

section \<open>Declaring nodes\<close>

record node_spec =
  ns_key :: string
  ns_func :: string
  ns_args :: "pyval list"
  ns_kwargs :: dict
  ns_after :: "string list"
  ns_recovery :: string
  ns_gate :: bool
  ns_options :: dict

definition node_option_keys :: "string list" where
  "node_option_keys =
     [''max_attempts'', ''base_delay'', ''backoff_strategy'', ''jitter'', ''jitter_max'',
      ''retry_exceptions'', ''skip_exceptions'', ''rate_limit_exceptions'',
      ''rate_limit_max_delay'', ''cluster'', ''priority'', ''stall_after'', ''success_hook'',
      ''success_args'', ''success_kwargs'', ''failure_hook'', ''failure_args'',
      ''failure_kwargs'', ''hook_context'']"

text \<open>The keyword names Django-Q2 takes as task options, refused as member keywords.\<close>

definition workflow_member_rejected_keys :: "string list" where
  "workflow_member_rejected_keys =
     [''hook'', ''group'', ''save'', ''sync'', ''cached'', ''ack_failure'', ''iter_count'',
      ''iter_cached'', ''chain'', ''broker'', ''cluster'', ''timeout'', ''q_options'', ''task_name'']"

definition reject_workflow_member_opt_keys :: "dict \<Rightarrow> unit res" where
  "reject_workflow_member_opt_keys kwargs =
     guard (\<not> list_ex (\<lambda>kv. fst kv \<in> set workflow_member_rejected_keys) kwargs)
       (ValueError ''workflow member keyword arguments collide with django_q option names'')"

definition add_node :: "node_spec \<Rightarrow> node_spec list \<Rightarrow> node_spec list res" where
  "add_node n nodes =
     rbind (guard (ns_recovery n \<noteq> []) (GraphError ''node must declare recovery'')) (\<lambda>_.
     rbind (reject_workflow_member_opt_keys (ns_kwargs n)) (\<lambda>_.
     rbind (guard (list_all (\<lambda>kv. fst kv \<in> set node_option_keys) (ns_options n))
              (GraphError ''node has unrecognised qraft_options'')) (\<lambda>_.
     Inr (nodes @ [n]))))"

section \<open>Validation\<close>

type_synonym edges = "(string \<times> string list) list"

definition edges_of :: "node_spec list \<Rightarrow> edges" where
  "edges_of nodes = map (\<lambda>n. (ns_key n, ns_after n)) nodes"

definition deps_of :: "edges \<Rightarrow> string \<Rightarrow> string list" where
  "deps_of e k = (case map_of e k of Some a \<Rightarrow> a | None \<Rightarrow> [])"

text \<open>
  The depth-first search of \<^verbatim>\<open>_has_cycle\<close>: \<open>path\<close> is the set
  \<^verbatim>\<open>visiting\<close>, \<open>visited\<close> the finished keys; the result says whether a cycle
  was met and what is visited then.
\<close>

function dfs :: "edges \<Rightarrow> string list \<Rightarrow> string list \<Rightarrow> string list \<Rightarrow> bool \<times> string list" where
  "dfs e path visited [] = (False, visited)"
| "dfs e path visited (k # ks) =
     (if k \<in> set path then (True, visited)
      else if k \<in> set visited then dfs e path visited ks
      else (case dfs e (k # path) visited (deps_of e k) of
          (True, v) \<Rightarrow> (True, v)
        | (False, v) \<Rightarrow> dfs e path (k # v) ks))"
  by pat_completeness auto

termination
proof (relation "measures [\<lambda>(e, path, visited, ks). card (fst ` set e - set path),
    \<lambda>(e, path, visited, ks). length ks]", goal_cases)
  case (3 e path visited k ks)
  show ?case
  proof (cases "k \<in> fst ` set e")
    case True
    with 3 have "fst ` set e - set (k # path) \<subset> fst ` set e - set path" by auto
    then show ?thesis by (simp add: psubset_card_mono)
  next
    case False
    then have "map_of e k = None" by (simp add: map_of_eq_None_iff)
    then have "deps_of e k = []" by (simp add: deps_of_def)
    moreover have "fst ` set e - set (k # path) = fst ` set e - set path" using False by auto
    ultimately show ?thesis by simp
  qed
qed auto

definition has_cycle :: "edges \<Rightarrow> bool" where
  "has_cycle e = fst (dfs e [] [] (map fst e))"

fun check_deps :: "string list \<Rightarrow> node_spec list \<Rightarrow> unit res" where
  "check_deps keys [] = Inr ()"
| "check_deps keys (n # ns) =
     (if ns_key n \<in> set (ns_after n) then Inl (GraphError ''node cannot depend on itself'')
      else if \<not> set (ns_after n) \<subseteq> set keys then Inl (GraphError ''node depends on unknown key(s)'')
      else check_deps keys ns)"

definition validate_topology :: "node_spec list \<Rightarrow> unit res" where
  "validate_topology nodes =
     rbind (check_deps (map ns_key nodes) nodes) (\<lambda>_.
     guard (\<not> has_cycle (edges_of nodes)) (GraphError ''graph topology contains a cycle''))"

section \<open>Depths\<close>

type_synonym depth_memo = "(string \<times> nat) list"

text \<open>
  \<^verbatim>\<open>depth(key)\<close> for each key of a list, threading the memo; None when the fuel
  runs out or a key is unknown.
\<close>

fun depths_of :: "nat \<Rightarrow> edges \<Rightarrow> string list \<Rightarrow> depth_memo \<Rightarrow> (nat list \<times> depth_memo) option" where
  "depths_of n e [] m = Some ([], m)"
| "depths_of 0 e (k # ks) m = None"
| "depths_of (Suc n) e (k # ks) m =
     (case map_of m k of
        Some v \<Rightarrow> map_option (\<lambda>(vs, m). (v # vs, m)) (depths_of (Suc n) e ks m)
      | None \<Rightarrow>
          (case map_of e k of
             None \<Rightarrow> None
           | Some after \<Rightarrow>
               (case depths_of n e after m of
                  None \<Rightarrow> None
                | Some (ds, m') \<Rightarrow>
                    (let v = (if after = [] then 0 else 1 + Max (set ds)) in
                     map_option (\<lambda>(vs, m). (v # vs, m)) (depths_of (Suc n) e ks ((k, v) # m'))))))"

definition compute_depths :: "edges \<Rightarrow> depth_memo option" where
  "compute_depths e = map_option snd (depths_of (length e) e (map fst e) [])"

section \<open>Budgets\<close>

fun check_budgets :: "dict \<Rightarrow> dict res" where
  "check_budgets [] = Inr []"
| "check_budgets ((k, v) # b) =
     (case v of
        PInt i \<Rightarrow>
          if i < 0 then Inl (GraphError ''budget must be a non-negative whole number'')
          else rbind (check_budgets b) (\<lambda>r. Inr ((k, v) # r))
      | _ \<Rightarrow> Inl (GraphError ''budget must be a non-negative whole number''))"

definition validated_budgets :: "dict option \<Rightarrow> dict option res" where
  "validated_budgets b =
     (case b of
        None \<Rightarrow> Inr None
      | Some d \<Rightarrow> if d = [] then Inr None else rbind (check_budgets d) (\<lambda>r. Inr (Some r)))"

section \<open>The cycle search is correct\<close>

definition depends :: "edges \<Rightarrow> (string \<times> string) set" where
  "depends e = {(k, d). d \<in> set (deps_of e k)}"

text \<open>A set of keys that is closed under dependencies and holds no key on a cycle.\<close>

definition clean :: "edges \<Rightarrow> string set \<Rightarrow> bool" where
  "clean e V \<longleftrightarrow> (\<forall>v \<in> V. set (deps_of e v) \<subseteq> V \<and> (v, v) \<notin> (depends e)\<^sup>+)"

lemma clean_trancl: "(x, y) \<in> (depends e)\<^sup>+ \<Longrightarrow> clean e V \<Longrightarrow> x \<in> V \<Longrightarrow> y \<in> V"
  by (induction rule: trancl_induct) (auto simp: clean_def depends_def)

lemma clean_insert:
  assumes "clean e V" "set (deps_of e k) \<subseteq> V" "k \<notin> V"
  shows "clean e (insert k V)"
proof -
  have "(k, k) \<notin> (depends e)\<^sup>+"
  proof
    assume "(k, k) \<in> (depends e)\<^sup>+"
    then obtain z where z: "(k, z) \<in> depends e" "z = k \<or> (z, k) \<in> (depends e)\<^sup>+"
      using tranclD [of k k "depends e"] by (auto simp: rtrancl_eq_or_trancl)
    then have "z \<in> V" using assms(2) by (auto simp: depends_def)
    with z(2) assms(1,3) show False using clean_trancl by blast
  qed
  with assms show ?thesis by (auto simp: clean_def)
qed

lemma dfs_False:
  "dfs e path visited ks = (False, v) \<Longrightarrow> clean e (set visited) \<Longrightarrow> set visited \<inter> set path = {} \<Longrightarrow>
   clean e (set v) \<and> set visited \<subseteq> set v \<and> set ks \<subseteq> set v \<and> set v \<inter> set path = {}"
proof (induction e path visited ks arbitrary: v rule: dfs.induct)
  case (2 e path visited k ks)
  show ?case
  proof (cases "k \<in> set visited")
    case True
    with 2 show ?thesis by (auto split: if_splits)
  next
    case False
    with 2(4) obtain v1 where d1: "dfs e (k # path) visited (deps_of e k) = (False, v1)"
      and d2: "dfs e path (k # v1) ks = (False, v)" and kp: "k \<notin> set path"
      by (auto split: if_splits prod.splits bool.splits)
    from 2(2) [OF kp False d1] 2(5,6) False have ih1: "clean e (set v1)" "set visited \<subseteq> set v1"
      "set (deps_of e k) \<subseteq> set v1" "set v1 \<inter> set (k # path) = {}"
      by auto
    then have "clean e (set (k # v1))" by (simp add: clean_insert)
    from 2(3) [OF kp False d1 [symmetric] refl d2 this] ih1 kp show ?thesis by auto
  qed
qed simp

lemma dfs_True:
  "dfs e path visited ks = (True, v) \<Longrightarrow>
   (\<forall>p \<in> set path. \<forall>k \<in> set ks. (p, k) \<in> (depends e)\<^sup>+) \<Longrightarrow> \<exists>x. (x, x) \<in> (depends e)\<^sup>+"
proof (induction e path visited ks arbitrary: v rule: dfs.induct)
  case (2 e path visited k ks)
  show ?case
  proof (cases "k \<in> set path")
    case True
    with 2(5) show ?thesis by auto
  next
    case kp: False
    show ?thesis
    proof (cases "k \<in> set visited")
      case True
      with 2 kp show ?thesis by auto
    next
      case False
      obtain b v1 where d1: "dfs e (k # path) visited (deps_of e k) = (b, v1)" by force
      show ?thesis
      proof (cases b)
        case True
        have "(p, d) \<in> (depends e)\<^sup>+" if "p \<in> set (k # path)" "d \<in> set (deps_of e k)" for p d
        proof -
          have kd: "(k, d) \<in> depends e" using that by (simp add: depends_def)
          show ?thesis
            using that(1) 2(5) kd by (auto intro: trancl_into_trancl)
        qed
        moreover have "dfs e (k # path) visited (deps_of e k) = (True, v1)" using d1 True by simp
        ultimately show ?thesis using 2(2) [OF kp False, of v1] by blast
      next
        case b: False
        with 2(4) kp False d1 have "dfs e path (k # v1) ks = (True, v)" by simp
        with 2(3) [OF kp False d1 [symmetric]] b 2(5) show ?thesis by auto
      qed
    qed
  qed
qed simp

lemma has_cycle_correct: "has_cycle e \<longleftrightarrow> (\<exists>k. (k, k) \<in> (depends e)\<^sup>+)"
proof
  assume "has_cycle e"
  then obtain v where "dfs e [] [] (map fst e) = (True, v)"
    unfolding has_cycle_def by (metis prod.collapse)
  from dfs_True [OF this] show "\<exists>k. (k, k) \<in> (depends e)\<^sup>+" by simp
next
  assume "\<exists>k. (k, k) \<in> (depends e)\<^sup>+"
  then obtain k where k: "(k, k) \<in> (depends e)\<^sup>+" by auto
  show "has_cycle e"
  proof (rule ccontr)
    assume "\<not> has_cycle e"
    then obtain v where "dfs e [] [] (map fst e) = (False, v)"
      unfolding has_cycle_def by (metis prod.collapse)
    from dfs_False [OF this] have clean: "clean e (set v)" and keys: "fst ` set e \<subseteq> set v"
      by (auto simp: clean_def)
    from k obtain z where "(k, z) \<in> depends e" by (auto dest: tranclD)
    then have "map_of e k \<noteq> None" by (cases "map_of e k") (simp_all add: depends_def deps_of_def)
    then have "k \<in> fst ` set e" by (simp add: map_of_eq_None_iff)
    with keys clean k show False by (auto simp: clean_def)
  qed
qed

text \<open>
  C15: the cycle search is exact. A plan is refused for a cycle if and only if some node depends
  on itself through one or more dependencies; in particular the search always terminates.
\<close>

theorem has_cycle_iff: "has_cycle e \<longleftrightarrow> (\<exists>k. (k, k) \<in> (depends e)\<^sup>+)"
  by (rule has_cycle_correct)

section \<open>Depths are defined and increase along the edges\<close>

definition memo_ok :: "edges \<Rightarrow> depth_memo \<Rightarrow> bool" where
  "memo_ok e m \<longleftrightarrow> (\<forall>k v. map_of m k = Some v \<longrightarrow> (\<exists>after. map_of e k = Some after \<and>
     (\<forall>d \<in> set after. map_of m d \<noteq> None) \<and>
     v = (if after = [] then 0 else 1 + Max ((\<lambda>d. the (map_of m d)) ` set after))))"

definition extends_memo :: "depth_memo \<Rightarrow> depth_memo \<Rightarrow> bool" where
  "extends_memo m m' \<longleftrightarrow> (\<forall>k v. map_of m k = Some v \<longrightarrow> map_of m' k = Some v)"

lemma extends_refl [simp]: "extends_memo m m"
  by (simp add: extends_memo_def)

lemma extends_trans: "extends_memo a b \<Longrightarrow> extends_memo b c \<Longrightarrow> extends_memo a c"
  by (auto simp: extends_memo_def)

definition settled_in :: "depth_memo \<Rightarrow> edges \<Rightarrow> string \<Rightarrow> bool" where
  "settled_in m e k \<longleftrightarrow> (\<exists>after. map_of e k = Some after \<and> (\<forall>d \<in> set after. map_of m d \<noteq> None))"

lemma memo_ok_add:
  assumes ok: "memo_ok e m" and k: "map_of m k = None" "map_of e k = Some after"
    and deps: "\<forall>d \<in> set after. map_of m d \<noteq> None"
    and v: "v = (if after = [] then 0 else 1 + Max ((\<lambda>d. the (map_of m d)) ` set after))"
  shows "memo_ok e ((k, v) # m)"
  unfolding memo_ok_def
proof (intro allI impI)
  fix x y
  assume get: "map_of ((k, v) # m) x = Some y"
  have keep: "(\<lambda>d. the (map_of ((k, v) # m) d)) ` set as = (\<lambda>d. the (map_of m d)) ` set as"
    if "\<forall>d \<in> set as. map_of m d \<noteq> None" for as
    using that k(1) by (intro image_cong) auto
  show "\<exists>after. map_of e x = Some after \<and> (\<forall>d\<in>set after. map_of ((k, v) # m) d \<noteq> None) \<and>
      y = (if after = [] then 0 else 1 + Max ((\<lambda>d. the (map_of ((k, v) # m) d)) ` set after))"
  proof (cases "x = k")
    case True
    then show ?thesis
      using get k deps v keep [OF deps] by (intro exI [of _ after]) auto
  next
    case False
    with get have "map_of m x = Some y" by simp
    with ok obtain as where as: "map_of e x = Some as" "\<forall>d \<in> set as. map_of m d \<noteq> None"
      "y = (if as = [] then 0 else 1 + Max ((\<lambda>d. the (map_of m d)) ` set as))"
      unfolding memo_ok_def by blast
    then show ?thesis using keep [OF as(2)] by (intro exI [of _ as]) auto
  qed
qed

text \<open>The keys a node depends on, itself included, and the fuel they cost.\<close>

definition below :: "edges \<Rightarrow> string \<Rightarrow> string set" where
  "below e k = {x \<in> fst ` set e. (k, x) \<in> (depends e)\<^sup>*}"

lemma below_dep:
  assumes "d \<in> set (deps_of e k)" "\<nexists>x. (x, x) \<in> (depends e)\<^sup>+" "k \<in> fst ` set e"
  shows "below e d \<subset> below e k"
proof
  have kd: "(k, d) \<in> depends e" using assms(1) by (simp add: depends_def)
  then show "below e d \<subseteq> below e k" by (auto simp: below_def intro: converse_rtrancl_into_rtrancl)
  have "k \<in> below e k" using assms(3) by (simp add: below_def)
  moreover have "k \<notin> below e d"
  proof
    assume "k \<in> below e d"
    with kd have "(k, k) \<in> (depends e)\<^sup>+" by (auto simp: below_def intro: rtrancl_into_trancl2)
    with assms(2) show False by blast
  qed
  ultimately show "below e d \<noteq> below e k" by blast
qed

lemma card_below: "card (below e k) \<le> length e"
proof -
  have "card (below e k) \<le> card (fst ` set e)"
    by (rule card_mono) (auto simp: below_def)
  also have "\<dots> \<le> length e" using card_length [of "map fst e"] by simp
  finally show ?thesis .
qed

lemma depths_of_total:
  assumes "\<nexists>x. (x, x) \<in> (depends e)\<^sup>+" "\<forall>k as. map_of e k = Some as \<longrightarrow> set as \<subseteq> fst ` set e"
    and "set ks \<subseteq> fst ` set e" "\<forall>k \<in> set ks. card (below e k) \<le> n" "memo_ok e m"
  shows "\<exists>vs m'. depths_of n e ks m = Some (vs, m') \<and> memo_ok e m' \<and> extends_memo m m' \<and>
    map (map_of m') ks = map Some vs \<and>
    (\<forall>x. map_of m x = None \<and> map_of m' x \<noteq> None \<longrightarrow> (\<exists>k \<in> set ks. (k, x) \<in> (depends e)\<^sup>*))"
  using assms
proof (induction n e ks m rule: depths_of.induct)
  case (2 e k ks m)
  then have "k \<in> below e k" by (simp add: below_def)
  moreover have "finite (below e k)" by (simp add: below_def)
  ultimately have "0 < card (below e k)" by (auto simp: card_gt_0_iff)
  with 2 show ?case by simp
next
  case (3 n e k ks m)
  note acyclic = "3.prems"(1) and closed = "3.prems"(2)
  show ?case
  proof (cases "map_of m k")
    case (Some v)
    with 3 obtain vs m' where ih: "depths_of (Suc n) e ks m = Some (vs, m')" "memo_ok e m'"
      "extends_memo m m'" "map (map_of m') ks = map Some vs"
      "\<forall>x. map_of m x = None \<and> map_of m' x \<noteq> None \<longrightarrow> (\<exists>k \<in> set ks. (k, x) \<in> (depends e)\<^sup>*)"
      by auto
    then have "map_of m' k = Some v" using Some by (simp add: extends_memo_def)
    with ih Some show ?thesis by auto
  next
    case None
    have kin: "k \<in> fst ` set e" using 3 by simp
    then obtain as where as: "map_of e k = Some as" by (auto simp: map_of_eq_None_iff dest!: weak_map_of_SomeI)
    then have deps: "deps_of e k = as" by (simp add: deps_of_def)
    have sub: "set as \<subseteq> fst ` set e" by (rule closed [rule_format, OF as])
    have fuel: "\<forall>d \<in> set as. card (below e d) \<le> n"
    proof
      fix d assume "d \<in> set as"
      then have "below e d \<subset> below e k" using below_dep [OF _ acyclic kin] deps by simp
      moreover have "finite (below e k)" by (simp add: below_def)
      ultimately have "card (below e d) < card (below e k)" by (rule psubset_card_mono [rotated])
      with 3 show "card (below e d) \<le> n" by simp
    qed
    from "3.IH"(1) [OF None as acyclic closed sub fuel] 3 obtain ds m1 where ih1: "depths_of n e as m = Some (ds, m1)"
      "memo_ok e m1" "extends_memo m m1" "map (map_of m1) as = map Some ds"
      "\<forall>x. map_of m x = None \<and> map_of m1 x \<noteq> None \<longrightarrow> (\<exists>k \<in> set as. (k, x) \<in> (depends e)\<^sup>*)"
      by auto
    let ?v = "if as = [] then 0 else 1 + Max (set ds)"
    have new: "map_of m1 k = None"
    proof (rule ccontr)
      assume "map_of m1 k \<noteq> None"
      with ih1(5) None obtain d where "d \<in> set as" "(d, k) \<in> (depends e)\<^sup>*" by auto
      then have "(k, k) \<in> (depends e)\<^sup>+"
        using deps by (auto simp: depends_def intro: rtrancl_into_trancl2)
      with acyclic show False by blast
    qed
    have dsm: "set ds = (\<lambda>d. the (map_of m1 d)) ` set as" "\<forall>d \<in> set as. map_of m1 d \<noteq> None"
    proof -
      have "map (\<lambda>d. the (map_of m1 d)) as = ds"
        using arg_cong [OF ih1(4), of "map the"] by (simp add: comp_def)
      then show "set ds = (\<lambda>d. the (map_of m1 d)) ` set as" by auto
      show "\<forall>d \<in> set as. map_of m1 d \<noteq> None"
        using arg_cong [OF ih1(4), of set] by (metis imageE imageI list.set_map option.distinct(1))
    qed
    have ok: "memo_ok e ((k, ?v) # m1)"
      by (rule memo_ok_add [OF ih1(2) new as dsm(2)]) (simp add: dsm(1))
    have prem: "set ks \<subseteq> fst ` set e" "\<forall>k \<in> set ks. card (below e k) \<le> Suc n" using 3 by auto
    from "3.IH"(2) [OF None as ih1(1) refl refl acyclic closed prem ok] obtain vs m' where
      ih2: "depths_of (Suc n) e ks ((k, ?v) # m1) = Some (vs, m')" "memo_ok e m'"
      "extends_memo ((k, ?v) # m1) m'" "map (map_of m') ks = map Some vs"
      "\<forall>x. map_of ((k, ?v) # m1) x = None \<and> map_of m' x \<noteq> None \<longrightarrow> (\<exists>k \<in> set ks. (k, x) \<in> (depends e)\<^sup>*)"
      by auto
    have "extends_memo m1 ((k, v) # m1)" for v using new by (auto simp: extends_memo_def)
    then have "extends_memo m1 m'" using ih2(3) by (rule extends_trans)
    with ih1(3) have "extends_memo m m'" by (rule extends_trans)
    moreover have "map_of m' k = Some ?v" using ih2(3) by (auto simp: extends_memo_def)
    moreover have "\<exists>y \<in> set (k # ks). (y, x) \<in> (depends e)\<^sup>*"
      if "map_of m x = None" "map_of m' x \<noteq> None" for x
    proof (cases "map_of m1 x = None")
      case True
      with ih2(5) that show ?thesis by (cases "x = k") auto
    next
      case False
      with ih1(5) that obtain d where d: "d \<in> set as" "(d, x) \<in> (depends e)\<^sup>*" by auto
      then have "(k, d) \<in> depends e" using deps by (simp add: depends_def)
      with d(2) have "(k, x) \<in> (depends e)\<^sup>*" by (rule converse_rtrancl_into_rtrancl [rotated])
      then show ?thesis by auto
    qed
    ultimately show ?thesis using ih1(1) ih2(1,2,4) None as by (simp add: Let_def)
  qed
qed auto

lemma validated_edges:
  assumes "validate_topology nodes = Inr ()"
  shows "\<nexists>x. (x, x) \<in> (depends (edges_of nodes))\<^sup>+"
    and "\<forall>k as. map_of (edges_of nodes) k = Some as \<longrightarrow> set as \<subseteq> fst ` set (edges_of nodes)"
proof -
  from assms have chk: "check_deps (map ns_key nodes) nodes = Inr ()"
    and "\<not> has_cycle (edges_of nodes)"
    by (auto simp: validate_topology_def rbind_Inr)
  then show "\<nexists>x. (x, x) \<in> (depends (edges_of nodes))\<^sup>+" by (simp add: has_cycle_correct)
  have "check_deps keys ns = Inr () \<Longrightarrow> n \<in> set ns \<Longrightarrow> set (ns_after n) \<subseteq> set keys" for keys ns n
    by (induction keys ns rule: check_deps.induct) (auto split: if_splits)
  from this [OF chk]
  show "\<forall>k as. map_of (edges_of nodes) k = Some as \<longrightarrow> set as \<subseteq> fst ` set (edges_of nodes)"
    by (force simp: edges_of_def dest!: map_of_SomeD)
qed

lemma compute_depths_correct:
  assumes "validate_topology nodes = Inr ()"
  shows "\<exists>m. compute_depths (edges_of nodes) = Some m \<and>
    (\<forall>n \<in> set nodes. \<exists>v. map_of m (ns_key n) = Some v) \<and>
    (\<forall>k v. map_of m k = Some v \<longrightarrow>
      v = (if deps_of (edges_of nodes) k = [] then 0
           else 1 + Max ((\<lambda>d. the (map_of m d)) ` set (deps_of (edges_of nodes) k)))) \<and>
    (\<forall>(k, d) \<in> depends (edges_of nodes). \<exists>v w. map_of m k = Some v \<and> map_of m d = Some w \<and> w < v)"
proof -
  let ?e = "edges_of nodes"
  note val = validated_edges [OF assms]
  have "\<forall>k \<in> set (map fst ?e). card (below ?e k) \<le> length ?e" by (simp add: card_below)
  then obtain vs m where m: "depths_of (length ?e) ?e (map fst ?e) [] = Some (vs, m)" "memo_ok ?e m"
    "map (map_of m) (map fst ?e) = map Some vs"
    using depths_of_total [OF val, of "map fst ?e" "length ?e" "[]"] by (auto simp: memo_ok_def)
  have keys: "\<exists>v. map_of m k = Some v" if "k \<in> fst ` set ?e" for k
  proof -
    have "map_of m k \<in> set (map (map_of m) (map fst ?e))" using that by auto
    then show ?thesis unfolding m(3) by auto
  qed
  have eqn: "v = (if deps_of ?e k = [] then 0 else 1 + Max ((\<lambda>d. the (map_of m d)) ` set (deps_of ?e k)))"
    if "map_of m k = Some v" for k v
    using m(2) that unfolding memo_ok_def deps_of_def by fastforce
  have "\<exists>v w. map_of m k = Some v \<and> map_of m d = Some w \<and> w < v" if "(k, d) \<in> depends ?e" for k d
  proof -
    from that obtain as where as: "map_of ?e k = Some as" "d \<in> set as"
      by (cases "map_of ?e k") (simp_all add: depends_def deps_of_def)
    then have "k \<in> fst ` set ?e" "d \<in> fst ` set ?e"
      using val(2) [rule_format, OF as(1)] map_of_SomeD [OF as(1)] by force+
    then obtain v w where vw: "map_of m k = Some v" "map_of m d = Some w" using keys by blast
    have "w \<le> Max ((\<lambda>d. the (map_of m d)) ` set as)" using as(2) vw(2) by (intro Max_ge) force+
    then have "w < v" using eqn [OF vw(1)] as by (auto simp: deps_of_def)
    with vw show ?thesis by blast
  qed
  moreover have "\<forall>n \<in> set nodes. ns_key n \<in> fst ` set ?e" by (force simp: edges_of_def)
  ultimately show ?thesis using m(1) keys eqn by (auto simp: compute_depths_def)
qed

text \<open>
  C16: on a validated plan every node gets a depth, and it is the longest path from a root: zero
  without dependencies, one more than the deepest dependency otherwise. So every node lies
  strictly deeper than what it depends on, and the order by depth is a topological order.
\<close>

theorem compute_depths_total:
  assumes "validate_topology nodes = Inr ()"
  shows "\<exists>m. compute_depths (edges_of nodes) = Some m \<and>
    (\<forall>n \<in> set nodes. \<exists>v. map_of m (ns_key n) = Some v) \<and>
    (\<forall>k v. map_of m k = Some v \<longrightarrow>
      v = (if deps_of (edges_of nodes) k = [] then 0
           else 1 + Max ((\<lambda>d. the (map_of m d)) ` set (deps_of (edges_of nodes) k)))) \<and>
    (\<forall>(k, d) \<in> depends (edges_of nodes). \<exists>v w. map_of m k = Some v \<and> map_of m d = Some w \<and> w < v)"
  using assms by (rule compute_depths_correct)

definition demo_spec :: "string \<Rightarrow> string list \<Rightarrow> node_spec" where
  "demo_spec k after = \<lparr>ns_key = k, ns_func = ''app.work'', ns_args = [], ns_kwargs = [],
     ns_after = after, ns_recovery = ''manual'', ns_gate = False, ns_options = []\<rparr>"

definition diamond :: "node_spec list" where
  "diamond = [demo_spec ''a'' [], demo_spec ''b'' [''a''], demo_spec ''c'' [''a''],
     demo_spec ''d'' [''b'', ''c'']]"

theorem compute_depths_total_witness:
  "validate_topology diamond = Inr () \<and>
   (\<exists>m. compute_depths (edges_of diamond) = Some m \<and> map_of m ''d'' = Some 2)"
proof -
  have v: "validate_topology diamond = Inr ()" by code_simp
  have "compute_depths (edges_of diamond) =
      Some [(''d'', 2), (''c'', 1), (''b'', 1), (''a'', 0)]" by code_simp
  with v compute_depths_total [OF v] show ?thesis by auto
qed

text \<open>
  Declared budgets are whole and non-negative, and a plan with a fractional, boolean or
  negative budget is refused; an empty declaration means unmetered.
\<close>

theorem budgets_validated:
  "validated_budgets b = Inr (Some c) \<longleftrightarrow>
     b = Some c \<and> c \<noteq> [] \<and> (\<forall>(k, v) \<in> set c. \<exists>i. v = PInt i \<and> 0 \<le> i)"
proof -
  have chk: "check_budgets d = Inr c \<longleftrightarrow> d = c \<and> (\<forall>(k, v) \<in> set c. \<exists>i. v = PInt i \<and> 0 \<le> i)" for d c
  proof (induction d arbitrary: c rule: check_budgets.induct)
    case (2 k v b)
    show ?case
    proof (cases v)
      case (PInt i)
      show ?thesis
      proof (cases "i < 0")
        case False
        with PInt 2 [OF PInt False] show ?thesis by (cases c) (auto simp: rbind_Inr)
      qed (use PInt in auto)
    qed auto
  qed auto
  then show ?thesis
    by (auto simp: validated_budgets_def rbind_Inr split: option.splits)
qed

theorem budgets_validated_witness:
  "validated_budgets (Some [(''tokens'', PInt 500)]) = Inr (Some [(''tokens'', PInt 500)]) \<and>
   validated_budgets (Some [(''tokens'', PFloat 5)]) \<noteq> Inr (Some [(''tokens'', PFloat 5)])"
  using budgets_validated [of "Some [(''tokens'', PInt 500)]" "[(''tokens'', PInt 500)]"]
    budgets_validated [of "Some [(''tokens'', PFloat 5)]" "[(''tokens'', PFloat 5)]"]
  by simp

end
