(* ===== verification/Qraft_Usage.thy ===== *)
theory Qraft_Usage
  imports Qraft_Schema
begin

text \<open>
  Usage accounting (\<^verbatim>\<open>qraft/context.py\<close>, the merge and the sum of usage
  dicts) and its pricing (\<^verbatim>\<open>qraft/pricing.py\<close>). The pricing resolver is the
  parameter \<open>r :: resolver option\<close>; \<open>static_price\<close> is the one the package ships.
\<close>

section \<open>Numbers and money\<close>

definition money_keys :: "string list" where
  "money_keys = [''cost'', ''estimated_cost'']"

fun is_numeric :: "pyval \<Rightarrow> bool" where
  "is_numeric (PInt _) = True"
| "is_numeric (PFloat _) = True"
| "is_numeric (PDec _) = True"
| "is_numeric _ = False"

fun money :: "pyval \<Rightarrow> rat option" where
  "money (PInt i) = Some (of_int i)"
| "money (PFloat r) = Some r"
| "money (PDec r) = Some r"
| "money (PMoney r) = Some r"
| "money _ = None"

definition lookup :: "dict \<Rightarrow> string \<Rightarrow> pyval" where
  "lookup d k = (case dict_get d k of Some v \<Rightarrow> v | None \<Rightarrow> PNone)"

text \<open>\<^verbatim>\<open>existing + value\<close> of two values that are not Decimals.\<close>

fun py_plus :: "pyval \<Rightarrow> pyval \<Rightarrow> pyval res" where
  "py_plus (PInt a) (PInt b) = Inr (PInt (a + b))"
| "py_plus (PInt a) (PFloat b) = Inr (PFloat (of_int a + b))"
| "py_plus (PFloat a) (PInt b) = Inr (PFloat (a + of_int b))"
| "py_plus (PFloat a) (PFloat b) = Inr (PFloat (a + b))"
| "py_plus (PBool a) (PInt b) = Inr (PInt (of_bool a + b))"
| "py_plus (PBool a) (PFloat b) = Inr (PFloat (of_bool a + b))"
| "py_plus _ _ = Inl TypeError"

fun is_dec :: "pyval \<Rightarrow> bool" where
  "is_dec (PDec _) = True"
| "is_dec _ = False"

definition add_usage :: "pyval \<Rightarrow> pyval \<Rightarrow> pyval res" where
  "add_usage existing v =
     (if is_dec existing \<or> is_dec v
      then (case (money existing, money v) of
              (Some a, Some b) \<Rightarrow> Inr (PDec (a + b))
            | _ \<Rightarrow> Inl TypeError)
      else py_plus existing v)"

text \<open>What a JSON column gives back: a Decimal was stored as its string.\<close>

fun stored :: "pyval \<Rightarrow> pyval" where
  "stored (PDec r) = PMoney r"
| "stored v = v"

section \<open>Recording\<close>

definition merge_field :: "string \<Rightarrow> pyval \<Rightarrow> dict \<Rightarrow> dict" where
  "merge_field key v usage =
     (let current = lookup usage key in
      case (key \<in> set money_keys, money v) of
        (True, Some inc) \<Rightarrow>
          dict_set key (PMoney (case money current of Some t \<Rightarrow> t + inc | None \<Rightarrow> inc)) usage
      | _ \<Rightarrow>
          if is_numeric v \<and> is_numeric current
          then (case add_usage current v of Inr s \<Rightarrow> dict_set key s usage | Inl _ \<Rightarrow> usage)
          else dict_set key v usage)"

definition as_list :: "pyval \<Rightarrow> pyval list res" where
  "as_list v =
     (if \<not> truthy v then Inr []
      else (case v of
          PList xs \<Rightarrow> Inr xs
        | PDict d \<Rightarrow> Inr (map (PStr \<circ> fst) d)
        | PStr s \<Rightarrow> Inr (map (\<lambda>c. PStr [c]) s)
        | _ \<Rightarrow> Inl TypeError))"

definition merge_usage :: "dict \<Rightarrow> dict \<Rightarrow> dict option \<Rightarrow> dict res" where
  "merge_usage existing flds entry =
     (let usage = fold (\<lambda>(k, v). merge_field k v) flds existing in
      case entry of
        None \<Rightarrow> Inr usage
      | Some e \<Rightarrow>
          rbind (as_list (lookup usage ''entries'')) (\<lambda>es.
          Inr (dict_set ''entries'' (PList (es @ [PDict e])) usage)))"

text \<open>\<^verbatim>\<open>_locked_usage_update\<close>: merge into the attempt's row and store it.\<close>

definition store_usage :: "dict \<Rightarrow> dict" where
  "store_usage d = map (\<lambda>(k, v). (k, stored v)) d"

definition write_usage :: "id \<Rightarrow> dict \<Rightarrow> dict option \<Rightarrow> db \<Rightarrow> db res" where
  "write_usage attempt flds entry d =
     (case get_attempt attempt d of
        None \<Rightarrow> Inl DoesNotExist
      | Some a \<Rightarrow>
          rbind (merge_usage (case a_usage a of Some u \<Rightarrow> u | None \<Rightarrow> []) flds entry) (\<lambda>u.
          Inr (upd_attempts (\<lambda>r. a_id r = attempt) (a_usage_update (\<lambda>_. Some (store_usage u))) d)))"

section \<open>Pricing\<close>

definition million :: rat where
  "million = 1000000"

definition token_fields :: "string list" where
  "token_fields = [''input_tokens'', ''output_tokens'', ''cached_input_tokens'']"

text \<open>\<^verbatim>\<open>Decimal(value or 0)\<close>.\<close>

fun decimal_or_0 :: "pyval \<Rightarrow> rat res" where
  "decimal_or_0 (PBool b) = Inr (if b then 1 else 0)"
| "decimal_or_0 v =
     (if \<not> truthy v then Inr 0
      else (case money v of Some r \<Rightarrow> Inr r | None \<Rightarrow> Inl TypeError))"

definition price_amount :: "price \<Rightarrow> rat \<Rightarrow> rat \<Rightarrow> rat \<Rightarrow> rat" where
  "price_amount p inp outp cached =
     (let cached_rate = (case pr_cached p of Some c \<Rightarrow> c | None \<Rightarrow> pr_input p);
          uncached = (if pr_subset p then inp - cached else inp) in
      (max uncached 0 * pr_input p + cached * cached_rate + outp * pr_output p) / million)"

definition amount :: "price \<Rightarrow> dict \<Rightarrow> rat res" where
  "amount p entry =
     rbind (decimal_or_0 (lookup entry ''input_tokens'')) (\<lambda>i.
     rbind (decimal_or_0 (lookup entry ''output_tokens'')) (\<lambda>out.
     rbind (decimal_or_0 (lookup entry ''cached_input_tokens'')) (\<lambda>c.
     Inr (price_amount p i out c))))"

text \<open>\<^verbatim>\<open>StaticTablePricing.price\<close> on its configuration dict.\<close>

definition default_to :: "pyval \<Rightarrow> pyval option \<Rightarrow> pyval" where
  "default_to dflt v = (case v of Some x \<Rightarrow> x | None \<Rightarrow> dflt)"

definition rate :: "pyval option \<Rightarrow> rat res" where
  "rate v = (case v of None \<Rightarrow> Inl KeyError
     | Some x \<Rightarrow> (case money x of Some r \<Rightarrow> Inr r | None \<Rightarrow> Inl TypeError))"

definition static_price :: "dict \<Rightarrow> string \<Rightarrow> price option res" where
  "static_price config model =
     (case default_to (PDict []) (dict_get config ''models'') of
        PDict models \<Rightarrow>
          (case dict_get models model of
             None \<Rightarrow> Inr None
           | Some (PDict e) \<Rightarrow>
               rbind (rate (dict_get e ''input'')) (\<lambda>i.
               rbind (rate (dict_get e ''output'')) (\<lambda>out.
               rbind (if lookup e ''cached_input'' = PNone then Inr None
                      else rbind (rate (dict_get e ''cached_input'')) (\<lambda>c. Inr (Some c))) (\<lambda>c.
               Inr (Some \<lparr>pr_input = i, pr_output = out, pr_cached = c,
                  pr_currency = default_to (default_to (PStr ''USD'') (dict_get config ''currency''))
                                  (dict_get e ''currency''),
                  pr_revision = default_to (lookup config ''revision'') (dict_get e ''revision''),
                  pr_subset = truthy (default_to (PBool True) (dict_get e ''cached_is_subset''))\<rparr>))))
           | Some PNone \<Rightarrow> Inr None
           | Some _ \<Rightarrow> Inl TypeError)
      | _ \<Rightarrow> Inl TypeError)"

definition lookup_price :: "resolver option \<Rightarrow> pyval \<Rightarrow> pyval \<Rightarrow> price option" where
  "lookup_price r model provider =
     (case r of None \<Rightarrow> None | Some f \<Rightarrow> f model provider)"

definition usage_entry :: "resolver option \<Rightarrow> dict \<Rightarrow> dict option res" where
  "usage_entry r flds =
     (let model = lookup flds ''model''; provider = lookup flds ''provider'' in
      if \<not> truthy model then Inr None
      else
        (let entry = [(''model'', model), (''provider'', provider)]
               @ map (\<lambda>n. (n, lookup flds n)) token_fields
               @ [(''estimated_cost'', PNone), (''currency'', PNone), (''pricing_revision'', PNone),
                  (''cost_source'', PStr ''none'')] in
         case money (lookup flds ''cost'') of
           Some c \<Rightarrow> Inr (Some (dict_merge entry
             [(''estimated_cost'', PMoney c), (''currency'', lookup flds ''currency''),
              (''cost_source'', PStr ''caller'')]))
         | None \<Rightarrow>
             (case lookup_price r model provider of
                None \<Rightarrow> Inr (Some entry)
              | Some p \<Rightarrow> rbind (amount p entry) (\<lambda>a.
                  Inr (Some (dict_merge entry
                    [(''estimated_cost'', PMoney a), (''currency'', pr_currency p),
                     (''pricing_revision'', pr_revision p), (''cost_source'', PStr ''resolver'')]))))))"

record cost_summary =
  cs_amount :: rat
  cs_currency :: pyval
  cs_coverage :: string
  cs_estimated :: bool

text \<open>The accumulators of the loop of \<^verbatim>\<open>cost()\<close>.\<close>

record cost_acc =
  ca_amount :: rat
  ca_currency :: pyval
  ca_priced :: nat
  ca_unpriced :: nat
  ca_estimated :: bool

definition py_or :: "pyval \<Rightarrow> pyval \<Rightarrow> pyval" where
  "py_or a b = (if truthy a then a else b)"

text \<open>An entry's cost, where it came from, and the currency of a read-time price.\<close>

definition entry_cost :: "resolver option \<Rightarrow> dict \<Rightarrow> (rat option \<times> pyval \<times> pyval) res" where
  "entry_cost r e =
     (let source = default_to (PStr ''none'') (dict_get e ''cost_source'') in
      case money (lookup e ''estimated_cost'') of
        Some c \<Rightarrow> Inr (Some c, source, PNone)
      | None \<Rightarrow>
          (case lookup_price r (lookup e ''model'') (lookup e ''provider'') of
             None \<Rightarrow> Inr (None, source, PNone)
           | Some p \<Rightarrow> rbind (amount p e) (\<lambda>a.
               Inr (Some a, PStr ''resolver'', pr_currency p))))"

definition cost_step :: "resolver option \<Rightarrow> pyval \<Rightarrow> cost_acc \<Rightarrow> cost_acc res" where
  "cost_step r entry acc =
     (case entry of
        PDict e \<Rightarrow>
          rbind (entry_cost r e) (\<lambda>(c, source, cur).
            let acc = acc\<lparr>ca_currency := py_or (ca_currency acc) cur\<rparr> in
            case c of
              None \<Rightarrow>
                Inr (if list_ex (\<lambda>n. truthy (lookup e n)) token_fields
                     then acc\<lparr>ca_unpriced := ca_unpriced acc + 1\<rparr> else acc)
            | Some a \<Rightarrow>
                Inr (acc\<lparr>ca_priced := ca_priced acc + 1, ca_amount := ca_amount acc + a,
                       ca_currency := py_or (ca_currency acc) (lookup e ''currency''),
                       ca_estimated := (ca_estimated acc \<or> source \<noteq> PStr ''caller'')\<rparr>))
      | _ \<Rightarrow> Inl TypeError)"

fun cost_loop :: "resolver option \<Rightarrow> pyval list \<Rightarrow> cost_acc \<Rightarrow> cost_acc res" where
  "cost_loop r [] acc = Inr acc"
| "cost_loop r (e # es) acc = rbind (cost_step r e acc) (cost_loop r es)"

definition cost_acc0 :: cost_acc where
  "cost_acc0 = \<lparr>ca_amount = 0, ca_currency = PNone, ca_priced = 0, ca_unpriced = 0,
     ca_estimated = False\<rparr>"

definition coverage :: "nat \<Rightarrow> nat \<Rightarrow> string" where
  "coverage priced unpriced =
     (if priced \<noteq> 0 \<and> unpriced = 0 then ''complete''
      else if priced \<noteq> 0 then ''partial'' else ''none'')"

definition cost :: "resolver option \<Rightarrow> dict \<Rightarrow> cost_summary res" where
  "cost r usage =
     rbind (as_list (lookup usage ''entries'')) (\<lambda>entries.
     if entries = [] then
       Inr (case money (lookup usage ''cost'') of
          None \<Rightarrow> \<lparr>cs_amount = 0, cs_currency = PNone, cs_coverage = ''none'', cs_estimated = True\<rparr>
        | Some c \<Rightarrow> \<lparr>cs_amount = c, cs_currency = lookup usage ''currency'',
                     cs_coverage = ''complete'', cs_estimated = False\<rparr>)
     else rbind (cost_loop r entries cost_acc0) (\<lambda>acc.
       Inr \<lparr>cs_amount = ca_amount acc, cs_currency = ca_currency acc,
            cs_coverage = coverage (ca_priced acc) (ca_unpriced acc),
            cs_estimated = (ca_estimated acc \<or> ca_priced acc = 0)\<rparr>))"

definition cost_as_dict :: "cost_summary \<Rightarrow> dict" where
  "cost_as_dict c = [(''amount'', PMoney (cs_amount c)), (''currency'', cs_currency c),
     (''coverage'', PStr (cs_coverage c)), (''estimated'', PBool (cs_estimated c))]"

section \<open>Aggregation\<close>

text \<open>One item of one usage dict folded into the aggregate and the entries seen so far.\<close>

definition sum_item :: "string \<times> pyval \<Rightarrow> dict \<times> pyval list \<Rightarrow> (dict \<times> pyval list) res" where
  "sum_item kv st =
     (case (kv, st) of ((key, v), (agg, entries)) \<Rightarrow>
        if key = ''entries'' then rbind (as_list v) (\<lambda>es. Inr (agg, entries @ es))
        else (case (key \<in> set money_keys, money v) of
          (True, Some inc) \<Rightarrow>
            Inr (dict_set key
              (PMoney ((case money (lookup agg key) of Some t \<Rightarrow> t | None \<Rightarrow> 0) + inc)) agg, entries)
        | _ \<Rightarrow>
            if is_numeric v
            then rbind (add_usage (default_to (PInt 0) (dict_get agg key)) v) (\<lambda>s.
                 Inr (dict_set key s agg, entries))
            else Inr (dict_set key v agg, entries)))"

fun sum_items :: "dict \<Rightarrow> dict \<times> pyval list \<Rightarrow> (dict \<times> pyval list) res" where
  "sum_items [] st = Inr st"
| "sum_items (kv # kvs) st = rbind (sum_item kv st) (sum_items kvs)"

fun sum_loop :: "dict option list \<Rightarrow> dict \<times> pyval list \<Rightarrow> (dict \<times> pyval list) res" where
  "sum_loop [] st = Inr st"
| "sum_loop (None # us) st = sum_loop us st"
| "sum_loop (Some u # us) st = rbind (sum_items u st) (sum_loop us)"

definition cost_summary_of :: "resolver option \<Rightarrow> dict \<Rightarrow> dict option res" where
  "cost_summary_of r agg =
     (if \<not> truthy (lookup agg ''entries'') \<and> \<not> truthy (lookup agg ''cost'') then Inr None
      else rbind (cost r agg) (\<lambda>c. Inr (Some (cost_as_dict c))))"

definition sum_usage :: "resolver option \<Rightarrow> dict option list \<Rightarrow> dict res" where
  "sum_usage r usages =
     rbind (sum_loop usages ([], [])) (\<lambda>(agg, entries).
     let agg = (if entries = [] then agg else dict_set ''entries'' (PList entries) agg) in
     rbind (cost_summary_of r agg) (\<lambda>s.
     Inr (case s of None \<Rightarrow> agg | Some c \<Rightarrow> dict_set ''cost_summary'' (PDict c) agg)))"

text \<open>\<^verbatim>\<open>aggregate_usage\<close> and \<^verbatim>\<open>aggregate_graph_usage\<close>.\<close>

definition aggregate_usage :: "world \<Rightarrow> id \<Rightarrow> db \<Rightarrow> dict res" where
  "aggregate_usage w task d =
     sum_usage (w_pricing w) (map a_usage (task_attempts task d))"

definition in_graph :: "id \<Rightarrow> db \<Rightarrow> attempt_row \<Rightarrow> bool" where
  "in_graph g d a = (case get_task (a_task a) d of Some t \<Rightarrow> t_graph_id t = Some g | None \<Rightarrow> False)"

definition aggregate_graph_usage :: "world \<Rightarrow> id \<Rightarrow> db \<Rightarrow> dict res" where
  "aggregate_graph_usage w g d =
     sum_usage (w_pricing w) (map a_usage (sort_key a_number (filter (in_graph g d) (d_attempts d))))"

section \<open>Properties\<close>

lemma lookup_set [simp]: "lookup (dict_set k v d) k' = (if k' = k then v else lookup d k')"
  by (simp add: lookup_def)

lemma lookup_store [simp]: "lookup (store_usage d) k = stored (lookup d k)"
  by (induction d) (auto simp: store_usage_def lookup_def)

lemma merge_field_counter:
  "k \<notin> set money_keys \<Longrightarrow> lookup u k = PInt n \<Longrightarrow> lookup (merge_field k (PInt i) u) k = PInt (n + i)"
  by (auto simp: merge_field_def Let_def add_usage_def split: bool.splits)

lemma merge_field_money:
  "k \<in> set money_keys \<Longrightarrow> lookup u k = PMoney c \<Longrightarrow> money v = Some inc \<Longrightarrow>
   lookup (merge_field k v u) k = PMoney (c + inc)"
  by (simp add: merge_field_def Let_def)

lemma usage_increments_accumulate_parts:
  assumes "k \<notin> set money_keys" "lookup u k = PInt n"
    and "m \<in> set money_keys" "lookup u' m = PMoney c"
  shows "lookup (fold (\<lambda>i u. store_usage (merge_field k (PInt i) u)) is u) k = PInt (n + sum_list is)"
    and "(\<forall>v \<in> set vs. money v \<noteq> None) \<Longrightarrow>
      lookup (fold (\<lambda>v u. store_usage (merge_field m v u)) vs u') m =
        PMoney (c + sum_list (map (the \<circ> money) vs))"
proof -
  show "lookup (fold (\<lambda>i u. store_usage (merge_field k (PInt i) u)) is u) k = PInt (n + sum_list is)"
    using assms(2)
    by (induction "is" arbitrary: u n) (auto simp: merge_field_counter [OF assms(1)] algebra_simps)
  show "lookup (fold (\<lambda>v u. store_usage (merge_field m v u)) vs u') m =
      PMoney (c + sum_list (map (the \<circ> money) vs))" if "\<forall>v \<in> set vs. money v \<noteq> None"
    using that assms(4)
    by (induction vs arbitrary: u' c)
      (auto simp: merge_field_money [OF assms(3)] algebra_simps)
qed

text \<open>
  Repeated \<^verbatim>\<open>record_usage\<close> calls lose no increment: after any list of calls the
  stored counter is the first value plus the sum of the increments, and a money key is their
  exact decimal sum, whether the caller passed integers, floats, Decimals or decimal strings.
\<close>

theorem usage_increments_accumulate:
  assumes "k \<notin> set money_keys" "lookup u k = PInt n"
    and "m \<in> set money_keys" "lookup u' m = PMoney c"
  shows "lookup (fold (\<lambda>i u. store_usage (merge_field k (PInt i) u)) is u) k = PInt (n + sum_list is) \<and>
    ((\<forall>v \<in> set vs. money v \<noteq> None) \<longrightarrow>
      lookup (fold (\<lambda>v u. store_usage (merge_field m v u)) vs u') m =
        PMoney (c + sum_list (map (the \<circ> money) vs)))"
  using usage_increments_accumulate_parts [OF assms] by blast

theorem usage_increments_accumulate_witness:
  "lookup (fold (\<lambda>i u. store_usage (merge_field ''input_tokens'' (PInt i) u)) [5, 7]
     [(''input_tokens'', PInt 3)]) ''input_tokens'' = PInt 15 \<and>
   lookup (fold (\<lambda>v u. store_usage (merge_field ''cost'' v u)) [PFloat 2, PMoney 3]
     [(''cost'', PMoney 1)]) ''cost'' = PMoney 6"
proof -
  have h: "''input_tokens'' \<notin> set money_keys" "lookup [(''input_tokens'', PInt 3)] ''input_tokens'' = PInt 3"
    "''cost'' \<in> set money_keys" "lookup [(''cost'', PMoney 1)] ''cost'' = PMoney 1"
    by (simp_all add: money_keys_def lookup_def)
  show ?thesis
    using usage_increments_accumulate [OF h, of "[5, 7]" "[PFloat 2, PMoney 3]"]
    by simp
qed

definition int_of :: "pyval option \<Rightarrow> int" where
  "int_of v = (case v of Some (PInt i) \<Rightarrow> i | _ \<Rightarrow> 0)"

definition counts :: "string \<Rightarrow> dict \<Rightarrow> bool" where
  "counts k u \<longleftrightarrow> distinct (map fst u) \<and> (case dict_get u k of None \<Rightarrow> True | Some v \<Rightarrow> \<exists>i. v = PInt i)"

lemma counts_Cons: "counts k ((k', v) # u) \<Longrightarrow> counts k u"
  using image_iff by (fastforce simp: counts_def dict_get_def map_of_eq_None_iff split: if_splits option.splits)

lemma int_of_simps [simp]: "int_of None = 0" "int_of (Some (PInt i)) = i"
  by (simp_all add: int_of_def)

lemma sum_item_other:
  "sum_item (k', v) (agg, es) = Inr (agg', es') \<Longrightarrow> k \<noteq> k' \<Longrightarrow> dict_get agg' k = dict_get agg k"
  by (auto simp: sum_item_def rbind_Inr split: if_splits bool.splits option.splits)

lemma sum_item_same:
  assumes "k \<notin> set money_keys" "k \<noteq> ''entries''" "dict_get agg k = None \<or> dict_get agg k = Some (PInt n)"
  shows "sum_item (k, PInt i) (agg, es) =
    Inr (dict_set k (PInt (int_of (dict_get agg k) + i)) agg, es)"
  using assms by (auto simp: sum_item_def add_usage_def default_to_def)

lemma sum_items_counter:
  assumes "k \<notin> set money_keys" "k \<noteq> ''entries''" "counts k u"
    and "\<forall>v. dict_get agg k = Some v \<longrightarrow> (\<exists>i. v = PInt i)"
    and "sum_items u (agg, es) = Inr (agg', es')"
  shows "int_of (dict_get agg' k) = int_of (dict_get agg k) + int_of (dict_get u k) \<and>
    (\<forall>v. dict_get agg' k = Some v \<longrightarrow> (\<exists>i. v = PInt i))"
  using assms(3-)
proof (induction u arbitrary: agg es)
  case (Cons kv u)
  obtain k' v where kv: "kv = (k', v)" by force
  from Cons.prems(3) kv obtain agg1 es1 where
    one: "sum_item (k', v) (agg, es) = Inr (agg1, es1)" and
    rest: "sum_items u (agg1, es1) = Inr (agg', es')"
    by (auto simp: rbind_Inr)
  show ?case
  proof (cases "k = k'")
    case False
    with one have same: "dict_get agg1 k = dict_get agg k" by (rule sum_item_other)
    with Cons.prems(2) have "\<forall>v. dict_get agg1 k = Some v \<longrightarrow> (\<exists>i. v = PInt i)" by simp
    from Cons.IH [OF counts_Cons [OF Cons.prems(1) [unfolded kv]] this rest]
    show ?thesis using False same kv by simp
  next
    case True
    with Cons.prems(1) kv obtain i where v: "v = PInt i" by (auto simp: counts_def)
    have none: "dict_get u k = None"
      using Cons.prems(1) True kv by (auto simp: counts_def dict_get_def map_of_eq_None_iff)
    obtain n where "dict_get agg k = None \<or> dict_get agg k = Some (PInt n)"
      using Cons.prems(2) by (cases "dict_get agg k") auto
    from sum_item_same [OF assms(1,2) this, of i es] one v True
    have get: "dict_get agg1 k = Some (PInt (int_of (dict_get agg k) + i))" by auto
    then have "\<forall>v. dict_get agg1 k = Some v \<longrightarrow> (\<exists>i. v = PInt i)" by simp
    from Cons.IH [OF counts_Cons [OF Cons.prems(1) [unfolded kv]] this rest]
    show ?thesis using get none v True kv by simp
  qed
qed simp

lemma sum_loop_counter:
  assumes "k \<notin> set money_keys" "k \<noteq> ''entries''" "\<forall>u. Some u \<in> set us \<longrightarrow> counts k u"
    and "\<forall>v. dict_get agg k = Some v \<longrightarrow> (\<exists>i. v = PInt i)"
    and "sum_loop us (agg, es) = Inr (agg', es')"
  shows "int_of (dict_get agg' k) =
    int_of (dict_get agg k) + sum_list (map (\<lambda>u. int_of (dict_get u k)) (List.map_filter id us))"
  using assms(3-)
proof (induction us arbitrary: agg es)
  case Nil
  then show ?case by (simp add: map_filter_simps)
next
  case (Cons x us)
  show ?case
  proof (cases x)
    case None
    with Cons.prems show ?thesis using Cons.IH [of agg es] by (simp add: map_filter_simps)
  next
    case (Some u)
    from Cons.prems(3) Some obtain agg1 es1 where
      one: "sum_items u (agg, es) = Inr (agg1, es1)" and rest: "sum_loop us (agg1, es1) = Inr (agg', es')"
      by (auto simp: rbind_Inr)
    have "counts k u" using Cons.prems(1) Some by simp
    from sum_items_counter [OF assms(1,2) this Cons.prems(2) one]
      Cons.IH [OF _ _ rest] Cons.prems(1) Some
    show ?thesis by (simp add: map_filter_simps)
  qed
qed

text \<open>
  The aggregate of any number of attempts counts every recorded token once: a counter key
  of the sum is the sum of that key over the attempts, in whatever order they come, with
  attempts that recorded nothing skipped.
\<close>

theorem aggregate_counts_every_token:
  assumes "sum_usage r us = Inr agg"
    and "k \<notin> {''cost'', ''estimated_cost'', ''entries'', ''cost_summary''}"
    and "\<forall>u. Some u \<in> set us \<longrightarrow> counts k u"
  shows "int_of (dict_get agg k) =
    sum_list (map (\<lambda>u. int_of (dict_get u k)) (List.map_filter id us))"
proof -
  have k: "k \<notin> set money_keys" "k \<noteq> ''entries''" "k \<noteq> ''cost_summary''"
    using assms(2) by (auto simp: money_keys_def)
  from assms(1) obtain agg1 es where loop: "sum_loop us ([], []) = Inr (agg1, es)"
    and out: "dict_get agg k = dict_get agg1 k"
    using k by (fastforce simp: sum_usage_def rbind_Inr Let_def split: option.splits if_splits)
  have "\<forall>v. dict_get [] k = Some v \<longrightarrow> (\<exists>i. v = PInt i)" by simp
  from sum_loop_counter [OF k(1,2) assms(3) this loop] out show ?thesis by simp
qed

theorem aggregate_counts_every_token_witness:
  "\<exists>agg. sum_usage None [Some [(''input_tokens'', PInt 3)], None, Some [(''input_tokens'', PInt 4)]]
       = Inr agg \<and> int_of (dict_get agg ''input_tokens'') = 7"
proof -
  let ?us = "[Some [(''input_tokens'', PInt 3)], None, Some [(''input_tokens'', PInt 4)]]"
  have "sum_usage None ?us = Inr [(''input_tokens'', PInt 7)]" by code_simp
  from aggregate_counts_every_token [OF this, of "''input_tokens''"] this show ?thesis
    by (auto simp: counts_def map_filter_simps)
qed

section \<open>Cost\<close>

definition entry_amount :: "resolver option \<Rightarrow> pyval \<Rightarrow> rat" where
  "entry_amount r x = (case x of PDict e \<Rightarrow>
     (case entry_cost r e of Inr (Some a, _, _) \<Rightarrow> a | _ \<Rightarrow> 0) | _ \<Rightarrow> 0)"

definition has_cost :: "resolver option \<Rightarrow> pyval \<Rightarrow> bool" where
  "has_cost r x = (case x of PDict e \<Rightarrow>
     (case entry_cost r e of Inr (Some a, _, _) \<Rightarrow> True | _ \<Rightarrow> False) | _ \<Rightarrow> False)"

definition has_tokens :: "pyval \<Rightarrow> bool" where
  "has_tokens x = (case x of PDict e \<Rightarrow> list_ex (\<lambda>n. truthy (lookup e n)) token_fields | _ \<Rightarrow> False)"

lemma cost_step_effect:
  assumes "cost_step r x acc = Inr acc'"
  shows "ca_amount acc' = ca_amount acc + entry_amount r x"
    "ca_priced acc' = ca_priced acc + (if has_cost r x then 1 else 0)"
    "ca_unpriced acc' = ca_unpriced acc + (if \<not> has_cost r x \<and> has_tokens x then 1 else 0)"
proof -
  obtain e where x: "x = PDict e" using assms by (cases x) (auto simp: cost_step_def)
  with assms obtain c source cur where ec: "entry_cost r e = Inr (c, source, cur)"
    by (auto simp: cost_step_def rbind_Inr)
  have "ca_amount acc' = ca_amount acc + entry_amount r x \<and>
    ca_priced acc' = ca_priced acc + (if has_cost r x then 1 else 0) \<and>
    ca_unpriced acc' = ca_unpriced acc + (if \<not> has_cost r x \<and> has_tokens x then 1 else 0)"
    using assms ec
    by (cases c) (auto simp: x cost_step_def entry_amount_def has_cost_def has_tokens_def Let_def)
  then show "ca_amount acc' = ca_amount acc + entry_amount r x"
    "ca_priced acc' = ca_priced acc + (if has_cost r x then 1 else 0)"
    "ca_unpriced acc' = ca_unpriced acc + (if \<not> has_cost r x \<and> has_tokens x then 1 else 0)"
    by auto
qed

lemma cost_loop_effect:
  assumes "cost_loop r xs acc = Inr acc'"
  shows "ca_amount acc' = ca_amount acc + sum_list (map (entry_amount r) xs)
    \<and> ca_priced acc' = ca_priced acc + length (filter (has_cost r) xs)
    \<and> ca_unpriced acc' = ca_unpriced acc
        + length (filter (\<lambda>x. \<not> has_cost r x \<and> has_tokens x) xs)"
  using assms
proof (induction xs arbitrary: acc)
  case (Cons x xs)
  then obtain acc1 where "cost_step r x acc = Inr acc1" "cost_loop r xs acc1 = Inr acc'"
    by (auto simp: rbind_Inr)
  with Cons.IH [of acc1] cost_step_effect [of r x acc acc1] show ?case by simp
qed simp

lemma cost_is_sum_of_entries_parts:
  assumes "lookup usage ''entries'' = PList es" "es \<noteq> []" "cost r usage = Inr c"
  shows "cs_amount c = sum_list (map (entry_amount r) es)"
    and "cs_coverage c = ''complete'' \<longleftrightarrow>
      (\<exists>x \<in> set es. has_cost r x) \<and> (\<forall>x \<in> set es. has_tokens x \<longrightarrow> has_cost r x)"
    and "cs_coverage c = ''partial'' \<longleftrightarrow>
      (\<exists>x \<in> set es. has_cost r x) \<and> (\<exists>x \<in> set es. has_tokens x \<and> \<not> has_cost r x)"
proof -
  from assms obtain acc where loop: "cost_loop r es cost_acc0 = Inr acc"
    and c: "cs_amount c = ca_amount acc" "cs_coverage c = coverage (ca_priced acc) (ca_unpriced acc)"
    by (auto simp: cost_def as_list_def rbind_Inr)
  note eff = cost_loop_effect [OF loop, unfolded cost_acc0_def, simplified]
  from eff c show "cs_amount c = sum_list (map (entry_amount r) es)" by simp
  have "ca_priced acc \<noteq> 0 \<longleftrightarrow> (\<exists>x \<in> set es. has_cost r x)"
    "ca_unpriced acc = 0 \<longleftrightarrow> (\<forall>x \<in> set es. has_tokens x \<longrightarrow> has_cost r x)"
    using eff by (auto simp: filter_empty_conv)
  then show "cs_coverage c = ''complete'' \<longleftrightarrow>
      (\<exists>x \<in> set es. has_cost r x) \<and> (\<forall>x \<in> set es. has_tokens x \<longrightarrow> has_cost r x)"
    "cs_coverage c = ''partial'' \<longleftrightarrow>
      (\<exists>x \<in> set es. has_cost r x) \<and> (\<exists>x \<in> set es. has_tokens x \<and> \<not> has_cost r x)"
    by (auto simp: c coverage_def)
qed


definition demo_usage :: dict where
  "demo_usage = [(''entries'', PList
     [PDict [(''model'', PStr ''a''), (''estimated_cost'', PMoney (3 / 2)), (''cost_source'', PStr ''caller'')],
      PDict [(''model'', PStr ''b''), (''input_tokens'', PInt 7), (''estimated_cost'', PNone)]])]"


lemma cached_tokens_billed_once_parts:
  assumes "0 \<le> pr_input p" "0 \<le> pr_output p" "\<forall>c. pr_cached p = Some c \<longrightarrow> 0 \<le> c \<and> c \<le> pr_input p"
    and "0 \<le> i" "0 \<le> out" "0 \<le> c" "c \<le> i"
  shows "0 \<le> price_amount p i out c"
    and "pr_subset p \<Longrightarrow> pr_cached p = None \<Longrightarrow> price_amount p i out c = price_amount p i out 0"
    and "pr_subset p \<Longrightarrow> price_amount p i out c \<le> price_amount p i out 0"
proof -
  define cr where "cr = (case pr_cached p of Some c \<Rightarrow> c | None \<Rightarrow> pr_input p)"
  have cr: "0 \<le> cr" "cr \<le> pr_input p" using assms(1,3) by (auto simp: cr_def split: option.splits)
  have eq: "price_amount p i out x =
      (max (if pr_subset p then i - x else i) 0 * pr_input p + x * cr + out * pr_output p) / million" for x
    by (simp add: price_amount_def cr_def Let_def)
  show "0 \<le> price_amount p i out c"
    unfolding eq using assms cr by (simp add: million_def)
  show "pr_subset p \<Longrightarrow> pr_cached p = None \<Longrightarrow> price_amount p i out c = price_amount p i out 0"
    unfolding eq using assms by (simp add: cr_def algebra_simps)
  have "c * cr \<le> c * pr_input p" using cr assms by (intro mult_left_mono)
  then show "pr_subset p \<Longrightarrow> price_amount p i out c \<le> price_amount p i out 0"
    unfolding eq using assms by (simp add: million_def divide_right_mono algebra_simps)
qed

text \<open>
  A price is non-negative on non-negative counts, cached tokens that a provider reports
  inside the input tokens are not billed twice, and a cached rate below the input rate only
  lowers the amount.
\<close>

theorem cached_tokens_billed_once:
  assumes "0 \<le> pr_input p" "0 \<le> pr_output p" "\<forall>c. pr_cached p = Some c \<longrightarrow> 0 \<le> c \<and> c \<le> pr_input p"
    and "0 \<le> i" "0 \<le> out" "0 \<le> c" "c \<le> i"
  shows "0 \<le> price_amount p i out c \<and>
    (pr_subset p \<and> pr_cached p = None \<longrightarrow> price_amount p i out c = price_amount p i out 0) \<and>
    (pr_subset p \<longrightarrow> price_amount p i out c \<le> price_amount p i out 0)"
  using cached_tokens_billed_once_parts [OF assms] by blast

definition demo_price :: price where
  "demo_price = \<lparr>pr_input = 3, pr_output = 15, pr_cached = Some (3 / 10), pr_currency = PStr ''USD'',
     pr_revision = PNone, pr_subset = True\<rparr>"

theorem cached_tokens_billed_once_witness:
  "price_amount demo_price 1000 100 400 \<le> price_amount demo_price 1000 100 0"
  using cached_tokens_billed_once [of demo_price 1000 100 400] by (simp add: demo_price_def)

section \<open>Findings\<close>

text \<open>
  A key that one attempt recorded as null and a later one as a number breaks the aggregate of
  the whole graph: the first value is stored as it came, and the number is added to it.
\<close>

lemma sum_usage_null_then_number:
  "sum_usage r [Some [(''latency_ms'', PNone)], Some [(''latency_ms'', PInt 12)]] = Inl TypeError"
  by (simp add: sum_usage_def sum_item_def money_keys_def default_to_def add_usage_def dict_set_def)

text \<open>
  A Decimal under a key that is not a money key is stored as a string by the JSON encoder, so
  the next increment replaces it instead of accumulating.
\<close>

lemma decimal_counter_not_accumulated:
  "lookup (store_usage (merge_field ''latency'' (PDec 2)
     (store_usage (merge_field ''latency'' (PDec 1) [])))) ''latency'' = PMoney 2"
  by code_simp

end
