(* ===== verification/Qraft_Graph.thy ===== *)
theory Qraft_Graph
  imports Qraft_Hook Qraft_Topology Qraft_Usage
begin

text \<open>
  Execution graphs (\<^verbatim>\<open>qraft/graphs.py\<close>): starting a plan, dispatching the
  frontier, recording completions, settling on quiescence, and the operator's transitions.
  Every operation of the source runs in one transaction under the graph's row lock; it is one
  function here, from a database to an error (rolled back) or the new database. The settled
  hook is dispatched after the commit, on the settled graph row the operation returns.
\<close>

section \<open>Reading a graph\<close>

definition locked :: "id \<Rightarrow> db \<Rightarrow> graph_row res" where
  "locked g d = (case get_graph g d of Some r \<Rightarrow> Inr r | None \<Rightarrow> Inl (GraphError ''unknown graph''))"

definition node_by_key :: "id \<Rightarrow> string \<Rightarrow> db \<Rightarrow> node_row option" where
  "node_by_key g k d = find (\<lambda>n. n_graph n = g \<and> n_key n = k) (d_nodes d)"

text \<open>\<^verbatim>\<open>settled.get(dep) in (SUCCEEDED, SKIPPED)\<close>.\<close>

definition dep_released :: "id \<Rightarrow> db \<Rightarrow> string \<Rightarrow> bool" where
  "dep_released g d dep =
     exists_where (\<lambda>n. n_graph n = g \<and> n_key n = dep \<and> releases (n_status n)) (d_nodes d)"

definition deps_released :: "id \<Rightarrow> db \<Rightarrow> node_row \<Rightarrow> bool" where
  "deps_released g d n = list_all (dep_released g d) (n_after n)"

definition ready_nodes :: "id \<Rightarrow> db \<Rightarrow> node_row list" where
  "ready_nodes g d =
     filter (\<lambda>n. n_status n = NPending \<and> deps_released g d n) (ordered_nodes g d)"

definition blocked_by :: "id \<Rightarrow> db \<Rightarrow> node_row \<Rightarrow> string list" where
  "blocked_by g d n =
     (if n_status n \<noteq> NPending then [] else filter (\<lambda>dep. \<not> dep_released g d dep) (n_after n))"

text \<open>The \<^verbatim>\<open>frontier\<close> of \<^verbatim>\<open>snapshot()\<close>.\<close>

definition snapshot_frontier :: "id \<Rightarrow> db \<Rightarrow> string list" where
  "snapshot_frontier g d =
     map n_key (filter (\<lambda>n. n_status n = NPending \<and> blocked_by g d n = []) (ordered_nodes g d))"

section \<open>Summary and settlement rows\<close>

definition status_name :: "node_status \<Rightarrow> string" where
  "status_name s = (case s of NPending \<Rightarrow> ''pending'' | NRunning \<Rightarrow> ''running''
     | NSucceeded \<Rightarrow> ''succeeded'' | NFailed \<Rightarrow> ''failed'' | NCancelled \<Rightarrow> ''cancelled''
     | NSkipped \<Rightarrow> ''skipped'' | NWaiting \<Rightarrow> ''waiting_approval'')"

definition graph_status_name :: "graph_status \<Rightarrow> string" where
  "graph_status_name s = (case s of GRunning \<Rightarrow> ''running'' | GSucceeded \<Rightarrow> ''succeeded''
     | GFailed \<Rightarrow> ''failed'' | GCancelled \<Rightarrow> ''cancelled'' | GWaiting \<Rightarrow> ''waiting_approval'')"

definition summary_node :: "node_row \<Rightarrow> pyval" where
  "summary_node n = PDict
     [(''key'', PStr (n_key n)), (''task_id'', jid (n_task n)),
      (''outcome'', PStr (status_name (n_status n))), (''dispatched_at'', jtime (n_dispatched_at n)),
      (''settled_at'', jtime (n_settled_at n)),
      (''duration_s'', jtime (seconds_between (n_dispatched_at n) (n_settled_at n))),
      (''skip_reason'', js (n_skip_reason n)), (''generation'', PInt (int (n_generation n)))]"

definition build_summary :: "world \<Rightarrow> graph_row \<Rightarrow> graph_status \<Rightarrow> time \<Rightarrow> db \<Rightarrow> dict res" where
  "build_summary w r s now d =
     rbind (aggregate_graph_usage w (g_id r) d) (\<lambda>usage.
     Inr [(''outcome'', PStr (graph_status_name s)),
          (''nodes'', PList (map summary_node (ordered_nodes (g_id r) d))),
          (''duration_s'', jtime (seconds_between (Some (g_started r)) (Some now))),
          (''usage'', PDict usage)])"

definition graph_hook_context :: "graph_row \<Rightarrow> db \<Rightarrow> dict" where
  "graph_hook_context r d =
     [(''graph_id'', PInt (int (g_id r))), (''subject_type'', js (g_subject_type r)),
      (''subject_id'', js (g_subject_id r)), (''kind'', js (g_kind r)),
      (''revision'', js (g_revision r)),
      (''metadata'', case g_metadata r of Some m \<Rightarrow> m | None \<Rightarrow> PNone),
      (''outcome'', PStr (graph_status_name (g_status r))),
      (''generation'', PInt (int (g_generation r))),
      (''nodes'', PDict (map (\<lambda>n. (n_key n, PStr (status_name (n_status n)))) (ordered_nodes (g_id r) d))),
      (''started_at'', PFloat (g_started r)), (''settled_at'', jtime (g_settled_at r)),
      (''duration_s'', jtime (seconds_between (Some (g_started r)) (g_settled_at r))),
      (''previous_graph_id'', jid (g_previous r))]"

text \<open>The durable outbox row of one generation, written once (get_or_create).\<close>

definition record_settlement :: "graph_row \<Rightarrow> db \<Rightarrow> db res" where
  "record_settlement r d =
     (case given (g_on_settled r) of
        None \<Rightarrow> Inr d
      | Some path \<Rightarrow>
          if exists_where (\<lambda>s. se_graph s = g_id r \<and> se_generation s = g_generation r) (d_settlements d)
          then Inr d
          else (case g_settled_at r of
              None \<Rightarrow> Inl IntegrityError
            | Some t \<Rightarrow> Inr (d\<lparr>d_settlements := d_settlements d @
                [\<lparr>se_graph = g_id r, se_generation = g_generation r, se_hook_path = path,
                  se_hook_kwargs = g_on_settled_kwargs r, se_context = graph_hook_context r d,
                  se_created = t\<rparr>]\<rparr>)))"

definition live_graph :: "graph_status \<Rightarrow> bool" where
  "live_graph s \<longleftrightarrow> s = GRunning \<or> s = GWaiting"

text \<open>\<^verbatim>\<open>_settle\<close>: the settled row when this call settled the graph.\<close>

definition settle :: "world \<Rightarrow> time \<Rightarrow> graph_row \<Rightarrow> graph_status \<Rightarrow> db \<Rightarrow> (graph_row option \<times> db) res" where
  "settle w now r s d =
     rbind (build_summary w r s now d) (\<lambda>summary.
     let P = (\<lambda>x. g_id x = g_id r \<and> g_settled_at x = None \<and> live_graph (g_status x)) in
     if hits P (d_graphs d) = 0 then Inr (None, d)
     else
       (let d = upd_graphs P (\<lambda>x. x\<lparr>g_status := s, g_settled_at := Some now,
                  g_summary := Some summary, g_updated := now\<rparr>) d in
        rbind (locked (g_id r) d) (\<lambda>r.
        rbind (record_settlement r d) (\<lambda>d.
        Inr (Some r, emit (GraphSettled (g_id r) (g_generation r) (g_status r)) d)))))"

definition dispatch_settlement :: "world \<Rightarrow> time \<Rightarrow> settlement_row \<Rightarrow> db \<Rightarrow> db" where
  "dispatch_settlement w now s d =
     dispatch_workflow_hook w now GraphWf (se_graph s) OnSettled (se_hook_path s) []
       (se_hook_kwargs s) (Some (se_context s)) (se_generation s) d"

definition dispatch_settled_hook :: "world \<Rightarrow> time \<Rightarrow> graph_row option \<Rightarrow> db \<Rightarrow> db" where
  "dispatch_settled_hook w now settled d =
     (case settled of
        None \<Rightarrow> d
      | Some r \<Rightarrow>
          if given (g_on_settled r) = None then d
          else (case find (\<lambda>s. se_graph s = g_id r \<and> se_generation s = g_generation r)
                       (d_settlements d) of
              None \<Rightarrow> d
            | Some s \<Rightarrow> dispatch_settlement w now s d))"

section \<open>Quiescence\<close>

definition maybe_settle :: "world \<Rightarrow> time \<Rightarrow> graph_row \<Rightarrow> db \<Rightarrow> (graph_row option \<times> db) res" where
  "maybe_settle w now r d =
     (let ss = map n_status (graph_nodes (g_id r) d) in
      if NRunning \<in> set ss then Inr (None, d)
      else if NPending \<in> set ss \<and> ready_nodes (g_id r) d \<noteq> [] then Inr (None, d)
      else if NFailed \<in> set ss then settle w now r GFailed d
      else if NCancelled \<in> set ss then settle w now r GCancelled d
      else if NWaiting \<in> set ss then
        Inr (None, upd_graphs (\<lambda>x. g_id x = g_id r \<and> g_status x = GRunning)
                     (\<lambda>x. x\<lparr>g_status := GWaiting, g_updated := now\<rparr>) d)
      else if list_all releases ss then settle w now r GSucceeded d
      else Inr (None, d))"

section \<open>Dispatching nodes\<close>

definition opt_str :: "dict \<Rightarrow> string \<Rightarrow> string option" where
  "opt_str d k = (case dict_get d k of Some (PStr s) \<Rightarrow> Some s | _ \<Rightarrow> None)"

definition opt_list :: "dict \<Rightarrow> string \<Rightarrow> pyval list" where
  "opt_list d k = (case dict_get d k of Some (PList xs) \<Rightarrow> xs | _ \<Rightarrow> [])"

definition opt_dict :: "dict \<Rightarrow> string \<Rightarrow> dict" where
  "opt_dict d k = (case dict_get d k of Some (PDict x) \<Rightarrow> x | _ \<Rightarrow> [])"

definition opt_secs :: "dict \<Rightarrow> string \<Rightarrow> secs option" where
  "opt_secs d k = (case dict_get d k of Some (PInt i) \<Rightarrow> Some (of_int i)
     | Some (PFloat r) \<Rightarrow> Some r | _ \<Rightarrow> None)"

text \<open>Any priority but these two is the default lane (\<^verbatim>\<open>priority_list_key\<close>).\<close>

definition opt_priority :: "dict \<Rightarrow> priority" where
  "opt_priority d = (case opt_str d ''priority'' of
     Some s \<Rightarrow> if s = ''high'' then High else if s = ''low'' then Low else Default
   | None \<Rightarrow> Default)"

definition node_task :: "id \<Rightarrow> time \<Rightarrow> policy option \<Rightarrow> graph_row \<Rightarrow> node_row \<Rightarrow> task_row" where
  "node_task i now p r n = \<lparr>t_id = i, t_status = TPending, t_func = n_func n, t_args = n_args n,
     t_kwargs = n_kwargs n,
     t_success_hook = opt_str (n_options n) ''success_hook'',
     t_success_args = opt_list (n_options n) ''success_args'',
     t_success_kwargs = opt_dict (n_options n) ''success_kwargs'',
     t_failure_hook = opt_str (n_options n) ''failure_hook'',
     t_failure_args = opt_list (n_options n) ''failure_args'',
     t_failure_kwargs = opt_dict (n_options n) ''failure_kwargs'',
     t_hook_context = (case dict_get (n_options n) ''hook_context'' of Some v \<Rightarrow> truthy v | None \<Rightarrow> False),
     t_retry_policy = (case p of Some p \<Rightarrow> to_dict p | None \<Rightarrow> []),
     t_stall_after = opt_secs (n_options n) ''stall_after'', t_idem_key = None,
     t_priority = opt_priority (n_options n), t_progress = None, t_iter = None, t_batch = None,
     t_graph_node = Some (n_id n), t_subject_type = g_subject_type r, t_subject_id = g_subject_id r,
     t_graph_id = Some (g_id r), t_node = Some (n_key n), t_created = now, t_updated = now\<rparr>"

definition insert_task :: "task_row \<Rightarrow> db \<Rightarrow> db" where
  "insert_task t d = d\<lparr>d_tasks := d_tasks d @ [t], d_next := Suc (d_next d)\<rparr>"

definition dispatch_node :: "world \<Rightarrow> time \<Rightarrow> graph_row \<Rightarrow> node_row \<Rightarrow> db \<Rightarrow> db res" where
  "dispatch_node w now r n d =
     rbind (from_options (w_retry_defaults w) (n_options n)) (\<lambda>p.
     let cluster = (case given (opt_str (n_options n) ''cluster'') of Some c \<Rightarrow> Some c
                    | None \<Rightarrow> g_cluster r);
         i = d_next d;
         d = insert_task (node_task i now p r n) d in
     rbind (schedule_attempt now i 1 now cluster None None d) (\<lambda>(_, d).
     Inr (upd_nodes (\<lambda>x. n_id x = n_id n \<and> n_status x = NPending)
            (\<lambda>x. x\<lparr>n_task := Some i, n_status := NRunning, n_dispatched_at := Some now\<rparr>) d)))"

fun dispatch_all :: "world \<Rightarrow> time \<Rightarrow> graph_row \<Rightarrow> node_row list \<Rightarrow> db \<Rightarrow> db res" where
  "dispatch_all w now r [] d = Inr d"
| "dispatch_all w now r (n # ns) d =
     rbind (if n_gate n
            then Inr (upd_nodes (\<lambda>x. n_id x = n_id n \<and> n_status x = NPending)
                   (\<lambda>x. x\<lparr>n_status := NWaiting\<rparr>) d)
            else dispatch_node w now r n d)
       (dispatch_all w now r ns)"

definition dispatch_frontier :: "world \<Rightarrow> time \<Rightarrow> id \<Rightarrow> db \<Rightarrow> db res" where
  "dispatch_frontier w now g d =
     rbind (locked g d) (\<lambda>r.
     if g_status r \<noteq> GRunning then Inr d else dispatch_all w now r (ready_nodes g d) d)"

section \<open>Completions\<close>

definition task_outcome :: "task_status \<Rightarrow> node_status option" where
  "task_outcome s = (case s of TSucceeded \<Rightarrow> Some NSucceeded | TFailed \<Rightarrow> Some NFailed
     | TExhausted \<Rightarrow> Some NFailed | _ \<Rightarrow> None)"

text \<open>
  \<open>record_completion\<close> is the transaction of \<^verbatim>\<open>handle_node_completion\<close>, for
  the node row \<open>n\<close> and the outcome of the task that completed.
\<close>

definition record_completion ::
  "world \<Rightarrow> time \<Rightarrow> id \<Rightarrow> id \<Rightarrow> id \<Rightarrow> node_status \<Rightarrow> db \<Rightarrow> (graph_row option \<times> db) res" where
  "record_completion w now g n task out d =
     rbind (locked g d) (\<lambda>r.
     if Option.bind (get_node n d) n_task \<noteq> Some task then Inr (None, d)
     else
       (let P = (\<lambda>x. n_id x = n \<and> n_settled_at x = None) in
        if hits P (d_nodes d) = 0 then Inr (None, d)
        else
          (let d = upd_nodes P (\<lambda>x. x\<lparr>n_status := out, n_settled_at := Some now\<rparr>) d in
           case get_node n d of
             None \<Rightarrow> Inl DoesNotExist
           | Some x \<Rightarrow>
               (let d = emit (NodeSettled g (n_key x) (n_generation x) (n_status x)) d in
                if g_status r \<noteq> GRunning then Inr (None, d)
                else rbind (dispatch_frontier w now g d) (maybe_settle w now r)))))"

definition handle_node_completion :: "world \<Rightarrow> time \<Rightarrow> task_row \<Rightarrow> db \<Rightarrow> db res" where
  "handle_node_completion w now t d =
     (case Option.bind (t_graph_node t) (\<lambda>n. get_node n d) of
        None \<Rightarrow> Inr d
      | Some n \<Rightarrow>
          (case task_outcome (t_status t) of
             None \<Rightarrow> Inr d
           | Some out \<Rightarrow>
               rbind (record_completion w now (n_graph n) (n_id n) (t_id t) out d) (\<lambda>(s, d).
               Inr (dispatch_settled_hook w now s d))))"

section \<open>Operator transitions\<close>

definition skip_node :: "world \<Rightarrow> time \<Rightarrow> id \<Rightarrow> string \<Rightarrow> string option \<Rightarrow> db \<Rightarrow> (graph_row option \<times> db) res" where
  "skip_node w now g k reason d =
     rbind (locked g d) (\<lambda>r.
     rbind (guard (g_status r = GRunning) (GraphError ''its nodes are final'')) (\<lambda>_.
     case node_by_key g k d of
       None \<Rightarrow> Inl (GraphError ''graph declared no such node'')
     | Some n \<Rightarrow>
         (let P = (\<lambda>x. n_graph x = g \<and> n_key x = k \<and> n_status x = NPending) in
          if hits P (d_nodes d) = 0 then Inl (GraphError ''only a pending node may be skipped'')
          else
            (let d = upd_nodes P (\<lambda>x. x\<lparr>n_status := NSkipped, n_skip_reason := reason,
                       n_settled_at := Some now\<rparr>) d;
                 d = emit (NodeSettled g k (n_generation n) NSkipped) d in
             rbind (dispatch_frontier w now g d) (maybe_settle w now r)))))"

definition skip :: "world \<Rightarrow> time \<Rightarrow> id \<Rightarrow> string \<Rightarrow> string option \<Rightarrow> db \<Rightarrow> db res" where
  "skip w now g k reason d =
     rbind (skip_node w now g k reason d) (\<lambda>(s, d). Inr (dispatch_settled_hook w now s d))"

definition cancel :: "world \<Rightarrow> time \<Rightarrow> id \<Rightarrow> db \<Rightarrow> db res" where
  "cancel w now g d =
     rbind (locked g d) (\<lambda>r.
     rbind (settle w now r GCancelled d) (\<lambda>(s, d).
     case s of
       None \<Rightarrow> Inl (GraphError ''graph is already settled'')
     | Some _ \<Rightarrow> Inr (dispatch_settled_hook w now s d)))"

definition approve :: "world \<Rightarrow> time \<Rightarrow> id \<Rightarrow> string \<Rightarrow> db \<Rightarrow> db res" where
  "approve w now g k d =
     rbind (locked g d) (\<lambda>r.
     rbind (guard (live_graph (g_status r)) (GraphError ''its nodes are final'')) (\<lambda>_.
     case node_by_key g k d of
       None \<Rightarrow> Inl (GraphError ''graph has no such node'')
     | Some n \<Rightarrow>
         rbind (guard (n_status n = NWaiting) (GraphError ''not waiting for approval'')) (\<lambda>_.
         let d = upd_nodes (\<lambda>x. n_id x = n_id n) (\<lambda>x. x\<lparr>n_status := NPending\<rparr>) d in
         rbind (dispatch_node w now r (n\<lparr>n_status := NPending\<rparr>) d) (\<lambda>d.
         Inr (if g_status r = GWaiting
              then upd_graphs (\<lambda>x. g_id x = g) (\<lambda>x. x\<lparr>g_status := GRunning, g_updated := now\<rparr>) d
              else d)))))"

definition reject_node :: "world \<Rightarrow> time \<Rightarrow> id \<Rightarrow> string \<Rightarrow> string option \<Rightarrow> db \<Rightarrow> (graph_row option \<times> db) res" where
  "reject_node w now g k reason d =
     rbind (locked g d) (\<lambda>r.
     rbind (guard (live_graph (g_status r)) (GraphError ''its nodes are final'')) (\<lambda>_.
     case node_by_key g k d of
       None \<Rightarrow> Inl (GraphError ''graph has no such node'')
     | Some n \<Rightarrow>
         rbind (guard (n_status n = NWaiting) (GraphError ''not waiting for approval'')) (\<lambda>_.
         let d = upd_nodes (\<lambda>x. n_id x = n_id n) (\<lambda>x. x\<lparr>n_status := NCancelled,
                   n_settled_at := Some now, n_skip_reason := reason\<rparr>) d;
             d = (if g_status r = GWaiting
                  then upd_graphs (\<lambda>x. g_id x = g) (\<lambda>x. x\<lparr>g_status := GRunning\<rparr>) d else d) in
         maybe_settle w now (r\<lparr>g_status := GRunning\<rparr>) d)))"

definition reject :: "world \<Rightarrow> time \<Rightarrow> id \<Rightarrow> string \<Rightarrow> string option \<Rightarrow> db \<Rightarrow> db res" where
  "reject w now g k reason d =
     rbind (reject_node w now g k reason d) (\<lambda>(s, d). Inr (dispatch_settled_hook w now s d))"

end
