(* ===== verification/Qraft_GraphOps.thy ===== *)
theory Qraft_GraphOps
  imports Qraft_Graph
begin

text \<open>
  The rest of \<^verbatim>\<open>qraft/graphs.py\<close>: resuming a settled graph, publishing a
  node's output, starting a plan, correlating members with a graph, and the two sweeps the
  reaper runs.
\<close>

section \<open>Resume\<close>

definition after_edges :: "id \<Rightarrow> db \<Rightarrow> edges" where
  "after_edges g d = map (\<lambda>n. (n_key n, n_after n)) (graph_nodes g d)"

definition dependents_of :: "edges \<Rightarrow> string \<Rightarrow> string list" where
  "dependents_of e k = map fst (filter (\<lambda>kv. k \<in> set (snd kv)) e)"

text \<open>The stack walk of \<^verbatim>\<open>_rerun_closure\<close>; the top of the stack is the head.\<close>

function closure_loop :: "edges \<Rightarrow> string list \<Rightarrow> string list \<Rightarrow> string list" where
  "closure_loop e [] closure = closure"
| "closure_loop e (k # stack) closure =
     (if k \<in> set closure then closure_loop e stack closure
      else closure_loop e (rev (dependents_of e k) @ stack) (k # closure))"
  by pat_completeness auto

termination
proof (relation "measures [\<lambda>(e, stack, closure). card ((fst ` set e \<union> set stack) - set closure),
    \<lambda>(e, stack, closure). length stack]", goal_cases)
  case (2 e k stack closure)
  have "(fst ` set e \<union> set stack) - set closure \<subseteq> (fst ` set e \<union> set (k # stack)) - set closure" by auto
  then have "card ((fst ` set e \<union> set stack) - set closure)
      \<le> card ((fst ` set e \<union> set (k # stack)) - set closure)"
    by (intro card_mono) auto
  then show ?case by (auto simp: le_less)
next
  case (3 e k stack closure)
  have "(fst ` set e \<union> set (rev (dependents_of e k) @ stack)) - set (k # closure)
      \<subset> (fst ` set e \<union> set (k # stack)) - set closure"
    using 3 by (auto simp: dependents_of_def)
  then have "card ((fst ` set e \<union> set (rev (dependents_of e k) @ stack)) - set (k # closure))
      < card ((fst ` set e \<union> set (k # stack)) - set closure)"
    by (intro psubset_card_mono) auto
  then show ?case by simp
qed simp

declare closure_loop.simps [simp del]

definition has_status :: "id \<Rightarrow> db \<Rightarrow> node_status \<Rightarrow> string \<Rightarrow> bool" where
  "has_status g d s k = exists_where (\<lambda>n. n_graph n = g \<and> n_key n = k \<and> n_status n = s) (d_nodes d)"

definition rerun_closure :: "id \<Rightarrow> string list option \<Rightarrow> db \<Rightarrow> string list res" where
  "rerun_closure g nodes d =
     (let keys = map n_key (graph_nodes g d) in
      rbind (case nodes of
          None \<Rightarrow> Inr (filter (has_status g d NFailed) keys)
        | Some ks \<Rightarrow> rbind (guard (set ks \<subseteq> set keys) (GraphError ''graph has no such node(s)''))
                       (\<lambda>_. Inr ks)) (\<lambda>named.
      Inr (filter (\<lambda>k. \<not> has_status g d NPending k)
             (closure_loop (after_edges g d) named []))))"

definition preview_resume :: "id \<Rightarrow> string list option \<Rightarrow> db \<Rightarrow> (string list \<times> string list) res" where
  "preview_resume g nodes d =
     rbind (locked g d) (\<lambda>_.
     rbind (rerun_closure g nodes d) (\<lambda>rerun.
     Inr (rerun, filter (\<lambda>k. k \<notin> set rerun) (map n_key (ordered_nodes g d)))))"

definition reset_node :: "node_row \<Rightarrow> node_row" where
  "reset_node n = n\<lparr>n_status := NPending, n_task := None, n_settled_at := None,
     n_dispatched_at := None, n_skip_reason := None, n_receipt := None, n_receipt_attempt := None,
     n_generation := n_generation n + 1\<rparr>"

definition reopen_graph :: "time \<Rightarrow> graph_row \<Rightarrow> graph_row" where
  "reopen_graph now x = x\<lparr>g_status := GRunning, g_settled_at := None, g_summary := None,
     g_overdue_at := None, g_resumed_at := Some now, g_generation := g_generation x + 1,
     g_updated := now\<rparr>"

definition resume :: "world \<Rightarrow> time \<Rightarrow> id \<Rightarrow> string list option \<Rightarrow> db \<Rightarrow> (nat \<times> db) res" where
  "resume w now g nodes d =
     rbind (locked g d) (\<lambda>r.
     rbind (guard (\<not> live_graph (g_status r)) (GraphError ''resume is for a settled graph'')) (\<lambda>_.
     rbind (guard (g_status r \<noteq> GCancelled) (GraphError ''graph was cancelled'')) (\<lambda>_.
     rbind (guard (\<not> (g_status r = GSucceeded \<and> (nodes = None \<or> nodes = Some [])))
              (GraphError ''name the nodes to re-run explicitly'')) (\<lambda>_.
     rbind (rerun_closure g nodes d) (\<lambda>rerun.
     rbind (guard (rerun \<noteq> []) (GraphError ''graph has nothing to re-run'')) (\<lambda>_.
     rbind (record_settlement r d) (\<lambda>d.
     let d = upd_nodes (\<lambda>n. n_graph n = g \<and> n_key n \<in> set rerun) reset_node d;
         d = upd_graphs (\<lambda>x. g_id x = g) (reopen_graph now) d in
     rbind (dispatch_frontier w now g d) (\<lambda>d.
     rbind (locked g d) (\<lambda>r.
     rbind (maybe_settle w now r d) (\<lambda>(_, d).
     Inr (card (set rerun), d)))))))))))"

section \<open>Publishing\<close>

text \<open>
  The block under \<^verbatim>\<open>with publish()\<close> is application code: a function of the
  database that raises, or ends having called \<^verbatim>\<open>succeed\<close> with a payload
  (\<open>Some\<close>) or not (\<open>None\<close>).
\<close>

type_synonym body = "db \<Rightarrow> (dict option \<times> db) res"

definition publish :: "time \<Rightarrow> attempt_row option \<Rightarrow> body \<Rightarrow> db \<Rightarrow> db res" where
  "publish now attempt body d =
     (case Option.bind attempt (\<lambda>a. Option.bind (get_task (a_task a) d) t_graph_node) of
        None \<Rightarrow> rbind (body d) (\<lambda>(_, d). Inr d)
      | Some n \<Rightarrow>
          (case get_node n d of
             None \<Rightarrow> Inl DoesNotExist
           | Some x \<Rightarrow>
               (let a = the attempt in
                rbind (guard (n_task x = Some (a_task a)) (GraphError ''this attempt may not publish'')) (\<lambda>_.
                rbind (guard (n_receipt x = None) (GraphError ''already published a receipt'')) (\<lambda>_.
                rbind (body d) (\<lambda>(payload, d).
                case payload of
                  None \<Rightarrow> Inl (GraphError ''left its publication without calling succeed()'')
                | Some p \<Rightarrow>
                    Inr (upd_attempts (\<lambda>b. a_id b = a_id a) (\<lambda>b. b\<lparr>a_committed_at := Some now\<rparr>)
                          (upd_nodes (\<lambda>y. n_id y = n \<and> n_receipt y = None)
                            (\<lambda>y. y\<lparr>n_receipt := Some p, n_receipt_attempt := Some (a_id a)\<rparr>) d))))))))"

section \<open>Starting a plan\<close>

record plan =
  pl_subject_type :: "string option"
  pl_subject_id :: "string option"
  pl_kind :: "string option"
  pl_revision :: "string option"
  pl_metadata :: "pyval option"
  pl_started_at :: "time option"
  pl_on_settled :: "string option"
  pl_on_settled_kwargs :: dict
  pl_previous :: "id option"
  pl_budgets :: "dict option"
  pl_cluster :: "string option"
  pl_nodes :: "node_spec list"

definition plan_graph :: "id \<Rightarrow> time \<Rightarrow> plan \<Rightarrow> dict option \<Rightarrow> string option \<Rightarrow> string \<Rightarrow> graph_row" where
  "plan_graph i now p budgets rk h = \<lparr>g_id = i, g_kind = pl_kind p, g_revision = pl_revision p,
     g_metadata = pl_metadata p, g_previous = pl_previous p, g_status = GRunning,
     g_generation = 1, g_cluster = pl_cluster p,
     g_started = (case pl_started_at p of Some t \<Rightarrow> t | None \<Rightarrow> now), g_settled_at = None,
     g_resumed_at = None, g_overdue_at = None, g_on_settled = pl_on_settled p,
     g_on_settled_kwargs = pl_on_settled_kwargs p, g_budgets = budgets, g_summary = None,
     g_request_key = rk, g_plan_hash = Some h, g_subject_type = pl_subject_type p,
     g_subject_id = pl_subject_id p, g_created = now, g_updated = now\<rparr>"

definition plan_node :: "id \<Rightarrow> id \<Rightarrow> nat \<Rightarrow> nat \<Rightarrow> node_spec \<Rightarrow> node_row" where
  "plan_node i g pos depth s = \<lparr>n_id = i, n_graph = g, n_key = ns_key s, n_position = pos,
     n_depth = depth, n_after = ns_after s, n_func = ns_func s, n_args = ns_args s,
     n_kwargs = ns_kwargs s, n_options = ns_options s, n_recovery = ns_recovery s,
     n_generation = 1, n_gate = ns_gate s, n_receipt = None, n_receipt_attempt = None,
     n_task = None, n_status = NPending, n_skip_reason = None, n_dispatched_at = None,
     n_settled_at = None\<rparr>"

text \<open>The node rows in declaration order: ids from \<open>i\<close>, positions from \<open>pos\<close>.\<close>

fun plan_rows :: "depth_memo \<Rightarrow> id \<Rightarrow> id \<Rightarrow> nat \<Rightarrow> node_spec list \<Rightarrow> node_row list" where
  "plan_rows m i g pos [] = []"
| "plan_rows m i g pos (s # ss) =
     plan_node i g pos (case map_of m (ns_key s) of Some v \<Rightarrow> v | None \<Rightarrow> 0) s
       # plan_rows m (Suc i) g (Suc pos) ss"

text \<open>
  \<open>hash\<close> is the SHA-256 of the plan's JSON. The rows are written only when no graph holds the
  request key; two concurrent starts meet the unique constraint on it.
\<close>

definition start ::
  "world \<Rightarrow> (node_spec list \<Rightarrow> string) \<Rightarrow> time \<Rightarrow> plan \<Rightarrow> string option \<Rightarrow> db \<Rightarrow> (id \<times> db) res" where
  "start w hash now p rk d =
     rbind (guard (pl_nodes p \<noteq> []) (GraphError ''a graph must declare at least one node'')) (\<lambda>_.
     rbind (guard (distinct (map ns_key (pl_nodes p))) (GraphError ''node keys must be unique'')) (\<lambda>_.
     rbind (validate_topology (pl_nodes p)) (\<lambda>_.
     case compute_depths (edges_of (pl_nodes p)) of
       None \<Rightarrow> Inl KeyError
     | Some m \<Rightarrow>
     rbind (validated_budgets (pl_budgets p)) (\<lambda>budgets.
     let h = hash (pl_nodes p);
         existing = (case given rk of None \<Rightarrow> None
           | Some k \<Rightarrow> find (\<lambda>x. g_request_key x = Some k) (d_graphs d)) in
     case existing of
       Some x \<Rightarrow>
         if g_plan_hash x \<noteq> Some h
         then Inl (GraphError ''request_key already used with a different plan'')
         else Inr (g_id x, d)
     | None \<Rightarrow>
         if rk \<noteq> None \<and> exists_where (\<lambda>x. g_request_key x = rk) (d_graphs d) then Inl IntegrityError
         else if pl_previous p \<noteq> None \<and> Option.bind (pl_previous p) (\<lambda>i. get_graph i d) = None
         then Inl IntegrityError
         else
           (let g = d_next d;
                r = plan_graph g now p budgets rk h;
                rows = plan_rows m (Suc g) g 0 (pl_nodes p);
                d = d\<lparr>d_graphs := d_graphs d @ [r], d_nodes := d_nodes d @ rows,
                      d_next := Suc g + length rows\<rparr> in
            rbind (dispatch_frontier w now g d) (\<lambda>d.
            rbind (maybe_settle w now r d) (\<lambda>(_, d). Inr (g, d))))))))"

section \<open>Correlating members with a graph\<close>

definition parse_subject :: "(string \<times> string) option \<Rightarrow> (string option \<times> string option) res" where
  "parse_subject s =
     (case s of
        None \<Rightarrow> Inr (None, None)
      | Some (ty, i) \<Rightarrow>
          if ty = [] then Inl (ValueError ''subject must name both a type and an id'')
          else Inr (Some ty, Some i))"

record labels =
  lb_graph :: "id option"
  lb_node :: "string option"
  lb_subject_type :: "string option"
  lb_subject_id :: "string option"

definition member_labels ::
  "id option \<Rightarrow> string option \<Rightarrow> string option \<Rightarrow> string option \<Rightarrow> db \<Rightarrow> labels res" where
  "member_labels graph node st si d =
     (case graph of
        None \<Rightarrow>
          if given node \<noteq> None then Inl (GraphError ''node was given without a graph'')
          else Inr \<lparr>lb_graph = None, lb_node = None, lb_subject_type = st, lb_subject_id = si\<rparr>
      | Some g \<Rightarrow>
          rbind (locked g d) (\<lambda>r.
          rbind (guard (g_status r = GRunning) (GraphError ''a settled graph is never reopened'')) (\<lambda>_.
          rbind (guard (case given node of None \<Rightarrow> True | Some k \<Rightarrow> node_by_key g k d \<noteq> None)
                   (GraphError ''graph declared no such node'')) (\<lambda>_.
          if st = None \<and> si = None
          then Inr \<lparr>lb_graph = Some g, lb_node = node, lb_subject_type = g_subject_type r,
                     lb_subject_id = g_subject_id r\<rparr>
          else if st \<noteq> g_subject_type r \<or> si \<noteq> g_subject_id r
          then Inl (GraphError ''a graph implies its subject'')
          else Inr \<lparr>lb_graph = Some g, lb_node = node, lb_subject_type = st, lb_subject_id = si\<rparr>))))"

definition bind_subject :: "time \<Rightarrow> id \<Rightarrow> (string \<times> string) option \<Rightarrow> db \<Rightarrow> db res" where
  "bind_subject now g subject d =
     rbind (parse_subject subject) (\<lambda>(st, si).
     rbind (guard (st \<noteq> None) (GraphError ''bind_subject needs a pair'')) (\<lambda>_.
     rbind (locked g d) (\<lambda>r.
     rbind (guard (g_status r = GRunning) (GraphError ''a settled graph's subject is final'')) (\<lambda>_.
     rbind (guard (g_subject_type r = None \<and> g_subject_id r = None)
              (GraphError ''a graph's subject is declared once'')) (\<lambda>_.
     let d = upd_graphs (\<lambda>x. g_id x = g) (\<lambda>x. x\<lparr>g_subject_type := st, g_subject_id := si,
               g_updated := now\<rparr>) d;
         d = upd_tasks (\<lambda>t. t_graph_id t = Some g \<and> t_subject_type t = None)
               (\<lambda>t. t\<lparr>t_subject_type := st, t_subject_id := si\<rparr>) d;
         d = upd_chains (\<lambda>c. c_graph_id c = Some g \<and> c_subject_type c = None)
               (\<lambda>c. c\<lparr>c_subject_type := st, c_subject_id := si\<rparr>) d in
     Inr (upd_pars (\<lambda>c. p_graph_id c = Some g \<and> p_subject_type c = None)
               (\<lambda>c. c\<lparr>p_subject_type := st, p_subject_id := si\<rparr>) d))))))"

section \<open>Sweeps\<close>

text \<open>Graphs settled before the outbox existed get their settlement row.\<close>

definition needs_outbox :: "time \<Rightarrow> db \<Rightarrow> graph_row \<Rightarrow> bool" where
  "needs_outbox cutoff d r \<longleftrightarrow>
     (case g_settled_at r of Some t \<Rightarrow> t < cutoff | None \<Rightarrow> False) \<and> given (g_on_settled r) \<noteq> None \<and>
     \<not> exists_where (\<lambda>s. se_graph s = g_id r) (d_settlements d)"

fun backfill :: "graph_row list \<Rightarrow> db \<Rightarrow> db res" where
  "backfill [] d = Inr d"
| "backfill (r # rs) d =
     rbind (locked (g_id r) d) (\<lambda>x.
     rbind (if g_settled_at x \<noteq> None then record_settlement x d else Inr d) (backfill rs))"

definition pending_settlements :: "time \<Rightarrow> db \<Rightarrow> settlement_row list" where
  "pending_settlements cutoff d =
     filter (\<lambda>s. se_created s < cutoff \<and>
       \<not> exists_where (\<lambda>h. wh_type h = GraphWf \<and> wh_hook h = OnSettled \<and> wh_workflow h = se_graph s \<and>
            wh_generation h = se_generation s) (d_wf_hooks d)) (d_settlements d)"

definition replay_settled_hooks :: "world \<Rightarrow> time \<Rightarrow> secs \<Rightarrow> db \<Rightarrow> (nat \<times> db) res" where
  "replay_settled_hooks w now grace d =
     (let cutoff = now - grace in
      rbind (backfill (filter (needs_outbox cutoff d) (d_graphs d)) d) (\<lambda>d.
      let ss = pending_settlements cutoff d in
      Inr (length ss, fold (dispatch_settlement w now) ss d)))"

definition overdue :: "time \<Rightarrow> graph_row \<Rightarrow> bool" where
  "overdue cutoff r \<longleftrightarrow> g_status r = GRunning \<and> g_overdue_at r = None \<and> g_started r < cutoff"

fun flag_each :: "time \<Rightarrow> graph_row list \<Rightarrow> db \<Rightarrow> nat \<times> db" where
  "flag_each now [] d = (0, d)"
| "flag_each now (r # rs) d =
     (let P = (\<lambda>x. g_id x = g_id r \<and> g_overdue_at x = None) in
      if hits P (d_graphs d) = 0 then flag_each now rs d
      else (let (n, d) = flag_each now rs
                  (emit (GraphOverdue (g_id r)) (upd_graphs P (g_overdue_at_update (\<lambda>_. Some now)) d))
            in (Suc n, d)))"

definition flag_overdue :: "world \<Rightarrow> time \<Rightarrow> db \<Rightarrow> nat \<times> db" where
  "flag_overdue w now d =
     (case w_overdue_after w of
        None \<Rightarrow> (0, d)
      | Some after \<Rightarrow>
          if after = 0 then (0, d)
          else flag_each now (filter (overdue (now - after)) (d_graphs d)) d)"

end
