(* ===== verification/Qraft_GraphInv.thy ===== *)
theory Qraft_GraphInv
  imports Qraft_GraphOps
begin

text \<open>
  The state machine of a graph. \<open>node_trans\<close> is the specification of what may happen to one
  node; \<open>nodes_ok\<close> the invariant of the node table; the lemmas show that every operation of
  \<^verbatim>\<open>qraft/graphs.py\<close> moves nodes only along \<open>node_trans\<close>, or resets a set of
  nodes that is closed under what depends on it.
\<close>

section \<open>The specification of node transitions\<close>

definition rel_in :: "node_row list \<Rightarrow> id \<Rightarrow> string \<Rightarrow> bool" where
  "rel_in ns g dep \<longleftrightarrow> (\<exists>m \<in> set ns. n_graph m = g \<and> n_key m = dep \<and> releases (n_status m))"

definition rel_all :: "node_row list \<Rightarrow> node_row \<Rightarrow> bool" where
  "rel_all ns n \<longleftrightarrow> (\<forall>dep \<in> set (n_after n). rel_in ns (n_graph n) dep)"

definition same_static :: "node_row \<Rightarrow> node_row \<Rightarrow> bool" where
  "same_static x y \<longleftrightarrow> n_id y = n_id x \<and> n_graph y = n_graph x \<and> n_key y = n_key x \<and>
     n_after y = n_after x \<and> n_depth y = n_depth x"

text \<open>A node that was let through its dependencies.\<close>

definition active :: "node_status \<Rightarrow> bool" where
  "active s \<longleftrightarrow> s \<in> {NRunning, NWaiting, NSucceeded, NFailed}"

definition node_shape :: "node_row \<Rightarrow> bool" where
  "node_shape n \<longleftrightarrow>
     (n_task n \<noteq> None \<longleftrightarrow> n_status n \<in> {NRunning, NSucceeded, NFailed}) \<and>
     (n_settled_at n = None \<longleftrightarrow> n_status n \<in> {NPending, NRunning, NWaiting})"

inductive status_move :: "bool \<Rightarrow> node_status \<Rightarrow> node_status \<Rightarrow> bool" for released where
  stay: "status_move released s s"
| run: "released \<Longrightarrow> status_move released NPending NRunning"
| park: "released \<Longrightarrow> status_move released NPending NWaiting"
| approved: "status_move released NWaiting NRunning"
| rejected: "status_move released NWaiting NCancelled"
| skipped: "status_move released NPending NSkipped"
| succeeded: "status_move released NRunning NSucceeded"
| failed: "status_move released NRunning NFailed"

inductive_cases status_moveE: "status_move b s t"

definition node_trans :: "node_row list \<Rightarrow> node_row \<Rightarrow> node_row \<Rightarrow> bool" where
  "node_trans ns x y \<longleftrightarrow> same_static x y \<and> (node_shape x \<longrightarrow> node_shape y) \<and>
     status_move (rel_all ns x) (n_status x) (n_status y)"

definition nodes_ok :: "node_row list \<Rightarrow> bool" where
  "nodes_ok ns \<longleftrightarrow> distinct (map n_id ns) \<and>
     (\<forall>x \<in> set ns. \<forall>y \<in> set ns. n_graph x = n_graph y \<longrightarrow> n_key x = n_key y \<longrightarrow> x = y) \<and>
     (\<forall>x \<in> set ns. node_shape x \<and> (active (n_status x) \<longrightarrow> rel_all ns x) \<and>
        (\<forall>dep \<in> set (n_after x). \<exists>m \<in> set ns. n_graph m = n_graph x \<and> n_key m = dep \<and>
           n_depth m < n_depth x))"

lemma same_static_refl [simp]: "same_static x x"
  by (simp add: same_static_def)

lemma node_trans_refl [simp]: "node_trans ns x x"
  by (simp add: node_trans_def stay)

lemma move_releases: "status_move b s t \<Longrightarrow> releases s \<Longrightarrow> releases t"
  by (auto elim: status_moveE simp: releases_def)

lemma move_active: "status_move b s t \<Longrightarrow> active t \<Longrightarrow> active s \<or> b"
  by (auto elim: status_moveE simp: active_def)

lemma node_trans_static: "node_trans ns x y \<Longrightarrow> same_static x y"
  by (simp add: node_trans_def)

lemma rel_in_map:
  assumes "\<forall>x \<in> set ns. node_trans ns0 x (F x)" "rel_in ns g dep"
  shows "rel_in (map F ns) g dep"
proof -
  from assms(2) obtain m where m: "m \<in> set ns" "n_graph m = g" "n_key m = dep" "releases (n_status m)"
    by (auto simp: rel_in_def)
  with assms(1) have "n_graph (F m) = g" "n_key (F m) = dep" "releases (n_status (F m))"
    using move_releases by (auto simp: node_trans_def same_static_def)
  with m(1) show ?thesis by (auto simp: rel_in_def)
qed

lemma rel_all_map:
  assumes "\<forall>x \<in> set ns. node_trans ns0 x (F x)" "rel_all ns x" "same_static x y"
  shows "rel_all (map F ns) y"
  using assms rel_in_map by (fastforce simp: rel_all_def same_static_def)

lemma distinct_ids_map:
  assumes "distinct (map f xs)" "\<And>x. x \<in> set xs \<Longrightarrow> f (F x) = f x"
  shows "distinct (map f (map F xs))"
proof -
  have "map f (map F xs) = map f xs" using assms(2) by (simp add: comp_def cong: map_cong)
  with assms(1) show ?thesis by (simp only:)
qed

text \<open>Moving any number of nodes along the specification keeps the invariant.\<close>

lemma nodes_ok_map:
  assumes ok: "nodes_ok ns" and F: "\<forall>x \<in> set ns. node_trans ns x (F x)"
  shows "nodes_ok (map F ns)"
proof -
  have st: "same_static x (F x)" if "x \<in> set ns" for x using F that node_trans_static by blast
  have ids: "distinct (map n_id (map F ns))"
    by (rule distinct_ids_map) (use ok st in \<open>auto simp: nodes_ok_def same_static_def\<close>)
  have keys: "\<forall>x \<in> set (map F ns). \<forall>y \<in> set (map F ns). n_graph x = n_graph y \<longrightarrow> n_key x = n_key y \<longrightarrow> x = y"
    using ok st by (fastforce simp: nodes_ok_def same_static_def)
  have "node_shape (F x) \<and> (active (n_status (F x)) \<longrightarrow> rel_all (map F ns) (F x)) \<and>
      (\<forall>dep \<in> set (n_after (F x)). \<exists>m \<in> set (map F ns). n_graph m = n_graph (F x) \<and> n_key m = dep \<and>
         n_depth m < n_depth (F x))" if x: "x \<in> set ns" for x
  proof (intro conjI)
    show "node_shape (F x)" using ok F x by (auto simp: nodes_ok_def node_trans_def)
    have "active (n_status (F x)) \<Longrightarrow> rel_all ns x"
      using move_active ok F x by (fastforce simp: nodes_ok_def node_trans_def)
    then show "active (n_status (F x)) \<longrightarrow> rel_all (map F ns) (F x)"
      using rel_all_map [OF F _ st [OF x]] by blast
    show "\<forall>dep \<in> set (n_after (F x)). \<exists>m \<in> set (map F ns). n_graph m = n_graph (F x) \<and> n_key m = dep \<and>
         n_depth m < n_depth (F x)"
    proof
      fix dep assume "dep \<in> set (n_after (F x))"
      then have "dep \<in> set (n_after x)" using st [OF x] by (simp add: same_static_def)
      with ok x obtain m where "m \<in> set ns" "n_graph m = n_graph x" "n_key m = dep" "n_depth m < n_depth x"
        unfolding nodes_ok_def by blast
      then show "\<exists>m \<in> set (map F ns). n_graph m = n_graph (F x) \<and> n_key m = dep \<and> n_depth m < n_depth (F x)"
        using st [of m] st [OF x] by (intro bexI [of _ "F m"]) (auto simp: same_static_def)
    qed
  qed
  with ids keys show ?thesis by (auto simp: nodes_ok_def)
qed

lemma nodes_ok_upd:
  assumes "nodes_ok ns" "\<And>x. x \<in> set ns \<Longrightarrow> P x \<Longrightarrow> node_trans ns x (f x)"
  shows "nodes_ok (upd_where P f ns)"
  unfolding upd_where_def using assms by (intro nodes_ok_map) auto

text \<open>Resetting a set of keys of one graph that contains what ran downstream of it.\<close>

definition downstream_closed :: "node_row list \<Rightarrow> id \<Rightarrow> string set \<Rightarrow> bool" where
  "downstream_closed ns g K \<longleftrightarrow> (\<forall>n \<in> set ns. n_graph n = g \<longrightarrow>
     (\<exists>dep \<in> set (n_after n). dep \<in> K) \<longrightarrow> n_key n \<in> K \<or> n_status n = NPending)"

lemma nodes_ok_reset:
  assumes ok: "nodes_ok ns" and K: "downstream_closed ns g K"
  shows "nodes_ok (upd_where (\<lambda>n. n_graph n = g \<and> n_key n \<in> K) reset_node ns)"
proof -
  define F where "F = (\<lambda>n. if n_graph n = g \<and> n_key n \<in> K then reset_node n else n)"
  have eq: "upd_where (\<lambda>n. n_graph n = g \<and> n_key n \<in> K) reset_node ns = map F ns"
    by (simp add: upd_where_def F_def)
  have st: "same_static x (F x)" for x by (simp add: F_def same_static_def reset_node_def)
  have ids: "distinct (map n_id (map F ns))"
    by (rule distinct_ids_map) (use ok st in \<open>auto simp: nodes_ok_def same_static_def\<close>)
  have keys: "\<forall>x \<in> set (map F ns). \<forall>y \<in> set (map F ns). n_graph x = n_graph y \<longrightarrow> n_key x = n_key y \<longrightarrow> x = y"
  proof (clarsimp)
    fix x y assume "x \<in> set ns" "y \<in> set ns" "n_graph (F x) = n_graph (F y)" "n_key (F x) = n_key (F y)"
    then have "x = y" using ok st [of x] st [of y] unfolding nodes_ok_def same_static_def by metis
    then show "F x = F y" by simp
  qed
  have "node_shape (F x) \<and> (active (n_status (F x)) \<longrightarrow> rel_all (map F ns) (F x)) \<and>
      (\<forall>dep \<in> set (n_after (F x)). \<exists>m \<in> set (map F ns). n_graph m = n_graph (F x) \<and> n_key m = dep \<and>
         n_depth m < n_depth (F x))" if x: "x \<in> set ns" for x
  proof (intro conjI)
    show "node_shape (F x)"
      using ok x by (auto simp: nodes_ok_def F_def reset_node_def node_shape_def)
    show "active (n_status (F x)) \<longrightarrow> rel_all (map F ns) (F x)"
    proof
      assume act: "active (n_status (F x))"
      then have out: "\<not> (n_graph x = g \<and> n_key x \<in> K)"
        by (auto simp: F_def reset_node_def active_def split: if_splits)
      then have same: "F x = x" by (auto simp: F_def)
      then have rel: "rel_all ns x" using act ok x by (auto simp: nodes_ok_def)
      have "rel_in (map F ns) (n_graph x) dep" if dep: "dep \<in> set (n_after x)" for dep
      proof -
        from rel dep obtain m where m: "m \<in> set ns" "n_graph m = n_graph x" "n_key m = dep"
          "releases (n_status m)" by (auto simp: rel_all_def rel_in_def)
        have "\<not> (n_graph m = g \<and> n_key m \<in> K)"
        proof
          assume "n_graph m = g \<and> n_key m \<in> K"
          with K x m dep have "n_key x \<in> K \<or> n_status x = NPending"
            unfolding downstream_closed_def by metis
          then show False
            using act same out m \<open>n_graph m = g \<and> n_key m \<in> K\<close> by (auto simp: active_def)
        qed
        then have "F m = m" by (auto simp: F_def)
        with m show ?thesis unfolding rel_in_def by (metis image_eqI list.set_map)
      qed
      then show "rel_all (map F ns) (F x)" by (simp add: rel_all_def same)
    qed
    show "\<forall>dep \<in> set (n_after (F x)). \<exists>m \<in> set (map F ns). n_graph m = n_graph (F x) \<and> n_key m = dep \<and>
         n_depth m < n_depth (F x)"
    proof
      fix dep assume "dep \<in> set (n_after (F x))"
      then have "dep \<in> set (n_after x)" using st [of x] by (simp add: same_static_def)
      with ok x obtain m where "m \<in> set ns" "n_graph m = n_graph x" "n_key m = dep" "n_depth m < n_depth x"
        unfolding nodes_ok_def by blast
      then show "\<exists>m \<in> set (map F ns). n_graph m = n_graph (F x) \<and> n_key m = dep \<and> n_depth m < n_depth (F x)"
        using st [of m] st [of x] by (intro bexI [of _ "F m"]) (auto simp: same_static_def)
    qed
  qed
  with ids keys show ?thesis unfolding eq by (auto simp: nodes_ok_def)
qed

section \<open>The closure of a resume\<close>

definition dep_edge :: "edges \<Rightarrow> (string \<times> string) set" where
  "dep_edge e = {(k, x). x \<in> set (dependents_of e k)}"

lemma closure_loop_mono: "set closure \<subseteq> set (closure_loop e stack closure)"
  by (induction e stack closure rule: closure_loop.induct) (auto simp: closure_loop.simps)

lemma closure_loop_stack: "set stack \<subseteq> set (closure_loop e stack closure)"
proof (induction e stack closure rule: closure_loop.induct)
  case (2 e k stack closure)
  then show ?case
    using closure_loop_mono [of closure e stack]
      closure_loop_mono [of "k # closure" e "rev (dependents_of e k) @ stack"]
    by (auto simp: closure_loop.simps)
qed (simp add: closure_loop.simps)

lemma closure_loop_closed:
  assumes "\<forall>k \<in> set closure. set (dependents_of e k) \<subseteq> set closure \<union> set stack"
  shows "\<forall>k \<in> set (closure_loop e stack closure).
    set (dependents_of e k) \<subseteq> set (closure_loop e stack closure)"
  using assms
proof (induction e stack closure rule: closure_loop.induct)
  case (2 e k stack closure)
  show ?case
  proof (cases "k \<in> set closure")
    case True
    with 2(1) 2(3) show ?thesis by (auto simp: closure_loop.simps)
  next
    case False
    have "\<forall>x \<in> set (k # closure). set (dependents_of e x)
        \<subseteq> set (k # closure) \<union> set (rev (dependents_of e k) @ stack)"
      using 2(3) by auto
    from 2(2) [OF False this] False show ?thesis by (simp add: closure_loop.simps)
  qed
qed (simp add: closure_loop.simps)

lemma closure_loop_reaches:
  "x \<in> set (closure_loop e stack closure) \<Longrightarrow>
   x \<in> set closure \<or> (\<exists>s \<in> set stack. (s, x) \<in> (dep_edge e)\<^sup>*)"
proof (induction e stack closure rule: closure_loop.induct)
  case (2 e k stack closure)
  show ?case
  proof (cases "k \<in> set closure")
    case True
    with 2 show ?thesis by (auto simp: closure_loop.simps)
  next
    case False
    with 2 have "x \<in> set (k # closure) \<or>
        (\<exists>s \<in> set (rev (dependents_of e k) @ stack). (s, x) \<in> (dep_edge e)\<^sup>*)"
      by (simp add: closure_loop.simps)
    then show ?thesis
      by (auto simp: dep_edge_def intro: converse_rtrancl_into_rtrancl)
  qed
qed (simp add: closure_loop.simps)

lemma closure_loop_exact:
  "set (closure_loop e stack []) = {x. \<exists>s \<in> set stack. (s, x) \<in> (dep_edge e)\<^sup>*}"
proof (intro set_eqI iffI)
  fix x assume "x \<in> {x. \<exists>s \<in> set stack. (s, x) \<in> (dep_edge e)\<^sup>*}"
  then obtain s where s: "s \<in> set stack" "(s, x) \<in> (dep_edge e)\<^sup>*" by auto
  have closed: "\<forall>k \<in> set (closure_loop e stack []).
      set (dependents_of e k) \<subseteq> set (closure_loop e stack [])"
    by (rule closure_loop_closed) simp
  from s(2) show "x \<in> set (closure_loop e stack [])"
    by (induction rule: rtrancl_induct)
      (use s(1) closure_loop_stack closed in \<open>auto simp: dep_edge_def\<close>)
qed (auto dest: closure_loop_reaches)

lemma rerun_closure_downstream:
  assumes "rerun_closure g nodes d = Inr K" and ok: "nodes_ok (d_nodes d)"
  shows "downstream_closed (d_nodes d) g (set K)"
  unfolding downstream_closed_def
proof (intro ballI impI)
  fix n assume n: "n \<in> set (d_nodes d)" "n_graph n = g" "\<exists>dep \<in> set (n_after n). dep \<in> set K"
  from assms(1) obtain named where K: "K = filter (\<lambda>k. \<not> has_status g d NPending k)
      (closure_loop (after_edges g d) named [])"
    by (auto simp: rerun_closure_def rbind_Inr Let_def split: option.splits)
  let ?C = "closure_loop (after_edges g d) named []"
  from n(3) K obtain dep where dep: "dep \<in> set (n_after n)" "dep \<in> set ?C" by auto
  have "n_key n \<in> set (dependents_of (after_edges g d) dep)"
    using n dep by (force simp: dependents_of_def after_edges_def graph_nodes_set)
  moreover have "\<forall>k \<in> set ?C. set (dependents_of (after_edges g d) k) \<subseteq> set ?C"
    by (rule closure_loop_closed) simp
  ultimately have C: "n_key n \<in> set ?C" using dep by blast
  show "n_key n \<in> set K \<or> n_status n = NPending"
  proof (rule disjCI)
    assume "n_status n \<noteq> NPending"
    then have "\<not> has_status g d NPending (n_key n)"
      using ok n unfolding has_status_def exists_where_iff nodes_ok_def by metis
    with C show "n_key n \<in> set K" by (simp add: K)
  qed
qed

end
