(* ===== verification/Qraft_GraphRun.thy ===== *)
theory Qraft_GraphRun
  imports Qraft_GraphInv
begin

text \<open>
  The invariant of the runs of \<^verbatim>\<open>qraft/graphs.py\<close>. \<open>graph_inv\<close> says of a
  database that the node table is well formed (\<open>nodes_ok\<close>), that no live graph is stuck or has a
  node left undispatched (\<open>calm\<close>), and that every generation of every graph has settled exactly
  once or not yet (\<open>settled_once\<close>). An operation first takes the locked graph out of the
  invariant (\<open>graph_inv_ex\<close> exempts it from \<open>calm\<close>), moves nodes along \<open>node_trans\<close> and
  dispatches the frontier; \<open>maybe_settle\<close> restores \<open>calm\<close>. The theory ends with the effect of a
  settlement; \<^verbatim>\<open>Qraft_GraphSteps\<close> has the operations.
\<close>

section \<open>What a dispatch does\<close>

text \<open>The part of the database the invariant is about, but for the nodes.\<close>

definition is_settlement :: "event \<Rightarrow> bool" where
  "is_settlement e = (case e of GraphSettled g k s \<Rightarrow> True | _ \<Rightarrow> False)"

definition settled_log :: "db \<Rightarrow> event list" where
  "settled_log d = filter is_settlement (d_events d)"

definition same_view :: "db \<Rightarrow> db \<Rightarrow> bool" where
  "same_view d d' \<longleftrightarrow> d_graphs d' = d_graphs d \<and> d_settlements d' = d_settlements d \<and>
     settled_log d' = settled_log d \<and> d_next d \<le> d_next d'"

lemma same_view_refl [simp]: "same_view d d"
  by (simp add: same_view_def)

lemma same_view_trans: "same_view a b \<Longrightarrow> same_view b c \<Longrightarrow> same_view a c"
  by (simp add: same_view_def)

lemma schedule_attempt_view:
  assumes "schedule_attempt now task n nb cl f args d = Inr (i, d')"
  shows "same_view d d'" "d_nodes d' = d_nodes d"
  using assms
  by (auto simp: schedule_attempt_def same_view_def settled_log_def Let_def rbind_Inr insert_attempt_Inr
      split: if_splits)

text \<open>What a dispatched node became.\<close>

definition dispatched :: "node_row \<Rightarrow> node_row \<Rightarrow> bool" where
  "dispatched x y \<longleftrightarrow> same_static x y \<and> n_settled_at y = n_settled_at x \<and>
     n_generation y = n_generation x \<and>
     (n_status y = NRunning \<and> n_task y \<noteq> None \<or> n_status y = NWaiting \<and> n_task y = n_task x)"

lemma dispatch_node_effect:
  assumes "dispatch_node w now r n d = Inr d'"
  obtains i where "same_view d d'" "d_nodes d' = upd_where (\<lambda>x. n_id x = n_id n \<and> n_status x = NPending)
    (\<lambda>x. x\<lparr>n_task := Some i, n_status := NRunning, n_dispatched_at := Some now\<rparr>) (d_nodes d)"
proof -
  from assms obtain p c j d1 where s: "schedule_attempt now (d_next d) 1 now c None None
      (insert_task (node_task (d_next d) now p r n) d) = Inr (j, d1)"
    and d': "d' = upd_nodes (\<lambda>x. n_id x = n_id n \<and> n_status x = NPending)
      (\<lambda>x. x\<lparr>n_task := Some (d_next d), n_status := NRunning, n_dispatched_at := Some now\<rparr>) d1"
    by (auto simp: dispatch_node_def rbind_Inr Let_def)
  have "same_view d (insert_task (node_task (d_next d) now p r n) d)"
    by (simp add: same_view_def settled_log_def insert_task_def)
  then have "same_view d d1" using schedule_attempt_view(1) [OF s] same_view_trans by blast
  moreover have "d_nodes d1 = d_nodes d"
    using schedule_attempt_view(2) [OF s] by (simp add: insert_task_def)
  ultimately show thesis using d' that [of "d_next d"] by (simp add: same_view_def settled_log_def)
qed

definition moved_pending :: "node_row list \<Rightarrow> (node_row \<Rightarrow> node_row) \<Rightarrow> bool" where
  "moved_pending ns F \<longleftrightarrow> (\<forall>x. if n_id x \<in> n_id ` set ns \<and> n_status x = NPending
     then dispatched x (F x) else F x = x)"

lemma dispatch_all_effect:
  assumes "dispatch_all w now r ns d = Inr d'"
  obtains F where "same_view d d'" "d_nodes d' = map F (d_nodes d)" "moved_pending ns F"
  using assms
proof (induction ns arbitrary: d thesis)
  case Nil
  then show ?case by (intro Nil(1) [of id]) (auto simp: moved_pending_def)
next
  case (Cons n ns)
  obtain d1 f where d1: "dispatch_all w now r ns d1 = Inr d'" "same_view d d1"
    and nodes: "d_nodes d1 = upd_where (\<lambda>x. n_id x = n_id n \<and> n_status x = NPending) f (d_nodes d)"
    and f: "\<And>x. dispatched x (f x)"
  proof (cases "n_gate n")
    case True
    show thesis
    proof (rule that)
      show "dispatch_all w now r ns (upd_nodes (\<lambda>x. n_id x = n_id n \<and> n_status x = NPending)
          (\<lambda>x. x\<lparr>n_status := NWaiting\<rparr>) d) = Inr d'" using True Cons.prems(2) by simp
    qed (auto simp: same_view_def settled_log_def dispatched_def same_static_def)
  next
    case False
    with Cons.prems(2) obtain d1 where e: "dispatch_node w now r n d = Inr d1"
      "dispatch_all w now r ns d1 = Inr d'" by (auto simp: rbind_Inr)
    from e(1) obtain i where i: "same_view d d1"
      "d_nodes d1 = upd_where (\<lambda>x. n_id x = n_id n \<and> n_status x = NPending)
        (\<lambda>x. x\<lparr>n_task := Some i, n_status := NRunning, n_dispatched_at := Some now\<rparr>) (d_nodes d)"
      by (rule dispatch_node_effect)
    show thesis
      by (rule that [OF e(2) i]) (simp add: dispatched_def same_static_def)
  qed
  from Cons.IH [OF _ d1(1)] obtain G where
    G: "same_view d1 d'" "d_nodes d' = map G (d_nodes d1)" "moved_pending ns G" by blast
  define F where "F = (\<lambda>x. if n_id x = n_id n \<and> n_status x = NPending then f x else G x)"
  have G_f: "G (f x) = f x" for x
  proof -
    have "n_status (f x) \<noteq> NPending" using f [of x] by (auto simp: dispatched_def)
    with G(3) show ?thesis unfolding moved_pending_def by metis
  qed
  have "d_nodes d' = map F (d_nodes d)"
    using G(2) G_f by (auto simp: nodes upd_where_def F_def)
  moreover have "moved_pending (n # ns) F"
    using G(3) f by (auto simp: moved_pending_def F_def)
  ultimately show ?case
    using Cons.prems(1) same_view_trans [OF d1(2) G(1)] by blast
qed

lemma ready_nodes_iff:
  "n \<in> set (ready_nodes g d) \<longleftrightarrow> n \<in> set (d_nodes d) \<and> n_graph n = g \<and> n_status n = NPending \<and>
     rel_all (d_nodes d) n"
  by (auto simp: ready_nodes_def graph_nodes_set deps_released_def dep_released_def rel_all_def
      rel_in_def exists_where_iff list_all_iff)

lemma moved_cases:
  "moved_pending ns F \<Longrightarrow>
     \<not> (n_id x \<in> n_id ` set ns \<and> n_status x = NPending) \<and> F x = x \<or>
     n_id x \<in> n_id ` set ns \<and> n_status x = NPending \<and> dispatched x (F x)"
  unfolding moved_pending_def by (erule allE [of _ x]) (simp split: if_splits)

lemma moved_trans:
  assumes "nodes_ok (d_nodes d)" "moved_pending (ready_nodes g d) F" "x \<in> set (d_nodes d)"
  shows "node_trans (d_nodes d) x (F x)" "n_graph x \<noteq> g \<Longrightarrow> F x = x"
proof -
  have ready: "x \<in> set (ready_nodes g d)" if "n_id x \<in> n_id ` set (ready_nodes g d)"
  proof -
    from that obtain y where y: "y \<in> set (ready_nodes g d)" "n_id x = n_id y" by auto
    moreover have "distinct (map n_id (d_nodes d))" using assms(1) by (simp add: nodes_ok_def)
    ultimately have "x = y" using assms(3) key_inj [of n_id "d_nodes d" x y] by (simp add: ready_nodes_iff)
    with y show ?thesis by simp
  qed
  from moved_cases [OF assms(2), of x] show "node_trans (d_nodes d) x (F x)"
  proof (elim disjE conjE)
    assume x: "n_id x \<in> n_id ` set (ready_nodes g d)" "n_status x = NPending" "dispatched x (F x)"
    have "rel_all (d_nodes d) x" using ready [OF x(1)] by (simp add: ready_nodes_iff)
    moreover have "node_shape x" using assms(1,3) by (auto simp: nodes_ok_def)
    ultimately show ?thesis using x(2,3)
      by (auto simp: node_trans_def dispatched_def node_shape_def run park)
  qed simp
  show "F x = x" if "n_graph x \<noteq> g"
    using moved_cases [OF assms(2), of x] ready that by (auto simp: ready_nodes_iff)
qed

lemma moved_releases: "moved_pending ns F \<Longrightarrow> releases (n_status (F x)) = releases (n_status x)"
  using moved_cases [of ns F x] by (auto simp: dispatched_def releases_def)


section \<open>The invariant\<close>

text \<open>
  No live graph has a node that could be dispatched but was not; a running graph has a node that
  runs, so that a completion is to come; a parked graph has one that waits for approval.
\<close>

definition calm :: "graph_row \<Rightarrow> node_row list \<Rightarrow> bool" where
  "calm r ns \<longleftrightarrow> (live_graph (g_status r) \<longrightarrow>
     (\<forall>n \<in> set ns. n_graph n = g_id r \<longrightarrow> n_status n = NPending \<longrightarrow> \<not> rel_all ns n) \<and>
     (g_status r = GRunning \<longrightarrow> (\<exists>n \<in> set ns. n_graph n = g_id r \<and> n_status n = NRunning)) \<and>
     (g_status r = GWaiting \<longrightarrow> (\<exists>n \<in> set ns. n_graph n = g_id r \<and> n_status n = NWaiting) \<and>
        (\<forall>n \<in> set ns. n_graph n = g_id r \<longrightarrow> n_status n \<notin> {NRunning, NFailed, NCancelled})))"

text \<open>How often generation \<open>k\<close> of a graph has settled.\<close>

definition settled_gens :: "graph_row \<Rightarrow> nat \<Rightarrow> nat" where
  "settled_gens r k =
     (if k < g_generation r \<or> k = g_generation r \<and> g_settled_at r \<noteq> None then 1 else 0)"

definition announcements :: "id \<Rightarrow> nat \<Rightarrow> db \<Rightarrow> nat" where
  "announcements g k d = hits (\<lambda>e. case e of GraphSettled g' k' s \<Rightarrow> g' = g \<and> k' = k | _ \<Rightarrow> False)
     (settled_log d)"

definition outbox_rows :: "id \<Rightarrow> nat \<Rightarrow> db \<Rightarrow> nat" where
  "outbox_rows g k d = hits (\<lambda>s. se_graph s = g \<and> se_generation s = k) (d_settlements d)"

definition settled_once :: "graph_row \<Rightarrow> db \<Rightarrow> bool" where
  "settled_once r d \<longleftrightarrow> (live_graph (g_status r) \<longleftrightarrow> g_settled_at r = None) \<and> 1 \<le> g_generation r \<and>
     (\<forall>k \<ge> 1. announcements (g_id r) k d = settled_gens r k \<and>
        (given (g_on_settled r) \<noteq> None \<longrightarrow> outbox_rows (g_id r) k d = settled_gens r k))"

definition below_next :: "db \<Rightarrow> bool" where
  "below_next d \<longleftrightarrow> (\<forall>r \<in> set (d_graphs d). g_id r < d_next d) \<and>
     (\<forall>n \<in> set (d_nodes d). n_id n < d_next d \<and> n_graph n < d_next d) \<and>
     (\<forall>g k s. GraphSettled g k s \<in> set (settled_log d) \<longrightarrow> g < d_next d) \<and>
     (\<forall>s \<in> set (d_settlements d). se_graph s < d_next d)"

definition graph_inv_ex :: "id set \<Rightarrow> db \<Rightarrow> bool" where
  "graph_inv_ex X d \<longleftrightarrow> nodes_ok (d_nodes d) \<and> distinct (map g_id (d_graphs d)) \<and> below_next d \<and>
     (\<forall>r \<in> set (d_graphs d). settled_once r d \<and> (g_id r \<notin> X \<longrightarrow> calm r (d_nodes d)))"

abbreviation graph_inv :: "db \<Rightarrow> bool" where
  "graph_inv \<equiv> graph_inv_ex {}"

lemma settled_once_view: "same_view d d' \<Longrightarrow> settled_once r d' = settled_once r d"
  by (simp add: settled_once_def announcements_def outbox_rows_def same_view_def)

lemma graph_inv_mono: "graph_inv_ex X d \<Longrightarrow> X \<subseteq> Y \<Longrightarrow> graph_inv_ex Y d"
  by (auto simp: graph_inv_ex_def)

lemma graph_inv_close:
  assumes "graph_inv_ex {g} d" "\<And>r. r \<in> set (d_graphs d) \<Longrightarrow> g_id r = g \<Longrightarrow> calm r (d_nodes d)"
  shows "graph_inv d"
  using assms by (auto simp: graph_inv_ex_def)

lemma graph_inv_row:
  assumes "graph_inv_ex X d" "get_graph g d = Some r"
  shows "r \<in> set (d_graphs d)" "g_id r = g" "settled_once r d"
    "r' \<in> set (d_graphs d) \<Longrightarrow> g_id r' = g \<Longrightarrow> r' = r"
proof -
  have ids: "distinct (map g_id (d_graphs d))" using assms(1) by (simp add: graph_inv_ex_def)
  have "get_by g_id g (d_graphs d) = Some r" using assms(2) by (simp add: get_graph_def)
  from get_by_SomeD [OF this] show r: "r \<in> set (d_graphs d)" "g_id r = g" by auto
  then show "settled_once r d" using assms(1) by (simp add: graph_inv_ex_def)
  show "r' = r" if "r' \<in> set (d_graphs d)" "g_id r' = g"
    using key_inj [OF ids that(1) r(1)] that(2) r(2) by simp
qed

lemma calm_cong:
  assumes mem: "\<And>n. n_graph n = g_id r \<Longrightarrow> n \<in> set ns \<longleftrightarrow> n \<in> set ns'"
  shows "calm r ns = calm r ns'"
proof -
  have all: "(\<forall>n \<in> set ns. n_graph n = g_id r \<longrightarrow> P n) = (\<forall>n \<in> set ns'. n_graph n = g_id r \<longrightarrow> P n)"
    for P using mem by blast
  have ex: "(\<exists>n \<in> set ns. n_graph n = g_id r \<and> P n) = (\<exists>n \<in> set ns'. n_graph n = g_id r \<and> P n)"
    for P using mem by blast
  have rel: "rel_all ns n = rel_all ns' n" if "n_graph n = g_id r" for n
    using ex [of "\<lambda>m. n_key m = dep \<and> releases (n_status m)" for dep] that
    by (simp add: rel_all_def rel_in_def)
  have "(\<forall>n \<in> set ns. n_graph n = g_id r \<longrightarrow> n_status n = NPending \<longrightarrow> \<not> rel_all ns n) =
      (\<forall>n \<in> set ns'. n_graph n = g_id r \<longrightarrow> n_status n = NPending \<longrightarrow> \<not> rel_all ns' n)"
    unfolding all [of "\<lambda>n. n_status n = NPending \<longrightarrow> \<not> rel_all ns n"] using rel by blast
  then show ?thesis
    unfolding calm_def ex [of "\<lambda>n. n_status n = NRunning"] ex [of "\<lambda>n. n_status n = NWaiting"]
      all [of "\<lambda>n. n_status n \<notin> {NRunning, NFailed, NCancelled}"] by simp
qed

lemma calm_other:
  assumes "\<forall>x \<in> set ns. same_static x (F x)" "\<forall>x \<in> set ns. n_graph x = g_id r \<longrightarrow> F x = x"
  shows "calm r (map F ns) = calm r ns"
proof (rule calm_cong)
  fix n :: node_row assume "n_graph n = g_id r"
  then show "n \<in> set (map F ns) \<longleftrightarrow> n \<in> set ns"
    using assms unfolding same_static_def by (auto, metis image_eqI)
qed

lemma below_next_mono:
  assumes "below_next d" "d_next d \<le> d_next d'"
    "\<And>r. r \<in> set (d_graphs d') \<Longrightarrow> g_id r \<in> g_id ` set (d_graphs d)"
    "\<And>n. n \<in> set (d_nodes d') \<Longrightarrow> \<exists>m \<in> set (d_nodes d). n_id n = n_id m \<and> n_graph n = n_graph m"
    "\<And>g k s. GraphSettled g k s \<in> set (settled_log d') \<Longrightarrow>
       g < d_next d \<or> (\<exists>k s. GraphSettled g k s \<in> set (settled_log d))"
    "\<And>s. s \<in> set (d_settlements d') \<Longrightarrow> se_graph s < d_next d \<or> s \<in> set (d_settlements d)"
  shows "below_next d'"
proof -
  have le: "i < d_next d \<Longrightarrow> i < d_next d'" for i using assms(2) by simp
  have "g_id r < d_next d'" if "r \<in> set (d_graphs d')" for r
    using assms(1) assms(3) [OF that] le by (auto simp: below_next_def)
  moreover have "n_id n < d_next d' \<and> n_graph n < d_next d'" if "n \<in> set (d_nodes d')" for n
    using assms(1) assms(4) [OF that] le by (auto simp: below_next_def)
  moreover have "g < d_next d'" if "GraphSettled g k s \<in> set (settled_log d')" for g k s
    using assms(1) assms(5) [OF that] le unfolding below_next_def by blast
  moreover have "se_graph s < d_next d'" if "s \<in> set (d_settlements d')" for s
    using assms(1) assms(6) [OF that] le by (auto simp: below_next_def)
  ultimately show ?thesis unfolding below_next_def by blast
qed

text \<open>Moving nodes of exempted graphs keeps the invariant of the others.\<close>

lemma graph_inv_move:
  assumes inv: "graph_inv_ex X d" and view: "same_view d d'" and nodes: "d_nodes d' = map F (d_nodes d)"
    and F: "\<And>x. x \<in> set (d_nodes d) \<Longrightarrow> node_trans (d_nodes d) x (F x)"
    and other: "\<And>x. x \<in> set (d_nodes d) \<Longrightarrow> n_graph x \<notin> X \<Longrightarrow> F x = x"
  shows "graph_inv_ex X d'"
proof -
  have st: "\<forall>x \<in> set (d_nodes d). same_static x (F x)" using F node_trans_static by blast
  have "nodes_ok (d_nodes d')" using nodes_ok_map [of "d_nodes d" F] inv F by (simp add: nodes graph_inv_ex_def)
  moreover have "below_next d'"
    by (rule below_next_mono [of d])
      (use inv view st in \<open>auto simp: graph_inv_ex_def same_view_def nodes same_static_def\<close>)
  moreover have "calm r (d_nodes d')" if "r \<in> set (d_graphs d)" "g_id r \<notin> X" for r
    unfolding nodes using calm_other [OF st, of r] other that inv by (simp add: graph_inv_ex_def)
  ultimately show ?thesis
    using inv view settled_once_view [OF view] by (auto simp: graph_inv_ex_def same_view_def)
qed

lemma graph_inv_view:
  assumes "graph_inv_ex X d" "same_view d d'" "d_nodes d' = d_nodes d"
  shows "graph_inv_ex X d'"
  by (rule graph_inv_move [OF assms(1,2), of id]) (simp_all add: assms(3))

section \<open>Settling\<close>

definition settled_row :: "time \<Rightarrow> graph_status \<Rightarrow> dict \<Rightarrow> graph_row \<Rightarrow> graph_row" where
  "settled_row now s summary x = x\<lparr>g_status := s, g_settled_at := Some now,
     g_summary := Some summary, g_updated := now\<rparr>"

lemma settled_row_simps [simp]:
  "g_id (settled_row now s sm x) = g_id x" "g_status (settled_row now s sm x) = s"
  "g_settled_at (settled_row now s sm x) = Some now"
  "g_generation (settled_row now s sm x) = g_generation x"
  "g_on_settled (settled_row now s sm x) = g_on_settled x"
  by (simp_all add: settled_row_def)

lemma outbox_rows_0: "outbox_rows g k d = 0 \<longleftrightarrow>
    \<not> exists_where (\<lambda>s. se_graph s = g \<and> se_generation s = k) (d_settlements d)"
  by (simp add: outbox_rows_def hits_0)

lemma record_settlement_effect:
  assumes "record_settlement r d = Inr d'"
  obtains ss where "d' = d\<lparr>d_settlements := d_settlements d @ ss\<rparr>"
    "\<forall>s \<in> set ss. se_graph s = g_id r \<and> se_generation s = g_generation r"
    "length ss = (if given (g_on_settled r) \<noteq> None \<and> outbox_rows (g_id r) (g_generation r) d = 0
       then 1 else 0)"
proof (cases "given (g_on_settled r) = None \<or> outbox_rows (g_id r) (g_generation r) d \<noteq> 0")
  case True
  then have "d' = d" using assms
    by (auto simp: record_settlement_def outbox_rows_0 split: option.splits if_splits)
  then show thesis using True by (intro that [of "[]"]) auto
next
  case False
  then obtain p where p: "given (g_on_settled r) = Some p"
    "\<not> exists_where (\<lambda>s. se_graph s = g_id r \<and> se_generation s = g_generation r) (d_settlements d)"
    by (auto simp: outbox_rows_0)
  with assms obtain t where "d' = d\<lparr>d_settlements := d_settlements d @
      [\<lparr>se_graph = g_id r, se_generation = g_generation r, se_hook_path = p,
        se_hook_kwargs = g_on_settled_kwargs r, se_context = graph_hook_context r d, se_created = t\<rparr>]\<rparr>"
    by (auto simp: record_settlement_def split: option.splits)
  then show thesis using False by (intro that [of "[_]"]) auto
qed

lemma settle_cases:
  assumes "settle w now r s d = Inr (x, d')" "get_graph (g_id r) d = Some r0"
    "distinct (map g_id (d_graphs d))"
  obtains "\<not> (g_settled_at r0 = None \<and> live_graph (g_status r0))" "x = None" "d' = d"
  | sm ss where "g_settled_at r0 = None" "live_graph (g_status r0)" "x = Some (settled_row now s sm r0)"
      "d' = emit (GraphSettled (g_id r0) (g_generation r0) s)
        (d\<lparr>d_graphs := upd_where (\<lambda>x. x = r0) (settled_row now s sm) (d_graphs d),
           d_settlements := d_settlements d @ ss\<rparr>)"
      "\<forall>s \<in> set ss. se_graph s = g_id r0 \<and> se_generation s = g_generation r0"
      "length ss = (if given (g_on_settled r0) \<noteq> None \<and>
         outbox_rows (g_id r0) (g_generation r0) d = 0 then 1 else 0)"
proof -
  define P where "P = (\<lambda>x :: graph_row. g_id x = g_id r \<and> g_settled_at x = None \<and> live_graph (g_status x))"
  have r0: "r0 \<in> set (d_graphs d)" "g_id r0 = g_id r"
    using get_by_SomeD [OF assms(2) [unfolded get_graph_def]] by auto
  have only: "y = r0" if "y \<in> set (d_graphs d)" "g_id y = g_id r" for y
    using key_inj [OF assms(3) that(1) r0(1)] that r0 by simp
  obtain sm where sm: "build_summary w r s now d = Inr sm"
    using assms(1) by (auto simp: settle_def rbind_Inr)
  show thesis
  proof (cases "g_settled_at r0 = None \<and> live_graph (g_status r0)")
    case False
    then have "hits P (d_graphs d) = 0" using hits_pos [of P "d_graphs d"] only
      by (auto simp: P_def exists_where_iff)
    then show thesis using assms(1) sm False that(1) by (simp add: settle_def P_def)
  next
    case True
    then have "hits P (d_graphs d) \<noteq> 0" using hits_pos [of P "d_graphs d"] r0
      by (auto simp: P_def exists_where_iff)
    define e where "e = d\<lparr>d_graphs := upd_where (\<lambda>x. x = r0) (settled_row now s sm) (d_graphs d)\<rparr>"
    have "P x \<longleftrightarrow> x = r0" if "x \<in> set (d_graphs d)" for x
      using True r0(2) only [OF that] by (auto simp: P_def)
    then have up: "upd_graphs P (settled_row now s sm) d = e"
      by (simp add: upd_graphs_def e_def cong: upd_where_cong)
    have loc: "locked (g_id r) e = Inr (settled_row now s sm r0)"
      using assms(2) get_by_upd_where [of "\<lambda>x. x = r0" g_id "settled_row now s sm" "g_id r" "d_graphs d"]
      by (simp add: locked_def get_graph_def e_def)
    have st: "(\<lambda>x. x\<lparr>g_status := s, g_settled_at := Some now, g_summary := Some sm, g_updated := now\<rparr>) =
        settled_row now s sm" by (simp add: settled_row_def fun_eq_iff)
    from assms(1) have "rbind (record_settlement (settled_row now s sm r0) e) (\<lambda>d.
        Inr (Some (settled_row now s sm r0), emit (GraphSettled (g_id r0) (g_generation r0) s) d)) = Inr (x, d')"
      using \<open>hits P (d_graphs d) \<noteq> 0\<close> by (simp add: settle_def sm P_def [symmetric] Let_def st up loc)
    then obtain f where f: "record_settlement (settled_row now s sm r0) e = Inr f"
      "x = Some (settled_row now s sm r0)" "d' = emit (GraphSettled (g_id r0) (g_generation r0) s) f"
      by (auto simp: rbind_Inr)
    from f(1) obtain ss where "f = e\<lparr>d_settlements := d_settlements e @ ss\<rparr>"
      "\<forall>t \<in> set ss. se_graph t = g_id r0 \<and> se_generation t = g_generation r0"
      "length ss = (if given (g_on_settled r0) \<noteq> None \<and> outbox_rows (g_id r0) (g_generation r0) e = 0
         then 1 else 0)"
      by (rule record_settlement_effect) simp
    then show thesis using True f(2,3)
      by (intro that(2) [of sm ss]) (simp_all add: e_def outbox_rows_def)
  qed
qed

lemma settled_once_settle:
  assumes "settled_once r0 d" "g_settled_at r0 = None"
    and ss: "\<forall>t \<in> set ss. se_graph t = g_id r0 \<and> se_generation t = g_generation r0"
      "length ss = (if given (g_on_settled r0) \<noteq> None \<and>
         outbox_rows (g_id r0) (g_generation r0) d = 0 then 1 else 0)"
    and d': "settled_log d' = settled_log d @ [GraphSettled (g_id r0) (g_generation r0) s]"
      "d_settlements d' = d_settlements d @ ss"
    and s: "\<not> live_graph s"
  shows "settled_once (settled_row now s sm r0) d'"
    and "g_id r \<noteq> g_id r0 \<Longrightarrow> settled_once r d' = settled_once r d"
proof -
  have out: "outbox_rows g k d' = outbox_rows g k d + (if g = g_id r0 \<and> k = g_generation r0 then length ss else 0)"
    for g k
  proof -
    have "hits (\<lambda>t. se_graph t = g \<and> se_generation t = k) ss = (if g = g_id r0 \<and> k = g_generation r0 then length ss else 0)"
      by (rule hits_const) (use ss(1) in auto)
    then show ?thesis by (simp add: outbox_rows_def d' hits_append)
  qed
  have ann: "announcements g k d' = announcements g k d + (if g = g_id r0 \<and> k = g_generation r0 then 1 else 0)"
    for g k by (auto simp: announcements_def d' hits_append)
  show "settled_once r d' = settled_once r d" if "g_id r \<noteq> g_id r0"
    using that by (simp add: settled_once_def out ann)
  have g1: "1 \<le> g_generation r0" using assms(1) by (simp add: settled_once_def)
  then have "given (g_on_settled r0) \<noteq> None \<Longrightarrow> outbox_rows (g_id r0) (g_generation r0) d = 0"
    using assms(1,2) unfolding settled_once_def by (simp add: settled_gens_def)
  then have len: "length ss = (if given (g_on_settled r0) \<noteq> None then 1 else 0)" using ss(2) by auto
  have gens: "settled_gens (settled_row now s sm r0) k =
      settled_gens r0 k + (if k = g_generation r0 then 1 else 0)" for k
    using assms(2) by (simp add: settled_gens_def)
  show "settled_once (settled_row now s sm r0) d'"
    using assms(1) s len unfolding settled_once_def by (simp add: out ann gens)
qed

lemma settle_inv:
  assumes "graph_inv_ex X d" "settle w now r s d = Inr (x, d')" "get_graph (g_id r) d = Some r0"
    "\<not> live_graph s" "g_settled_at r0 = None \<or> g_id r \<notin> X"
  shows "graph_inv_ex (X - {g_id r}) d'"
proof -
  have ids: "distinct (map g_id (d_graphs d))" using assms(1) by (simp add: graph_inv_ex_def)
  note row = graph_inv_row [OF assms(1,3)]
  from assms(2,3) ids show ?thesis
  proof (cases rule: settle_cases)
    case 1
    then have "g_id r \<notin> X" using row(3) assms(5) by (auto simp: settled_once_def)
    then have "X - {g_id r} = X" by auto
    then show ?thesis using assms(1) 1 by simp
  next
    case (2 sm ss)
    have log: "settled_log d' = settled_log d @ [GraphSettled (g_id r0) (g_generation r0) s]"
      by (simp add: 2 settled_log_def is_settlement_def)
    have sets: "d_settlements d' = d_settlements d @ ss" by (simp add: 2)
    have graphs: "d_graphs d' = upd_where (\<lambda>x. x = r0) (settled_row now s sm) (d_graphs d)"
      and nodes: "d_nodes d' = d_nodes d" and nx: "d_next d' = d_next d" by (simp_all add: 2)
    note once = settled_once_settle [OF row(3) 2(1) 2(5,6) log sets assms(4)]
    have "map g_id (d_graphs d') = map g_id (d_graphs d)"
      unfolding graphs by (rule map_upd_where) simp
    then have "distinct (map g_id (d_graphs d'))" using ids by (simp only:)
    moreover have "below_next d'"
    proof (rule below_next_mono [of d])
      show below: "below_next d" using assms(1) by (simp add: graph_inv_ex_def)
      show "g_id y \<in> g_id ` set (d_graphs d)" if "y \<in> set (d_graphs d')" for y
        using that by (auto simp: graphs set_upd_where)
      have r0: "g_id r0 < d_next d" using below row(1) by (simp add: below_next_def)
      then show "g < d_next d \<or> (\<exists>k s. GraphSettled g k s \<in> set (settled_log d))"
        if "GraphSettled g k s' \<in> set (settled_log d')" for g k s'
        using that by (auto simp: log)
      show "se_graph t < d_next d \<or> t \<in> set (d_settlements d)" if "t \<in> set (d_settlements d')" for t
        using that r0 2(5) by (auto simp: sets)
    qed (auto simp: nodes nx)
    moreover have "settled_once y d' \<and> (g_id y \<notin> X - {g_id r} \<longrightarrow> calm y (d_nodes d'))"
      if y: "y \<in> set (d_graphs d')" for y
    proof (cases "g_id y = g_id r")
      case True
      obtain z where z: "z \<in> set (d_graphs d)" "y = (if z = r0 then settled_row now s sm z else z)"
        using y by (auto simp: graphs set_upd_where)
      then have "g_id z = g_id r" using True by (simp split: if_splits)
      then have "y = settled_row now s sm r0" using z row(4) [OF z(1)] by simp
      then show ?thesis using once(1) assms(4) by (simp add: calm_def)
    next
      case False
      obtain z where z: "z \<in> set (d_graphs d)" "y = (if z = r0 then settled_row now s sm z else z)"
        using y by (auto simp: graphs set_upd_where)
      then have "y \<in> set (d_graphs d)" using row(2) False by (simp split: if_splits)
      with False show ?thesis using once(2) [of y] row(2) assms(1) by (simp add: nodes graph_inv_ex_def)
    qed
    ultimately show ?thesis using assms(1) by (simp add: graph_inv_ex_def nodes)
  qed
qed

end
