(* ===== verification/Qraft_GraphSteps.thy ===== *)
theory Qraft_GraphSteps
  imports Qraft_GraphRun
begin

text \<open>
  The operations of \<^verbatim>\<open>qraft/graphs.py\<close> that move nodes keep \<open>graph_inv\<close>: the
  dispatch of the frontier, the settlement on quiescence, completions, skips, cancels and the two
  decisions at a gate. \<^verbatim>\<open>Qraft_GraphReach\<close> has the others and the runs.
\<close>

section \<open>Row updates and quiescence\<close>

definition graph_update :: "id set \<Rightarrow> (graph_row \<Rightarrow> graph_row) \<Rightarrow> graph_row \<Rightarrow> bool" where
  "graph_update X F r \<longleftrightarrow> g_id (F r) = g_id r \<and> g_generation (F r) = g_generation r \<and>
     g_settled_at (F r) = g_settled_at r \<and> g_on_settled (F r) = g_on_settled r \<and>
     live_graph (g_status (F r)) = live_graph (g_status r) \<and>
     (g_id r \<notin> X \<longrightarrow> g_status (F r) = g_status r)"

lemma calm_row: "g_id r' = g_id r \<Longrightarrow> g_status r' = g_status r \<Longrightarrow> calm r' ns = calm r ns"
  by (simp add: calm_def)

lemma graph_inv_rows:
  assumes inv: "graph_inv_ex X d" and F: "\<And>r. r \<in> set (d_graphs d) \<Longrightarrow> graph_update X F r"
    and d': "d_graphs d' = map F (d_graphs d)" "d_nodes d' = d_nodes d"
      "d_settlements d' = d_settlements d" "settled_log d' = settled_log d" "d_next d \<le> d_next d'"
  shows "graph_inv_ex X d'"
proof -
  have "map g_id (d_graphs d') = map g_id (d_graphs d)"
    using F by (auto simp: d' graph_update_def)
  then have ids: "distinct (map g_id (d_graphs d'))" using inv by (simp only: graph_inv_ex_def)
  have below: "below_next d'"
    by (rule below_next_mono [of d]) (use inv F in \<open>auto simp: graph_inv_ex_def d' graph_update_def\<close>)
  have once: "settled_once (F r) d' = settled_once r d" if "r \<in> set (d_graphs d)" for r
    using F [OF that]
    by (simp add: settled_once_def graph_update_def announcements_def outbox_rows_def settled_gens_def d')
  have calm: "calm (F r) (d_nodes d')" if "r \<in> set (d_graphs d)" "g_id (F r) \<notin> X" for r
    using F [OF that(1)] that inv calm_row [of "F r" r "d_nodes d"]
    by (auto simp: graph_update_def d' graph_inv_ex_def)
  show ?thesis
    using inv ids below once calm by (auto simp: graph_inv_ex_def d')
qed

text \<open>
  A node with no undispatchable dependency left: in a well-formed table a graph in which nothing
  runs, failed, was cancelled or waits, and nothing is ready, has no pending node at all.
\<close>

lemma not_stuck:
  assumes ok: "nodes_ok ns"
    and ready: "\<And>n. n \<in> set ns \<Longrightarrow> n_graph n = g \<Longrightarrow> n_status n = NPending \<Longrightarrow> \<not> rel_all ns n"
    and fin: "\<And>n. n \<in> set ns \<Longrightarrow> n_graph n = g \<Longrightarrow> n_status n = NPending \<or> releases (n_status n)"
  shows "n \<in> set ns \<Longrightarrow> n_graph n = g \<Longrightarrow> releases (n_status n)"
proof (induction "n_depth n" arbitrary: n rule: less_induct)
  case less
  have "rel_in ns g dep" if "dep \<in> set (n_after n)" for dep
  proof -
    from ok less.prems that obtain m where "m \<in> set ns" "n_graph m = g" "n_key m = dep"
      "n_depth m < n_depth n" unfolding nodes_ok_def by metis
    then show ?thesis using less.hyps [of m] by (auto simp: rel_in_def)
  qed
  then have "rel_all ns n" using less.prems by (simp add: rel_all_def)
  with ready [OF less.prems] have "n_status n \<noteq> NPending" by blast
  with fin [OF less.prems] show ?case by blast
qed

lemma maybe_settle_inv:
  assumes inv: "graph_inv_ex {g} d" and r0: "get_graph g d = Some r0" "g_status r0 = GRunning"
    and r: "g_id r = g" and ready: "ready_nodes g d = []"
    and m: "maybe_settle w now r d = Inr (x, d')"
  shows "graph_inv d'"
proof -
  have ok: "nodes_ok (d_nodes d)" using inv by (simp add: graph_inv_ex_def)
  note row = graph_inv_row [OF inv r0(1)]
  have open0: "g_settled_at r0 = None" using row(3) r0(2) by (simp add: settled_once_def live_graph_def)
  have nready: "\<not> rel_all (d_nodes d) n"
    if "n \<in> set (d_nodes d)" "n_graph n = g" "n_status n = NPending" for n
    using ready that ready_nodes_iff [of n g d] by auto
  define ss where "ss = map n_status (graph_nodes g d)"
  have ss: "s \<in> set ss \<longleftrightarrow> (\<exists>n \<in> set (d_nodes d). n_graph n = g \<and> n_status n = s)" for s
    by (auto simp: ss_def graph_nodes_set)
  have settled: "graph_inv d'" if "settle w now r s d = Inr (x, d')" "\<not> live_graph s" for s
    using settle_inv [OF inv that(1)] r r0 open0 that(2) by simp
  consider "NRunning \<in> set ss" | "NRunning \<notin> set ss" "NFailed \<in> set ss \<or> NCancelled \<in> set ss"
    | "NRunning \<notin> set ss" "NFailed \<notin> set ss" "NCancelled \<notin> set ss" "NWaiting \<in> set ss"
    | "NRunning \<notin> set ss" "NFailed \<notin> set ss" "NCancelled \<notin> set ss" "NWaiting \<notin> set ss"
    by blast
  then show ?thesis
  proof cases
    case 1
    then have "d' = d" using m r by (simp add: maybe_settle_def ss_def [symmetric] Let_def)
    moreover have "calm r0 (d_nodes d)"
      using nready 1 row(2) r0(2) unfolding ss by (simp add: calm_def)
    then have "calm y (d_nodes d)" if "y \<in> set (d_graphs d)" "g_id y = g" for y
      using row(4) [OF that] by simp
    ultimately show ?thesis using graph_inv_close [OF inv] by simp
  next
    case 2
    then show ?thesis using m r ready settled
      by (auto simp: maybe_settle_def ss_def [symmetric] Let_def live_graph_def split: if_splits)
  next
    case 3
    let ?P = "\<lambda>y. g_id y = g \<and> g_status y = GRunning"
    let ?f = "\<lambda>y. y\<lparr>g_status := GWaiting, g_updated := now\<rparr>"
    have d': "d' = upd_graphs ?P ?f d"
      using m r ready 3 by (simp add: maybe_settle_def ss_def [symmetric] Let_def)
    have inv': "graph_inv_ex {g} d'"
      by (rule graph_inv_rows [OF inv, of "\<lambda>y. if ?P y then ?f y else y"])
        (auto simp: d' graph_update_def live_graph_def upd_where_def settled_log_def)
    have waits: "calm (?f r0) (d_nodes d')"
      using 3 nready row(2) unfolding ss by (auto simp: calm_def d')
    have "calm y (d_nodes d')" if y: "y \<in> set (d_graphs d')" "g_id y = g" for y
    proof -
      from y(1) obtain z where z: "z \<in> set (d_graphs d)" "y = (if ?P z then ?f z else z)"
        by (auto simp: d' set_upd_where)
      with y(2) have "z = r0" by (intro row(4)) (simp_all split: if_splits)
      then show ?thesis using z(2) waits row(2) r0(2) by simp
    qed
    then show ?thesis using graph_inv_close [OF inv'] by blast
  next
    case 4
    have all: "n_status n = NPending \<or> releases (n_status n)"
      if "n \<in> set (d_nodes d)" "n_graph n = g" for n
      using 4 that by (cases "n_status n") (auto simp: ss releases_def)
    have "releases (n_status n)" if "n \<in> set (d_nodes d)" "n_graph n = g" for n
      by (rule not_stuck [OF ok _ _ that]) (use nready all in blast)+
    then have "list_all releases ss" by (auto simp: list_all_iff ss_def graph_nodes_set)
    then show ?thesis using m r ready 4 settled
      by (auto simp: maybe_settle_def ss_def [symmetric] Let_def live_graph_def split: if_splits)
  qed
qed

section \<open>Dispatching the frontier\<close>

lemma rel_all_back:
  assumes "\<And>y. y \<in> set ns \<Longrightarrow> same_static y (F y)"
    and "\<And>y. y \<in> set ns \<Longrightarrow> releases (n_status (F y)) \<Longrightarrow> releases (n_status y)"
    and "rel_all (map F ns) z" "n_graph z = n_graph x" "n_after z = n_after x"
  shows "rel_all ns x"
  unfolding rel_all_def
proof
  fix dep assume "dep \<in> set (n_after x)"
  with assms(3-5) obtain y where y: "y \<in> set ns" "n_graph (F y) = n_graph x" "n_key (F y) = dep"
    "releases (n_status (F y))" by (auto simp: rel_all_def rel_in_def)
  with assms(1) [OF y(1)] assms(2) [OF y(1)] show "rel_in ns (n_graph x) dep"
    by (auto simp: rel_in_def same_static_def)
qed

lemma locked_Inr: "locked g d = Inr r \<longleftrightarrow> get_graph g d = Some r"
  by (auto simp: locked_def split: option.splits)

lemma dispatch_frontier_inv:
  assumes inv: "graph_inv_ex {g} d" and r: "get_graph g d = Some r" "g_status r = GRunning"
    and disp: "dispatch_frontier w now g d = Inr d'"
  shows "graph_inv_ex {g} d'" "ready_nodes g d' = []" "d_graphs d' = d_graphs d"
proof -
  have ok: "nodes_ok (d_nodes d)" using inv by (simp add: graph_inv_ex_def)
  have "dispatch_all w now r (ready_nodes g d) d = Inr d'"
    using disp r by (simp add: dispatch_frontier_def locked_def)
  then obtain F where F: "same_view d d'" "d_nodes d' = map F (d_nodes d)"
    "moved_pending (ready_nodes g d) F" by (rule dispatch_all_effect)
  note tr = moved_trans [OF ok F(3)]
  have st: "same_static y (F y)" if "y \<in> set (d_nodes d)" for y
    using tr(1) [OF that] node_trans_static by blast
  show "d_graphs d' = d_graphs d" using F(1) by (simp add: same_view_def)
  show "graph_inv_ex {g} d'"
    by (rule graph_inv_move [OF inv F(1,2)]) (use tr in auto)
  have "x \<notin> set (ready_nodes g d')" for x
  proof
    assume "x \<in> set (ready_nodes g d')"
    then have x: "x \<in> set (d_nodes d')" "n_graph x = g" "n_status x = NPending" "rel_all (d_nodes d') x"
      by (simp_all add: ready_nodes_iff)
    then obtain y where y: "y \<in> set (d_nodes d)" "x = F y" by (auto simp: F(2))
    from moved_cases [OF F(3), of y] x(3) y(2)
    have same: "F y = y" "n_id y \<notin> n_id ` set (ready_nodes g d)" by (auto simp: dispatched_def)
    have "rel_all (d_nodes d) y"
      by (rule rel_all_back [OF _ _ x(4) [unfolded F(2)]])
        (use st moved_releases [OF F(3)] y same in auto)
    then have "y \<in> set (ready_nodes g d)" using x y same by (simp add: ready_nodes_iff)
    with same(2) show False by auto
  qed
  then show "ready_nodes g d' = []" by (metis list.set_intros(1) neq_Nil_conv)
qed

text \<open>The tail every operation shares: dispatch what became ready, settle on quiescence.\<close>

lemma advance_inv:
  assumes inv: "graph_inv_ex {g} d" and r0: "get_graph g d = Some r0" "g_status r0 = GRunning"
    and r: "g_id r = g"
    and adv: "rbind (dispatch_frontier w now g d) (maybe_settle w now r) = Inr (x, d')"
  shows "graph_inv d'"
proof -
  from adv obtain e where e: "dispatch_frontier w now g d = Inr e" "maybe_settle w now r e = Inr (x, d')"
    by (auto simp: rbind_Inr)
  note f = dispatch_frontier_inv [OF inv r0 e(1)]
  have "get_graph g e = Some r0" using r0(1) f(3) by (simp add: get_graph_def)
  from maybe_settle_inv [OF f(1) this r0(2) r f(2) e(2)] show ?thesis .
qed

section \<open>Completions, skips, cancels\<close>

lemma graph_inv_node:
  assumes "graph_inv_ex X d" "get_node n d = Some x"
  shows "x \<in> set (d_nodes d)" "n_id x = n" "node_shape x"
    "y \<in> set (d_nodes d) \<Longrightarrow> n_id y = n \<Longrightarrow> y = x"
proof -
  have ok: "nodes_ok (d_nodes d)" using assms(1) by (simp add: graph_inv_ex_def)
  show x: "x \<in> set (d_nodes d)" "n_id x = n" using get_by_SomeD [OF assms(2) [unfolded get_node_def]] by auto
  then show "node_shape x" using ok by (simp add: nodes_ok_def)
  show "y = x" if "y \<in> set (d_nodes d)" "n_id y = n"
    using key_inj [of n_id "d_nodes d" y x] ok x that by (simp add: nodes_ok_def)
qed

text \<open>An update of one node along the specification, which exempts its graph.\<close>

lemma upd_node_inv:
  assumes inv: "graph_inv_ex X d" and x: "x \<in> set (d_nodes d)" "n_graph x \<in> X"
    and P: "\<And>y. y \<in> set (d_nodes d) \<Longrightarrow> P y \<Longrightarrow> y = x"
    and f: "node_trans (d_nodes d) x (f x)"
  shows "graph_inv_ex X (upd_nodes P f d)"
proof (rule graph_inv_move [OF inv, of _ "\<lambda>y. if P y then f y else y"])
  show "same_view d (upd_nodes P f d)" by (simp add: same_view_def settled_log_def)
qed (use x P f in \<open>auto simp: upd_where_def\<close>)

lemma same_view_emit: "\<not> is_settlement e \<Longrightarrow> same_view d (emit e d)"
  by (simp add: same_view_def settled_log_def)

lemma task_outcome_cases: "task_outcome s = Some out \<Longrightarrow> out = NSucceeded \<or> out = NFailed"
  by (auto simp: task_outcome_def split: task_status.splits)

lemma record_completion_inv:
  assumes inv: "graph_inv d" and out: "out = NSucceeded \<or> out = NFailed"
    and g: "\<And>x. get_node n d = Some x \<Longrightarrow> n_graph x = g"
    and rec: "record_completion w now g n task out d = Inr (s, d')"
  shows "graph_inv d'"
proof -
  define P where "P = (\<lambda>x :: node_row. n_id x = n \<and> n_settled_at x = None)"
  define f where "f = (\<lambda>x :: node_row. x\<lparr>n_status := out, n_settled_at := Some now\<rparr>)"
  obtain r where r: "get_graph g d = Some r" using rec by (auto simp: record_completion_def rbind_Inr locked_Inr)
  show ?thesis
  proof (cases "Option.bind (get_node n d) n_task \<noteq> Some task \<or> hits P (d_nodes d) = 0")
    case True
    then have "d' = d" using rec r
      by (auto simp: record_completion_def locked_def P_def [symmetric] Let_def split: if_splits)
    with inv show ?thesis by simp
  next
    case False
    then obtain x where x: "get_node n d = Some x" "n_task x = Some task"
      by (cases "get_node n d") auto
    note nd = graph_inv_node [OF inv x(1)]
    have "P x" using False nd(4) unfolding hits_0 exists_where_iff by (auto simp: P_def)
    then have run: "n_status x = NRunning" using nd(3) x(2) by (auto simp: node_shape_def P_def)
    define d1 where "d1 = upd_nodes P f d"
    have tr: "node_trans (d_nodes d) x (f x)"
      using run out nd(3) x(2)
      by (auto simp: node_trans_def same_static_def node_shape_def f_def succeeded failed)
    have inv1: "graph_inv_ex {g} d1" unfolding d1_def
      by (rule upd_node_inv [OF graph_inv_mono [OF inv] nd(1)]) (use g [OF x(1)] nd(4) tr in \<open>auto simp: P_def\<close>)
    have "get_node n d1 = Some (f x)"
      using get_by_upd_where [of P n_id f n "d_nodes d"] x(1) \<open>P x\<close>
      by (simp add: d1_def get_node_def f_def)
    define d2 where "d2 = emit (NodeSettled g (n_key (f x)) (n_generation (f x)) (n_status (f x))) d1"
    have inv2: "graph_inv_ex {g} d2"
      by (rule graph_inv_view [OF inv1]) (simp_all add: d2_def same_view_emit is_settlement_def)
    have r2: "get_graph g d2 = Some r" using r by (simp add: d2_def d1_def get_graph_def)
    have rec': "(if g_status r \<noteq> GRunning then Inr (None, d2)
        else rbind (dispatch_frontier w now g d2) (maybe_settle w now r)) = Inr (s, d')"
      using rec r False \<open>get_node n d1 = Some (f x)\<close>
      unfolding record_completion_def locked_def P_def [symmetric] f_def [symmetric]
      by (simp add: Let_def d1_def [symmetric] d2_def [symmetric])
    note row = graph_inv_row [OF inv r]
    show ?thesis
    proof (cases "g_status r = GRunning")
      case True
      then show ?thesis using advance_inv [OF inv2 r2 True] row(2) rec' by simp
    next
      case False
      have "calm r (d_nodes d)" using inv row(1) by (simp add: graph_inv_ex_def)
      then have "\<not> live_graph (g_status r)"
        using False run nd(1) g [OF x(1)] row(2) by (auto simp: calm_def live_graph_def)
      then have "calm y (d_nodes d2)" if "y \<in> set (d_graphs d2)" "g_id y = g" for y
        using graph_inv_row(4) [OF inv2 r2 that] by (simp add: calm_def)
      then show ?thesis using graph_inv_close [OF inv2] rec' False by simp
    qed
  qed
qed

lemma dispatch_settled_hook_frame [simp]:
  "d_graphs (dispatch_settled_hook w now s d) = d_graphs d"
  "d_nodes (dispatch_settled_hook w now s d) = d_nodes d"
  "d_settlements (dispatch_settled_hook w now s d) = d_settlements d"
  "d_events (dispatch_settled_hook w now s d) = d_events d"
  "d_next (dispatch_settled_hook w now s d) = d_next d"
  by (simp_all add: dispatch_settled_hook_def dispatch_settlement_def split: option.splits)

lemma settled_hook_inv: "graph_inv_ex X d \<Longrightarrow> graph_inv_ex X (dispatch_settled_hook w now s d)"
  by (erule graph_inv_view) (simp_all add: same_view_def settled_log_def)

lemma handle_node_completion_inv:
  assumes "graph_inv d" "handle_node_completion w now t d = Inr d'"
  shows "graph_inv d'"
  using assms record_completion_inv [OF assms(1) task_outcome_cases] graph_inv_node(2) [OF assms(1)]
  by (auto simp: handle_node_completion_def rbind_Inr bind_eq_Some_conv intro!: settled_hook_inv
      split: option.splits) (metis option.inject)

lemma node_by_key_unique:
  assumes "nodes_ok (d_nodes d)" "node_by_key g k d = Some x"
  shows "x \<in> set (d_nodes d)" "n_graph x = g" "n_key x = k"
    "y \<in> set (d_nodes d) \<Longrightarrow> n_graph y = g \<Longrightarrow> n_key y = k \<Longrightarrow> y = x"
proof -
  show x: "x \<in> set (d_nodes d)" "n_graph x = g" "n_key x = k"
    using assms(2) by (auto simp: node_by_key_def find_Some_iff)
  show "y = x" if "y \<in> set (d_nodes d)" "n_graph y = g" "n_key y = k"
    using assms(1) x that unfolding nodes_ok_def by metis
qed

lemma skip_node_inv:
  assumes inv: "graph_inv d" and sk: "skip_node w now g k reason d = Inr (s, d')"
  shows "graph_inv d'"
proof -
  define P where "P = (\<lambda>x :: node_row. n_graph x = g \<and> n_key x = k \<and> n_status x = NPending)"
  define f where "f = (\<lambda>x :: node_row. x\<lparr>n_status := NSkipped, n_skip_reason := reason, n_settled_at := Some now\<rparr>)"
  have ok: "nodes_ok (d_nodes d)" using inv by (simp add: graph_inv_ex_def)
  from sk obtain r x where r: "get_graph g d = Some r" "g_status r = GRunning"
    and x: "node_by_key g k d = Some x"
    by (auto simp: skip_node_def rbind_Inr locked_Inr split: option.splits)
  note nd = node_by_key_unique [OF ok x]
  define d1 where "d1 = upd_nodes P f d"
  define d2 where "d2 = emit (NodeSettled g k (n_generation x) NSkipped) d1"
  have hit: "hits P (d_nodes d) \<noteq> 0"
    using sk r x by (auto simp: skip_node_def locked_def guard_def P_def [symmetric] Let_def split: if_splits)
  then have "P x" using nd(4) unfolding hits_0 exists_where_iff by (auto simp: P_def)
  have tr: "node_trans (d_nodes d) x (f x)"
    using \<open>P x\<close> ok nd(1)
    by (auto simp: node_trans_def same_static_def node_shape_def f_def P_def skipped)
  have "graph_inv_ex {g} d1" unfolding d1_def
    by (rule upd_node_inv [OF graph_inv_mono [OF inv] nd(1)]) (use nd(2,4) tr in \<open>auto simp: P_def\<close>)
  then have inv2: "graph_inv_ex {g} d2"
    by (rule graph_inv_view) (simp_all add: d2_def same_view_emit is_settlement_def)
  have r2: "get_graph g d2 = Some r" using r by (simp add: d2_def d1_def get_graph_def)
  have "rbind (dispatch_frontier w now g d2) (maybe_settle w now r) = Inr (s, d')"
    using sk r x hit unfolding skip_node_def locked_def P_def [symmetric] f_def [symmetric]
    by (simp add: Let_def guard_def d1_def [symmetric] d2_def [symmetric])
  with advance_inv [OF inv2 r2 r(2)] graph_inv_row(2) [OF inv r(1)] show ?thesis by blast
qed

lemma skip_inv: "graph_inv d \<Longrightarrow> skip w now g k reason d = Inr d' \<Longrightarrow> graph_inv d'"
  by (auto simp: skip_def rbind_Inr intro!: settled_hook_inv dest: skip_node_inv)

lemma cancel_inv:
  assumes "graph_inv d" "cancel w now g d = Inr d'"
  shows "graph_inv d'"
proof -
  from assms(2) obtain r s e where r: "get_graph g d = Some r"
    and e: "settle w now r GCancelled d = Inr (s, e)" "s = None \<or> d' = dispatch_settled_hook w now s e"
    by (auto simp: cancel_def rbind_Inr locked_Inr split: option.splits)
  have "g_id r = g" by (rule graph_inv_row(2) [OF assms(1) r])
  then have "graph_inv e"
    using settle_inv [OF assms(1) e(1)] r by (simp add: live_graph_def)
  then show ?thesis using assms(2) r e
    by (auto simp: cancel_def locked_def intro: settled_hook_inv split: option.splits)
qed

section \<open>Gates\<close>

lemma calm_move:
  assumes st: "\<And>y. y \<in> set ns \<Longrightarrow> same_static y (F y)"
    and rel: "\<And>y. y \<in> set ns \<Longrightarrow> releases (n_status (F y)) \<Longrightarrow> releases (n_status y)"
    and pend: "\<And>y. y \<in> set ns \<Longrightarrow> n_status (F y) = NPending \<Longrightarrow> n_status y = NPending"
    and calm: "calm r ns" "live_graph (g_status r)"
    and n: "n \<in> set (map F ns)" "n_graph n = g_id r" "n_status n = NPending"
  shows "\<not> rel_all (map F ns) n"
proof
  assume all: "rel_all (map F ns) n"
  from n obtain y where y: "y \<in> set ns" "n = F y" by auto
  note sy = st [OF y(1), unfolded same_static_def]
  have "rel_all ns y" by (rule rel_all_back [OF st rel all]) (use sy y in auto)
  with calm n y pend sy show False by (auto simp: calm_def)
qed

lemma approve_inv:
  assumes inv: "graph_inv d" and ap: "approve w now g k d = Inr d'"
  shows "graph_inv d'"
proof -
  have ok: "nodes_ok (d_nodes d)" using inv by (simp add: graph_inv_ex_def)
  define pend where "pend = (\<lambda>x :: node_row. x\<lparr>n_status := NPending\<rparr>)"
  from ap obtain r x d2 where r: "get_graph g d = Some r" "live_graph (g_status r)"
    and x: "node_by_key g k d = Some x" "n_status x = NWaiting"
    and d2: "dispatch_node w now r (pend x) (upd_nodes (\<lambda>y. n_id y = n_id x) pend d) = Inr d2"
    and d': "d' = (if g_status r = GWaiting
      then upd_graphs (\<lambda>x. g_id x = g) (\<lambda>x. x\<lparr>g_status := GRunning, g_updated := now\<rparr>) d2 else d2)"
    by (auto simp: approve_def rbind_Inr locked_Inr Let_def pend_def split: option.splits if_splits)
  note nd = node_by_key_unique [OF ok x(1)]
  note row = graph_inv_row [OF inv r(1)]
  from d2 obtain i where v: "same_view (upd_nodes (\<lambda>y. n_id y = n_id x) pend d) d2"
    and n2: "d_nodes d2 = upd_where (\<lambda>y. n_id y = n_id (pend x) \<and> n_status y = NPending)
      (\<lambda>x. x\<lparr>n_task := Some i, n_status := NRunning, n_dispatched_at := Some now\<rparr>)
      (d_nodes (upd_nodes (\<lambda>y. n_id y = n_id x) pend d))" by (rule dispatch_node_effect)
  define f where "f = (\<lambda>x :: node_row. x\<lparr>n_task := Some i, n_status := NRunning, n_dispatched_at := Some now\<rparr>)"
  define F where "F = (\<lambda>y. if n_id y = n_id x then f y else y)"
  have only: "y = x" if "y \<in> set (d_nodes d)" "n_id y = n_id x" for y
    using key_inj [of n_id "d_nodes d" y x] ok nd(1) that by (simp add: nodes_ok_def)
  have nodes: "d_nodes d2 = map F (d_nodes d)"
    unfolding n2 by (auto simp: upd_where_def F_def f_def pend_def)
  have view: "same_view d d2" using v by (simp add: same_view_def settled_log_def)
  have tr: "node_trans (d_nodes d) y (F y)" if "y \<in> set (d_nodes d)" for y
    using only [OF that] x(2) nd(1) ok
    by (auto simp: F_def node_trans_def same_static_def node_shape_def f_def approved nodes_ok_def intro: stay)
  have inv2: "graph_inv_ex {g} d2"
    by (rule graph_inv_move [OF graph_inv_mono [OF inv] view nodes tr]) (use nd(2) only in \<open>auto simp: F_def\<close>)
  have inv': "graph_inv_ex {g} d'"
  proof (cases "g_status r = GWaiting")
    case True
    let ?f = "\<lambda>x :: graph_row. x\<lparr>g_status := GRunning, g_updated := now\<rparr>"
    have "graph_update {g} (\<lambda>y. if g_id y = g then ?f y else y) y" if "y \<in> set (d_graphs d2)" for y
      using row(4) [of y] r(2) that view
      by (auto simp: graph_update_def same_view_def live_graph_def)
    then show ?thesis
      by (intro graph_inv_rows [OF inv2, of "\<lambda>y. if g_id y = g then ?f y else y"])
        (auto simp: d' True upd_where_def settled_log_def)
  qed (use inv2 d' in simp)
  have c: "calm r (d_nodes d)" using inv row(1) by (simp add: graph_inv_ex_def)
  have noready: "\<not> rel_all (d_nodes d2) n" if "n \<in> set (d_nodes d2)" "n_graph n = g" "n_status n = NPending" for n
    unfolding nodes
  proof (rule calm_move [OF _ _ _ c r(2)])
    show "same_static y (F y)" if "y \<in> set (d_nodes d)" for y using tr [OF that] node_trans_static by blast
    show "n \<in> set (map F (d_nodes d))" "n_graph n = g_id r" "n_status n = NPending"
      using that row(2) by (simp_all add: nodes)
  qed (auto simp: F_def f_def releases_def split: if_splits)
  have running: "F x \<in> set (d_nodes d2)" "n_graph (F x) = g" "n_status (F x) = NRunning"
    using imageI [OF nd(1), of F] nd(2) by (simp_all add: nodes F_def f_def)
  have "calm y (d_nodes d')" if y: "y \<in> set (d_graphs d')" "g_id y = g" for y
  proof -
    have g2: "d_graphs d2 = d_graphs d" "d_nodes d' = d_nodes d2" using view by (simp_all add: same_view_def d')
    obtain z where z: "z \<in> set (d_graphs d)" "g_id z = g"
      "y = (if g_status r = GWaiting then z\<lparr>g_status := GRunning, g_updated := now\<rparr> else z)"
      using y by (auto simp: d' g2 set_upd_where split: if_splits)
    then have "g_status y = GRunning" using row(4) [OF z(1,2)] r(2) by (auto simp: live_graph_def)
    then show ?thesis using running noready y(2) by (auto simp: calm_def g2)
  qed
  then show ?thesis using graph_inv_close [OF inv'] by blast
qed

text \<open>The state in which a rejection evaluates the quiescence of its graph.\<close>

lemma reject_node_setup:
  assumes inv: "graph_inv d" and rj: "reject_node w now g k reason d = Inr (s, d')"
  obtains q r2 d2 where "maybe_settle w now q d2 = Inr (s, d')" "g_id q = g"
    "graph_inv_ex {g} d2" "get_graph g d2 = Some r2" "g_status r2 = GRunning" "ready_nodes g d2 = []"
    "\<exists>n \<in> set (d_nodes d2). n_graph n = g \<and> n_key n = k \<and> n_status n = NCancelled"
    "\<And>n. n \<in> set (d_nodes d2) \<Longrightarrow> n_status n \<noteq> NCancelled \<Longrightarrow> n \<in> set (d_nodes d)"
proof -
  have ok: "nodes_ok (d_nodes d)" using inv by (simp add: graph_inv_ex_def)
  define f where "f = (\<lambda>x :: node_row. x\<lparr>n_status := NCancelled, n_settled_at := Some now,
      n_skip_reason := reason\<rparr>)"
  define h where "h = (\<lambda>x :: graph_row. x\<lparr>g_status := GRunning\<rparr>)"
  from rj obtain r x where r: "get_graph g d = Some r" "live_graph (g_status r)"
    and x: "node_by_key g k d = Some x" "n_status x = NWaiting"
    by (auto simp: reject_node_def rbind_Inr locked_Inr Let_def split: option.splits)
  define d1 where "d1 = upd_nodes (\<lambda>y. n_id y = n_id x) f d"
  define d2 where "d2 = (if g_status r = GWaiting then upd_graphs (\<lambda>x. g_id x = g) h d1 else d1)"
  have ms: "maybe_settle w now (h r) d2 = Inr (s, d')"
    using rj r x by (cases "g_status r = GWaiting")
      (simp_all add: reject_node_def locked_def guard_def Let_def f_def h_def d1_def d2_def)
  note nd = node_by_key_unique [OF ok x(1)]
  note row = graph_inv_row [OF inv r(1)]
  have only: "y = x" if "y \<in> set (d_nodes d)" "n_id y = n_id x" for y
    using key_inj [of n_id "d_nodes d" y x] ok nd(1) that by (simp add: nodes_ok_def)
  have tr: "node_trans (d_nodes d) x (f x)"
    using x(2) nd(1) ok
    by (auto simp: node_trans_def same_static_def node_shape_def f_def rejected nodes_ok_def)
  have inv1: "graph_inv_ex {g} d1" unfolding d1_def
    by (rule upd_node_inv [OF graph_inv_mono [OF inv] nd(1)]) (use nd(2) only tr in auto)
  let ?H = "\<lambda>y. if g_status r = GWaiting \<and> g_id y = g then h y else y"
  have "graph_update {g} ?H y" if "y \<in> set (d_graphs d1)" for y
    using row(4) [of y] r(2) that by (auto simp: graph_update_def h_def live_graph_def d1_def)
  then have inv2: "graph_inv_ex {g} d2"
    by (rule graph_inv_rows [OF inv1]) (auto simp: d2_def upd_where_def settled_log_def)
  have row2: "get_graph g d2 = Some (?H r)"
    using r(1) row(2) get_by_upd_where [of "\<lambda>y. g_id y = g" g_id h g "d_graphs d"]
    by (simp add: get_graph_def d2_def d1_def h_def)
  have run2: "g_status (?H r) = GRunning" using r(2) row(2) by (auto simp: h_def live_graph_def)
  have c: "calm r (d_nodes d)" using inv row(1) by (simp add: graph_inv_ex_def)
  have "n \<notin> set (ready_nodes g d2)" for n
  proof
    assume "n \<in> set (ready_nodes g d2)"
    then have n: "n \<in> set (map (\<lambda>y. if n_id y = n_id x then f y else y) (d_nodes d))" "n_graph n = g"
      "n_status n = NPending" "rel_all (map (\<lambda>y. if n_id y = n_id x then f y else y) (d_nodes d)) n"
      by (auto simp: ready_nodes_iff d2_def d1_def upd_where_def split: if_splits)
    have "\<not> rel_all (map (\<lambda>y. if n_id y = n_id x then f y else y) (d_nodes d)) n"
      by (rule calm_move [OF _ _ _ c r(2) n(1) _ n(3)])
        (use n(2) row(2) in \<open>auto simp: f_def releases_def same_static_def split: if_splits\<close>)
    with n(4) show False by blast
  qed
  then have ready2: "ready_nodes g d2 = []" by (metis list.set_intros(1) neq_Nil_conv)
  have "d_nodes d2 = map (\<lambda>y. if n_id y = n_id x then f y else y) (d_nodes d)"
    by (simp add: d2_def d1_def upd_where_def)
  then have mem: "n \<in> set (d_nodes d2) \<longleftrightarrow> (\<exists>y \<in> set (d_nodes d). n = (if n_id y = n_id x then f y else y))" for n
    by (auto simp: image_iff)
  have "f x \<in> set (d_nodes d2)" using mem nd(1) by auto
  then have canc: "\<exists>n \<in> set (d_nodes d2). n_graph n = g \<and> n_key n = k \<and> n_status n = NCancelled"
    by (rule rev_bexI) (simp add: f_def nd)
  have rest: "n \<in> set (d_nodes d)" if "n \<in> set (d_nodes d2)" "n_status n \<noteq> NCancelled" for n
    using that by (auto simp: mem f_def split: if_splits)
  show thesis
    by (rule that [OF ms _ inv2 row2 run2 ready2 canc rest]) (simp_all add: h_def row(2))
qed

lemma reject_node_inv:
  assumes inv: "graph_inv d" and rj: "reject_node w now g k reason d = Inr (s, d')"
  shows "graph_inv d'"
proof -
  from reject_node_setup [OF assms] obtain q r2 d2 where "maybe_settle w now q d2 = Inr (s, d')"
    "g_id q = g" "graph_inv_ex {g} d2" "get_graph g d2 = Some r2" "g_status r2 = GRunning"
    "ready_nodes g d2 = []" by metis
  then show ?thesis using maybe_settle_inv by blast
qed

lemma reject_inv: "graph_inv d \<Longrightarrow> reject w now g k reason d = Inr d' \<Longrightarrow> graph_inv d'"
  by (auto simp: reject_def rbind_Inr intro!: settled_hook_inv dest: reject_node_inv)

end
