(* ===== verification/Qraft_GraphReach.thy ===== *)
theory Qraft_GraphReach
  imports Qraft_GraphSteps
begin

text \<open>
  The remaining operations of \<^verbatim>\<open>qraft/graphs.py\<close> keep \<open>graph_inv\<close> too: resuming,
  starting, publishing, binding a subject and the two sweeps. \<open>graph_step\<close> is the step relation
  over all operations, \<open>graphs\<close> the interpretation of \<open>step_invariant\<close> on it, and the
  properties hold of every database a run reaches.
\<close>

section \<open>Resume\<close>

lemma record_settlement_noop:
  assumes "settled_once r d" "g_settled_at r \<noteq> None" "record_settlement r d = Inr d'"
  shows "d' = d"
proof -
  from assms(3) obtain ss where d': "d' = d\<lparr>d_settlements := d_settlements d @ ss\<rparr>"
    and len: "length ss = (if given (g_on_settled r) \<noteq> None \<and>
      outbox_rows (g_id r) (g_generation r) d = 0 then 1 else 0)"
    by (rule record_settlement_effect)
  have "given (g_on_settled r) \<noteq> None \<Longrightarrow> outbox_rows (g_id r) (g_generation r) d = 1"
    using assms(1,2) unfolding settled_once_def by (simp add: settled_gens_def)
  with len have "ss = []" by (auto split: if_splits)
  with d' show ?thesis by simp
qed

lemma settled_once_reopen:
  assumes "settled_once r d" "g_settled_at r \<noteq> None"
  shows "settled_once (reopen_graph now r) d"
proof -
  have "settled_gens (reopen_graph now r) k = settled_gens r k" for k
    using assms(2) by (auto simp: settled_gens_def reopen_graph_def)
  then show ?thesis using assms(1) by (simp add: settled_once_def reopen_graph_def live_graph_def)
qed

lemma resume_inv:
  assumes inv: "graph_inv d" and res: "resume w now g nodes d = Inr (n, d')"
  shows "graph_inv d'"
proof -
  define P where "P = (\<lambda>K (n :: node_row). n_graph n = g \<and> n_key n \<in> set K)"
  define e where "e = (\<lambda>K. upd_graphs (\<lambda>x. g_id x = g) (reopen_graph now) (upd_nodes (P K) reset_node d))"
  from res obtain r K d1 f s x where r: "get_graph g d = Some r" "\<not> live_graph (g_status r)"
    and K: "rerun_closure g nodes d = Inr K" and d1: "record_settlement r d = Inr d1"
    and rest: "dispatch_frontier w now g (upd_graphs (\<lambda>x. g_id x = g) (reopen_graph now)
        (upd_nodes (P K) reset_node d1)) = Inr f" "locked g f = Inr s" "maybe_settle w now s f = Inr (x, d')"
    unfolding resume_def Let_def P_def
    by (elim rbindE) (auto simp: locked_Inr split: prod.splits)
  note row = graph_inv_row [OF inv r(1)]
  have set: "g_settled_at r \<noteq> None" using row(3) r(2) by (simp add: settled_once_def)
  have "d1 = d" by (rule record_settlement_noop [OF row(3) set d1])
  with rest have f: "dispatch_frontier w now g (e K) = Inr f" "get_graph g f = Some s"
    "maybe_settle w now s f = Inr (x, d')"
    by (simp_all add: locked_Inr e_def)
  have ok: "nodes_ok (d_nodes d)" using inv by (simp add: graph_inv_ex_def)
  have ids: "distinct (map g_id (d_graphs d))" using inv by (simp add: graph_inv_ex_def)
  have st: "same_static y (reset_node y)" for y by (simp add: same_static_def reset_node_def)
  have nodes: "d_nodes (e K) = map (\<lambda>y. if P K y then reset_node y else y) (d_nodes d)"
    by (simp add: e_def upd_where_def)
  have ok': "nodes_ok (d_nodes (e K))"
    using nodes_ok_reset [OF ok rerun_closure_downstream [OF K ok]] by (simp add: e_def P_def)
  have "d_graphs (e K) = upd_where (\<lambda>x. g_id x = g) (reopen_graph now) (d_graphs d)"
    by (simp add: e_def)
  then have "map g_id (d_graphs (e K)) = map g_id (d_graphs d)"
    using map_upd_where [of "\<lambda>x. g_id x = g" g_id "reopen_graph now" "d_graphs d"]
    by (simp add: reopen_graph_def)
  then have ids': "distinct (map g_id (d_graphs (e K)))" using ids by (simp only:)
  have below: "below_next (e K)"
  proof (rule below_next_mono [of d])
    show "below_next d" using inv by (simp add: graph_inv_ex_def)
    show "g_id y \<in> g_id ` set (d_graphs d)" if "y \<in> set (d_graphs (e K))" for y
      using that by (auto simp: e_def set_upd_where reopen_graph_def)
    show "\<exists>m \<in> set (d_nodes d). n_id y = n_id m \<and> n_graph y = n_graph m" if "y \<in> set (d_nodes (e K))" for y
      using that st by (auto simp: nodes same_static_def)
  qed (auto simp: e_def settled_log_def)
  have same: "settled_once y (e K) = settled_once y d" for y
    by (simp add: settled_once_def announcements_def outbox_rows_def e_def settled_log_def)
  have rows: "settled_once y (e K) \<and> (g_id y \<notin> {g} \<longrightarrow> calm y (d_nodes (e K)))"
    if y: "y \<in> set (d_graphs (e K))" for y
  proof -
    from y obtain z where z: "z \<in> set (d_graphs d)" "y = (if g_id z = g then reopen_graph now z else z)"
      by (auto simp: e_def set_upd_where)
    show ?thesis
    proof (cases "g_id z = g")
      case True
      then have "y = reopen_graph now r" using z row(4) by simp
      then show ?thesis
        using settled_once_reopen [OF row(3) set] same row(2) by (simp add: reopen_graph_def)
    next
      case False
      have "calm z (d_nodes (e K)) = calm z (d_nodes d)" unfolding nodes
        by (rule calm_other) (use st False in \<open>auto simp: P_def\<close>)
      then show ?thesis using False z same inv by (simp add: graph_inv_ex_def)
    qed
  qed
  have inv': "graph_inv_ex {g} (e K)" using ok' ids' below rows by (simp add: graph_inv_ex_def)
  have r': "get_graph g (e K) = Some (reopen_graph now r)"
    using r(1) row(2) get_by_upd_where [of "\<lambda>y. g_id y = g" g_id "reopen_graph now" g "d_graphs d"]
    by (simp add: get_graph_def e_def reopen_graph_def)
  have run: "g_status (reopen_graph now r) = GRunning" by (simp add: reopen_graph_def)
  note fi = dispatch_frontier_inv [OF inv' r' run f(1)]
  have "s = reopen_graph now r" using f(2) r' fi(3) by (simp add: get_graph_def)
  then show ?thesis
    using maybe_settle_inv [OF fi(1) f(2) _ _ fi(2) f(3)] run row(2) by (simp add: reopen_graph_def)
qed

section \<open>Publishing, subjects, sweeps\<close>

text \<open>The application code of a publication changes nothing of the graph tables.\<close>

definition graph_quiet :: "body \<Rightarrow> bool" where
  "graph_quiet body \<longleftrightarrow> (\<forall>d p d'. body d = Inr (p, d') \<longrightarrow> same_view d d' \<and> d_nodes d' = d_nodes d)"

lemma calm_same:
  assumes "\<And>y. y \<in> set ns \<Longrightarrow> same_static y (F y) \<and> n_status (F y) = n_status y"
  shows "calm r (map F ns) = calm r ns"
proof -
  have "rel_in (map F ns) g dep = rel_in ns g dep" for g dep
    using assms by (auto simp: rel_in_def same_static_def)
  then have "rel_all (map F ns) (F y) = rel_all ns y" if "y \<in> set ns" for y
    using assms [OF that] by (simp add: rel_all_def same_static_def)
  then show ?thesis using assms by (simp add: calm_def same_static_def cong: ball_cong bex_cong)
qed

lemma publish_inv:
  assumes inv: "graph_inv d" and body: "graph_quiet body" and pub: "publish now a body d = Inr d'"
  shows "graph_inv d'"
proof -
  from pub obtain p d1 where b: "body d = Inr (p, d1)"
    by (auto simp: publish_def rbind_Inr Let_def split: option.splits)
  then have v: "same_view d d1" "d_nodes d1 = d_nodes d" using body by (auto simp: graph_quiet_def)
  have inv1: "graph_inv d1" by (rule graph_inv_view [OF inv v])
  show ?thesis
  proof (cases "Option.bind a (\<lambda>a. Option.bind (get_task (a_task a) d) t_graph_node)")
    case (Some n)
    define i where "i = a_id (the a)"
    obtain x where x: "get_node n d = Some x"
      using pub Some by (auto simp: publish_def split: option.splits)
    have allowed: "n_task x = Some (a_task (the a))" "n_receipt x = None"
      using pub Some x by (auto simp: publish_def Let_def rbind_Inr)
    obtain p' where p': "p = Some p'"
      using pub b Some x by (cases p) (auto simp: publish_def Let_def rbind_Inr)
    have 2: "d' = upd_attempts (\<lambda>b. a_id b = i) (\<lambda>b. b\<lparr>a_committed_at := Some now\<rparr>)
      (upd_nodes (\<lambda>y. n_id y = n \<and> n_receipt y = None)
        (\<lambda>y. y\<lparr>n_receipt := Some p', n_receipt_attempt := Some i\<rparr>) d1)"
      using pub b Some x p' allowed by (simp add: publish_def Let_def guard_def i_def)
    let ?F = "\<lambda>y. if n_id y = n \<and> n_receipt y = None
      then y\<lparr>n_receipt := Some p', n_receipt_attempt := Some i\<rparr> else y"
    have nodes: "d_nodes d' = map ?F (d_nodes d1)" by (simp add: 2 upd_where_def)
    have F: "same_static y (?F y) \<and> n_status (?F y) = n_status y \<and> node_trans (d_nodes d1) y (?F y)" for y
      by (auto simp: same_static_def node_trans_def node_shape_def stay)
    have "graph_inv_ex UNIV d'"
      by (rule graph_inv_move [OF graph_inv_mono [OF inv1] _ nodes])
        (use F in \<open>auto simp: 2 same_view_def settled_log_def\<close>)
    moreover have "calm r (d_nodes d') = calm r (d_nodes d1)" for r
      unfolding nodes by (rule calm_same) (use F in blast)
    ultimately show ?thesis using inv1 by (simp add: graph_inv_ex_def 2)
  next
    case None
    then show ?thesis using pub b inv1 by (simp add: publish_def)
  qed
qed

lemma bind_subject_inv:
  assumes "graph_inv d" "bind_subject now g s d = Inr d'"
  shows "graph_inv d'"
proof -
  from assms(2) obtain st si where d': "d' = upd_pars (\<lambda>c. p_graph_id c = Some g \<and> p_subject_type c = None)
      (\<lambda>c. c\<lparr>p_subject_type := st, p_subject_id := si\<rparr>)
      (upd_chains (\<lambda>c. c_graph_id c = Some g \<and> c_subject_type c = None)
        (\<lambda>c. c\<lparr>c_subject_type := st, c_subject_id := si\<rparr>)
        (upd_tasks (\<lambda>t. t_graph_id t = Some g \<and> t_subject_type t = None)
          (\<lambda>t. t\<lparr>t_subject_type := st, t_subject_id := si\<rparr>)
          (upd_graphs (\<lambda>x. g_id x = g) (\<lambda>x. x\<lparr>g_subject_type := st, g_subject_id := si,
             g_updated := now\<rparr>) d)))"
    by (auto simp: bind_subject_def Let_def elim!: rbindE)
  then have "d_graphs d' = map (\<lambda>x. if g_id x = g
      then x\<lparr>g_subject_type := st, g_subject_id := si, g_updated := now\<rparr> else x) (d_graphs d)"
    "d_nodes d' = d_nodes d" "d_settlements d' = d_settlements d" "settled_log d' = settled_log d"
    "d_next d' = d_next d"
    by (simp_all add: upd_where_def settled_log_def)
  note e = this
  show ?thesis
    by (rule graph_inv_rows [OF assms(1) _ e(1)]) (simp_all add: e graph_update_def)
qed

lemma flag_each_inv: "graph_inv d \<Longrightarrow> graph_inv (snd (flag_each now rs d))"
proof (induction now rs d rule: flag_each.induct)
  case (2 now r rs d)
  let ?P = "\<lambda>x. g_id x = g_id r \<and> g_overdue_at x = None"
  let ?e = "emit (GraphOverdue (g_id r)) (upd_graphs ?P (g_overdue_at_update (\<lambda>_. Some now)) d)"
  have "graph_inv ?e"
    by (rule graph_inv_rows [OF 2(3), of "\<lambda>x. if ?P x then g_overdue_at_update (\<lambda>_. Some now) x else x"])
      (auto simp: graph_update_def upd_where_def settled_log_def is_settlement_def)
  then show ?case using 2 by (auto simp: Let_def case_prod_beta)
qed simp

lemma flag_overdue_inv: "graph_inv d \<Longrightarrow> graph_inv (snd (flag_overdue w now d))"
  by (simp add: flag_overdue_def flag_each_inv split: option.splits)

lemma dispatch_settlement_view: "same_view d (dispatch_settlement w now s d)"
  "d_nodes (dispatch_settlement w now s d) = d_nodes d"
  by (simp_all add: same_view_def settled_log_def dispatch_settlement_def)

lemma fold_dispatch_settlement_inv: "graph_inv d \<Longrightarrow> graph_inv (fold (dispatch_settlement w now) ss d)"
  by (induction ss arbitrary: d) (auto intro: graph_inv_view dispatch_settlement_view)

lemma backfill_inv: "graph_inv d \<Longrightarrow> backfill rs d = Inr d' \<Longrightarrow> graph_inv d'"
proof (induction rs arbitrary: d)
  case (Cons r rs)
  from Cons.prems(2) obtain x d1 where x: "get_graph (g_id r) d = Some x"
    "(if g_settled_at x \<noteq> None then record_settlement x d else Inr d) = Inr d1" "backfill rs d1 = Inr d'"
    by (auto simp: rbind_Inr locked_Inr)
  then have "d1 = d"
    using record_settlement_noop [OF graph_inv_row(3) [OF Cons.prems(1) x(1)]] by (auto split: if_splits)
  with x(3) Cons show ?case by blast
qed simp

lemma replay_inv: "graph_inv d \<Longrightarrow> replay_settled_hooks w now grace d = Inr (n, d') \<Longrightarrow> graph_inv d'"
  by (auto simp: replay_settled_hooks_def rbind_Inr Let_def intro: fold_dispatch_settlement_inv backfill_inv)

section \<open>Starting a plan\<close>

lemma plan_rows_nth:
  assumes "j < length ss"
  shows "plan_rows m i g pos ss ! j =
    plan_node (i + j) g (pos + j) (case map_of m (ns_key (ss ! j)) of Some v \<Rightarrow> v | None \<Rightarrow> 0) (ss ! j)"
  using assms
proof (induction ss arbitrary: i pos j)
  case (Cons s ss)
  then show ?case by (cases j) auto
qed simp

lemma length_plan_rows [simp]: "length (plan_rows m i g pos ss) = length ss"
  by (induction ss arbitrary: i pos) auto

lemma plan_rows_set:
  "n \<in> set (plan_rows m i g pos ss) \<longleftrightarrow> (\<exists>j < length ss. n = plan_node (i + j) g (pos + j)
     (case map_of m (ns_key (ss ! j)) of Some v \<Rightarrow> v | None \<Rightarrow> 0) (ss ! j))"
  by (auto simp: in_set_conv_nth plan_rows_nth)

lemma plan_node_simps [simp]:
  "n_id (plan_node i g pos depth s) = i" "n_graph (plan_node i g pos depth s) = g"
  "n_key (plan_node i g pos depth s) = ns_key s" "n_after (plan_node i g pos depth s) = ns_after s"
  "n_depth (plan_node i g pos depth s) = depth" "n_status (plan_node i g pos depth s) = NPending"
  "n_task (plan_node i g pos depth s) = None" "n_settled_at (plan_node i g pos depth s) = None"
  by (simp_all add: plan_node_def)

lemma plan_rows_deps:
  assumes keys: "distinct (map ns_key ss)" and val: "validate_topology ss = Inr ()"
    and m: "compute_depths (edges_of ss) = Some m"
    and n: "n \<in> set (plan_rows m i g pos ss)" "dep \<in> set (n_after n)"
  shows "\<exists>x \<in> set (plan_rows m i g pos ss). n_key x = dep \<and> n_depth x < n_depth n"
proof -
  from n(1) obtain j where j: "j < length ss" "n = plan_node (i + j) g (pos + j)
     (case map_of m (ns_key (ss ! j)) of Some v \<Rightarrow> v | None \<Rightarrow> 0) (ss ! j)"
    by (auto simp: plan_rows_set)
  let ?e = "edges_of ss"
  have "distinct (map fst ?e)" using keys by (simp add: edges_of_def comp_def)
  moreover have "(ns_key (ss ! j), ns_after (ss ! j)) \<in> set ?e" using j(1) by (auto simp: edges_of_def)
  ultimately have mo: "map_of ?e (ns_key (ss ! j)) = Some (ns_after (ss ! j))" by simp
  have dep: "dep \<in> set (ns_after (ss ! j))" using n(2) j(2) by simp
  then have "(ns_key (ss ! j), dep) \<in> depends ?e" using mo by (simp add: depends_def deps_of_def)
  then obtain v u where vu: "map_of m (ns_key (ss ! j)) = Some v" "map_of m dep = Some u" "u < v"
    using compute_depths_correct [OF val] m by auto
  have "dep \<in> fst ` set ?e" using validated_edges(2) [OF val] mo dep by blast
  then obtain l where l: "l < length ss" "dep = ns_key (ss ! l)"
    by (auto simp: edges_of_def in_set_conv_nth)
  define x where "x = plan_node (i + l) g (pos + l)
    (case map_of m (ns_key (ss ! l)) of Some v \<Rightarrow> v | None \<Rightarrow> 0) (ss ! l)"
  have "x \<in> set (plan_rows m i g pos ss)" using l(1) by (auto simp: plan_rows_set x_def)
  moreover have "n_key x = dep" "n_depth x < n_depth n" using l vu j(2) by (simp_all add: x_def)
  ultimately show ?thesis by blast
qed

lemma nodes_ok_start:
  assumes ok: "nodes_ok ns" and fresh: "\<And>n. n \<in> set ns \<Longrightarrow> n_id n < g \<and> n_graph n < g"
    and keys: "distinct (map ns_key ss)" and val: "validate_topology ss = Inr ()"
    and m: "compute_depths (edges_of ss) = Some m"
  shows "nodes_ok (ns @ plan_rows m (Suc g) g 0 ss)"
proof -
  let ?R = "plan_rows m (Suc g) g 0 ss"
  have "map n_id ?R = map (\<lambda>j. Suc g + j) [0..<length ss]"
    by (rule nth_equalityI) (simp_all add: plan_rows_nth)
  then have "distinct (map n_id ?R)" by (simp add: distinct_map inj_on_def)
  moreover have R: "n_graph x = g \<and> g < n_id x \<and> n_status x = NPending \<and> node_shape x" if "x \<in> set ?R" for x
    using that by (auto simp: plan_rows_set node_shape_def)
  ultimately have ids: "distinct (map n_id (ns @ ?R))"
    using ok fresh by (fastforce simp: nodes_ok_def)
  have inj: "x = y" if xy: "x \<in> set ?R" "y \<in> set ?R" "n_key x = n_key y" for x y
  proof -
    obtain j l where jl: "j < length ss" "l < length ss" "x = plan_rows m (Suc g) g 0 ss ! j"
      "y = plan_rows m (Suc g) g 0 ss ! l" using xy(1,2) by (auto simp: in_set_conv_nth)
    then have "map ns_key ss ! j = map ns_key ss ! l" using xy(3) by (simp add: plan_rows_nth)
    then show ?thesis using jl nth_eq_iff_index_eq [OF keys, of j l] by simp
  qed
  have uniq: "\<forall>x \<in> set (ns @ ?R). \<forall>y \<in> set (ns @ ?R). n_graph x = n_graph y \<longrightarrow> n_key x = n_key y \<longrightarrow> x = y"
  proof -
    have old: "n_graph x \<noteq> g" if "x \<in> set ns" for x using fresh [OF that] by auto
    have "x = y" if "x \<in> set ns" "y \<in> set ns" "n_graph x = n_graph y" "n_key x = n_key y" for x y
      using ok that unfolding nodes_ok_def by blast
    then show ?thesis using old R inj unfolding set_append by (metis UnE)
  qed
  have old: "node_shape x \<and> (active (n_status x) \<longrightarrow> rel_all (ns @ ?R) x) \<and>
      (\<forall>dep \<in> set (n_after x). \<exists>y \<in> set (ns @ ?R). n_graph y = n_graph x \<and> n_key y = dep \<and>
         n_depth y < n_depth x)" if x: "x \<in> set ns" for x
  proof -
    have "rel_all ns x \<Longrightarrow> rel_all (ns @ ?R) x" by (auto simp: rel_all_def rel_in_def)
    then show ?thesis using ok x unfolding nodes_ok_def set_append by blast
  qed
  have new: "node_shape x \<and> (active (n_status x) \<longrightarrow> rel_all (ns @ ?R) x) \<and>
      (\<forall>dep \<in> set (n_after x). \<exists>y \<in> set (ns @ ?R). n_graph y = n_graph x \<and> n_key y = dep \<and>
         n_depth y < n_depth x)" if x: "x \<in> set ?R" for x
    using R [OF x] plan_rows_deps [OF keys val m x] R unfolding set_append
    by (auto simp: active_def)
  show ?thesis unfolding nodes_ok_def using ids uniq old new by (auto simp only: set_append)
qed

lemma fresh_graph_once:
  assumes "below_next d" "g_id r = d_next d" "g_status r = GRunning" "g_settled_at r = None"
    "g_generation r = 1"
  shows "settled_once r d"
proof -
  have ev: "GraphSettled (d_next d) k s \<notin> set (settled_log d)" for k s
    using assms(1) unfolding below_next_def by blast
  have se: "se_graph s \<noteq> d_next d" if "s \<in> set (d_settlements d)" for s
    using assms(1) that by (auto simp: below_next_def)
  have "announcements (d_next d) k d = 0" for k
    unfolding announcements_def hits_0 exists_where_iff using ev by (auto split: event.splits)
  moreover have "outbox_rows (d_next d) k d = 0" for k
    unfolding outbox_rows_0 exists_where_iff using se by auto
  ultimately show ?thesis
    using assms(2-5) by (simp add: settled_once_def live_graph_def settled_gens_def)
qed

definition planned :: "graph_row \<Rightarrow> node_row list \<Rightarrow> db \<Rightarrow> db" where
  "planned r rows d = d\<lparr>d_graphs := d_graphs d @ [r], d_nodes := d_nodes d @ rows,
     d_next := Suc (d_next d) + length rows\<rparr>"

lemma planned_inv:
  assumes inv: "graph_inv d" and r: "g_id r = d_next d" "g_status r = GRunning" "g_settled_at r = None"
      "g_generation r = 1"
    and keys: "distinct (map ns_key ss)" and val: "validate_topology ss = Inr ()"
    and m: "compute_depths (edges_of ss) = Some m"
  shows "graph_inv_ex {d_next d} (planned r (plan_rows m (Suc (d_next d)) (d_next d) 0 ss) d)"
proof -
  define R where "R = plan_rows m (Suc (d_next d)) (d_next d) 0 ss"
  let ?d = "planned r R d"
  have R: "n_graph x = d_next d \<and> n_id x < Suc (d_next d) + length ss" if "x \<in> set R" for x
    using that by (auto simp: R_def plan_rows_set)
  have below: "below_next d" using inv by (simp add: graph_inv_ex_def)
  have ok: "nodes_ok (d_nodes ?d)"
    using nodes_ok_start [OF _ _ keys val m, of "d_nodes d" "d_next d"] inv below
    by (simp add: planned_def R_def graph_inv_ex_def below_next_def)
  have ids: "distinct (map g_id (d_graphs ?d))"
    using inv below r(1) by (auto simp: planned_def graph_inv_ex_def below_next_def)
  have le: "i < d_next d \<Longrightarrow> i < d_next ?d" for i by (simp add: planned_def)
  have log: "settled_log ?d = settled_log d" by (simp add: planned_def settled_log_def)
  have below': "below_next ?d"
    unfolding below_next_def log
  proof (intro conjI ballI allI impI)
    show "g_id x < d_next ?d" if "x \<in> set (d_graphs ?d)" for x
      using that below r(1) by (auto simp: planned_def below_next_def)
    show "n_id x < d_next ?d" "n_graph x < d_next ?d" if "x \<in> set (d_nodes ?d)" for x
      using that below R by (auto simp: planned_def below_next_def R_def less_Suc_eq trans_less_add1)
    show "g < d_next ?d" if "GraphSettled g k s \<in> set (settled_log d)" for g k s
      using that below le unfolding below_next_def by blast
    show "se_graph s < d_next ?d" if "s \<in> set (d_settlements ?d)" for s
      using that below by (intro le) (simp add: planned_def below_next_def)
  qed
  have same: "settled_once y ?d = settled_once y d" for y
    by (simp add: settled_once_def announcements_def outbox_rows_def log) (simp add: planned_def)
  have "calm y (d_nodes ?d)" if "y \<in> set (d_graphs d)" for y
  proof -
    have "g_id y \<noteq> d_next d" using that below by (auto simp: below_next_def)
    then have "calm y (d_nodes ?d) = calm y (d_nodes d)"
      by (intro calm_cong) (use R in \<open>auto simp: planned_def\<close>)
    then show ?thesis using inv that by (simp add: graph_inv_ex_def)
  qed
  then show ?thesis unfolding R_def [symmetric]
    using ok ids below' same inv fresh_graph_once [OF below r] r(1)
    by (auto simp: graph_inv_ex_def planned_def)
qed

lemma start_inv:
  assumes inv: "graph_inv d" and st: "start w hash now p rk d = Inr (g, d')"
  shows "graph_inv d'"
proof -
  from st obtain m b where keys: "distinct (map ns_key (pl_nodes p))"
    and val: "validate_topology (pl_nodes p) = Inr ()"
    and m: "compute_depths (edges_of (pl_nodes p)) = Some m"
    and b: "validated_budgets (pl_budgets p) = Inr b" and ne: "pl_nodes p \<noteq> []"
    by (auto simp: start_def elim!: rbindE split: option.splits)
  define r where "r = plan_graph (d_next d) now p b rk (hash (pl_nodes p))"
  define e where "e = planned r (plan_rows m (Suc (d_next d)) (d_next d) 0 (pl_nodes p)) d"
  have "d' = d \<or> rbind (dispatch_frontier w now (d_next d) e) (\<lambda>d.
      rbind (maybe_settle w now r d) (\<lambda>(_, d). Inr (d_next d, d))) = Inr (g, d') \<or>
    (\<exists>x f. dispatch_frontier w now (d_next d) e = Inr f \<and> maybe_settle w now r f = Inr (x, d'))"
    using st keys val m b ne
    by (auto simp: start_def Let_def guard_def r_def e_def planned_def rbind_Inr
        split: option.splits if_splits)
  then consider "d' = d" | x f where "dispatch_frontier w now (d_next d) e = Inr f"
      "maybe_settle w now r f = Inr (x, d')"
    by (auto simp: rbind_Inr)
  then show ?thesis
  proof cases
    case 2
    have rs: "g_id r = d_next d" "g_status r = GRunning" "g_settled_at r = None" "g_generation r = 1"
      by (simp_all add: r_def plan_graph_def)
    have inv': "graph_inv_ex {d_next d} e"
      unfolding e_def by (rule planned_inv [OF inv rs keys val m])
    have "get_by g_id (d_next d) (d_graphs d) = None"
      unfolding get_by_None using inv by (auto simp: graph_inv_ex_def below_next_def)
    then have r': "get_graph (d_next d) e = Some r"
      by (simp add: get_graph_def e_def planned_def get_by_append rs)
    have "rbind (dispatch_frontier w now (d_next d) e) (maybe_settle w now r) = Inr (x, d')"
      using 2 by simp
    with advance_inv [OF inv' r' rs(2,1)] show ?thesis by blast
  qed (use inv in simp)
qed

section \<open>Runs\<close>

text \<open>
  One operation on the graph tables, or any operation of the rest of the program, which changes
  nothing of what the invariant reads.
\<close>

inductive graph_step :: "world \<Rightarrow> (node_spec list \<Rightarrow> string) \<Rightarrow> db \<Rightarrow> db \<Rightarrow> bool" for w hash where
  step_start: "start w hash now p rk d = Inr (g, d') \<Longrightarrow> graph_step w hash d d'"
| step_completion: "handle_node_completion w now t d = Inr d' \<Longrightarrow> graph_step w hash d d'"
| step_skip: "skip w now g k reason d = Inr d' \<Longrightarrow> graph_step w hash d d'"
| step_cancel: "cancel w now g d = Inr d' \<Longrightarrow> graph_step w hash d d'"
| step_approve: "approve w now g k d = Inr d' \<Longrightarrow> graph_step w hash d d'"
| step_reject: "reject w now g k reason d = Inr d' \<Longrightarrow> graph_step w hash d d'"
| step_resume: "resume w now g ks d = Inr (n, d') \<Longrightarrow> graph_step w hash d d'"
| step_publish: "publish now a body d = Inr d' \<Longrightarrow> graph_quiet body \<Longrightarrow> graph_step w hash d d'"
| step_bind: "bind_subject now g s d = Inr d' \<Longrightarrow> graph_step w hash d d'"
| step_replay: "replay_settled_hooks w now grace d = Inr (n, d') \<Longrightarrow> graph_step w hash d d'"
| step_overdue: "flag_overdue w now d = (n, d') \<Longrightarrow> graph_step w hash d d'"
| step_other: "same_view d d' \<Longrightarrow> d_nodes d' = d_nodes d \<Longrightarrow> graph_step w hash d d'"

inductive_cases graph_stepE: "graph_step w hash d d'"

lemmas graph_op_invs = start_inv handle_node_completion_inv skip_inv cancel_inv approve_inv
  reject_inv resume_inv publish_inv bind_subject_inv replay_inv graph_inv_view

lemma graph_step_inv:
  assumes "graph_step w hash d d'" "graph_inv d"
  shows "graph_inv d'"
proof -
  have overdue: "graph_inv d'" if "flag_overdue w now d = (n, d')" for now n
    using flag_overdue_inv [OF assms(2), of w now] that by simp
  from assms(1) show ?thesis
    by (rule graph_stepE) (auto intro: graph_op_invs [OF assms(2)] overdue)
qed

interpretation graphs: step_invariant "graph_step w hash" graph_inv for w hash
  by unfold_locales (rule graph_step_inv)

lemma empty_db_inv: "graph_inv empty_db"
  by (simp add: graph_inv_ex_def nodes_ok_def below_next_def empty_db_def settled_log_def)

lemma reachable_inv: "run_steps (graph_step w hash) empty_db d \<Longrightarrow> graph_inv d"
  by (rule graphs.run_keeps [OF _ empty_db_inv])

end
