(* ===== verification/Qraft_GraphProps.thy ===== *)
theory Qraft_GraphProps
  imports Qraft_GraphReach
begin

text \<open>
  The properties of graph execution: what holds of every database a run of graph operations
  reaches from the empty one, and what the single operations promise.
\<close>

section \<open>A concrete run\<close>

definition demo_plan :: plan where
  "demo_plan = \<lparr>pl_subject_type = None, pl_subject_id = None, pl_kind = Some ''etl'',
     pl_revision = None, pl_metadata = None, pl_started_at = None, pl_on_settled = Some ''app.done'',
     pl_on_settled_kwargs = [], pl_previous = None, pl_budgets = None, pl_cluster = None,
     pl_nodes = [demo_spec ''a'' [], (demo_spec ''b'' [''a''])\<lparr>ns_gate := True\<rparr>]\<rparr>"

definition db_of :: "('a \<times> db) res \<Rightarrow> db" where
  "db_of r = (case r of Inr (_, d) \<Rightarrow> d | Inl _ \<Rightarrow> empty_db)"

definition db_or :: "db res \<Rightarrow> db" where
  "db_or r = (case r of Inr d \<Rightarrow> d | Inl _ \<Rightarrow> empty_db)"

text \<open>The plan started; its first node completed; its second, gated, node rejected.\<close>

definition run_db1 :: db where
  "run_db1 = db_of (start demo_world (\<lambda>_. ''h'') 1 demo_plan (Some ''req'') empty_db)"

definition first_task :: task_row where
  "first_task = (hd (d_tasks run_db1))\<lparr>t_status := TSucceeded\<rparr>"

definition run_db2 :: db where
  "run_db2 = db_or (handle_node_completion demo_world 2 first_task run_db1)"

definition run_db3 :: db where
  "run_db3 = db_or (reject demo_world 3 100 ''b'' None run_db2)"

lemma run_db1_step: "start demo_world (\<lambda>_. ''h'') 1 demo_plan (Some ''req'') empty_db = Inr (100, run_db1)"
proof -
  have "(case start demo_world (\<lambda>_. ''h'') 1 demo_plan (Some ''req'') empty_db of
      Inr (g, d) \<Rightarrow> g = 100 | Inl _ \<Rightarrow> False)" by code_simp
  then show ?thesis by (auto simp: run_db1_def db_of_def split: sum.splits prod.splits)
qed

lemma run_db2_step: "handle_node_completion demo_world 2 first_task run_db1 = Inr run_db2"
proof -
  have "\<not> isl (handle_node_completion demo_world 2 first_task run_db1)" by code_simp
  then show ?thesis by (auto simp: run_db2_def db_or_def split: sum.splits)
qed

lemma run_db3_step: "reject demo_world 3 100 ''b'' None run_db2 = Inr run_db3"
proof -
  have "\<not> isl (reject demo_world 3 100 ''b'' None run_db2)" by code_simp
  then show ?thesis by (auto simp: run_db3_def db_or_def split: sum.splits)
qed

lemma run_db1_reached: "run_steps (graph_step demo_world (\<lambda>_. ''h'')) empty_db run_db1"
  by (rule run_step, rule run_refl, rule step_start, rule run_db1_step)

lemma run_db2_reached: "run_steps (graph_step demo_world (\<lambda>_. ''h'')) empty_db run_db2"
  by (rule run_step, rule run_db1_reached, rule step_completion, rule run_db2_step)

lemma run_db3_reached: "run_steps (graph_step demo_world (\<lambda>_. ''h'')) empty_db run_db3"
  by (rule run_step, rule run_db2_reached, rule step_reject, rule run_db3_step)

lemma run_rows:
  "map g_status (d_graphs run_db1) = [GRunning]" "map n_status (d_nodes run_db1) = [NRunning, NPending]"
  "map n_key (d_nodes run_db1) = [''a'', ''b'']" "map n_after (d_nodes run_db1) = [[], [''a'']]"
  "map g_status (d_graphs run_db2) = [GWaiting]" "map n_status (d_nodes run_db2) = [NSucceeded, NWaiting]"
  "map n_key (d_nodes run_db2) = [''a'', ''b'']" "map n_after (d_nodes run_db2) = [[], [''a'']]"
  "map g_status (d_graphs run_db3) = [GCancelled]" "map g_generation (d_graphs run_db3) = [1]"
  "map g_id (d_graphs run_db3) = [100]" "map g_id (d_graphs run_db2) = [100]"
  "map g_id (d_graphs run_db1) = [100]"
  "map g_settled_at (d_graphs run_db3) = [Some 3]"
  by code_simp+

section \<open>Safety, liveness and settlement of every run\<close>

text \<open>
  C3: dependencies are respected. In every reachable database a node that was dispatched, parked
  at its gate, or has run has each of its declared dependencies present in its graph, settled as
  succeeded or skipped. No sequence of completions, skips, gate decisions, cancels, resumes or
  re-runs breaks this.
\<close>

theorem dispatched_nodes_are_released:
  assumes "run_steps (graph_step w hash) empty_db d" "n \<in> set (d_nodes d)"
    and "n_status n \<in> {NRunning, NWaiting, NSucceeded, NFailed}" "dep \<in> set (n_after n)"
  shows "\<exists>m \<in> set (d_nodes d). n_graph m = n_graph n \<and> n_key m = dep \<and>
    (n_status m = NSucceeded \<or> n_status m = NSkipped)"
proof -
  have "nodes_ok (d_nodes d)" using reachable_inv [OF assms(1)] by (simp add: graph_inv_ex_def)
  then have "rel_all (d_nodes d) n" using assms(2,3) by (auto simp: nodes_ok_def active_def)
  then show ?thesis using assms(4) by (auto simp: rel_all_def rel_in_def releases_def)
qed

theorem dispatched_nodes_are_released_witness:
  "\<exists>m \<in> set (d_nodes run_db2). n_key m = ''a'' \<and> (n_status m = NSucceeded \<or> n_status m = NSkipped)"
proof -
  obtain a b where ab: "d_nodes run_db2 = [a, b]" "n_status b = NWaiting" "n_after b = [''a'']"
    using run_rows(6,8) by (auto simp: map_eq_Cons_conv)
  then show ?thesis
    using dispatched_nodes_are_released [OF run_db2_reached, of b "''a''"] by auto
qed

text \<open>
  C5: no graph is stuck. In every reachable database a live graph has no node that could be
  dispatched and was not; a running one has a node that runs, whose completion will advance it;
  a parked one has a node that waits for a decision and none that runs, failed or was cancelled.
  So a graph with nothing left to happen is settled.
\<close>

theorem live_graphs_progress:
  assumes "run_steps (graph_step w hash) empty_db d" "r \<in> set (d_graphs d)" "live_graph (g_status r)"
  shows "ready_nodes (g_id r) d = [] \<and>
    (g_status r = GRunning \<longrightarrow> NRunning \<in> n_status ` set (graph_nodes (g_id r) d)) \<and>
    (g_status r = GWaiting \<longrightarrow> NWaiting \<in> n_status ` set (graph_nodes (g_id r) d) \<and>
       n_status ` set (graph_nodes (g_id r) d) \<inter> {NRunning, NFailed, NCancelled} = {})"
proof -
  have c: "calm r (d_nodes d)"
    using reachable_inv [OF assms(1)] assms(2) by (simp add: graph_inv_ex_def)
  have "ready_nodes (g_id r) d = []"
  proof (rule ccontr)
    assume "ready_nodes (g_id r) d \<noteq> []"
    then obtain n where "n \<in> set (ready_nodes (g_id r) d)" by (meson list.set_sel(1))
    then show False using c assms(3) by (auto simp: calm_def ready_nodes_iff)
  qed
  moreover have "NRunning \<in> n_status ` set (graph_nodes (g_id r) d)" if "g_status r = GRunning"
    using c assms(3) that unfolding calm_def by (force simp: graph_nodes_set)
  moreover have "NWaiting \<in> n_status ` set (graph_nodes (g_id r) d)" if "g_status r = GWaiting"
    using c assms(3) that unfolding calm_def by (force simp: graph_nodes_set)
  moreover have "n_status ` set (graph_nodes (g_id r) d) \<inter> {NRunning, NFailed, NCancelled} = {}"
    if "g_status r = GWaiting"
    using c assms(3) that unfolding calm_def by (auto simp: graph_nodes_set)
  ultimately show ?thesis by blast
qed

theorem live_graphs_progress_witness:
  "ready_nodes 100 run_db1 = [] \<and> NRunning \<in> n_status ` set (graph_nodes 100 run_db1) \<and>
   ready_nodes 100 run_db2 = [] \<and> NWaiting \<in> n_status ` set (graph_nodes 100 run_db2)"
proof -
  obtain r where r: "d_graphs run_db1 = [r]" "g_status r = GRunning" "g_id r = 100"
    using run_rows(1,13) by (auto simp: map_eq_Cons_conv)
  obtain q where q: "d_graphs run_db2 = [q]" "g_status q = GWaiting" "g_id q = 100"
    using run_rows(5,12) by (auto simp: map_eq_Cons_conv)
  show ?thesis
    using live_graphs_progress [OF run_db1_reached, of r] live_graphs_progress [OF run_db2_reached, of q] r q
    by (simp add: live_graph_def)
qed

text \<open>
  C4: every generation settles exactly once. In every reachable database a graph has announced
  each of its past generations once, its current one once if it is settled and not at all if it
  is live; with a settled hook declared the outbox holds exactly one row for each of those
  announcements. Resumes, cancels racing completions, duplicate deliveries and the replay sweep
  neither lose nor repeat a settlement.
\<close>

theorem generations_settle_exactly_once:
  assumes "run_steps (graph_step w hash) empty_db d" "r \<in> set (d_graphs d)" "1 \<le> k"
  defines "expected \<equiv> (if k < g_generation r \<or> k = g_generation r \<and> \<not> live_graph (g_status r) then 1 else 0)"
  shows "length (filter (\<lambda>e. \<exists>s. e = GraphSettled (g_id r) k s) (d_events d)) = expected \<and>
    (given (g_on_settled r) \<noteq> None \<longrightarrow>
      length (filter (\<lambda>s. se_graph s = g_id r \<and> se_generation s = k) (d_settlements d)) = expected)"
proof -
  have once: "settled_once r d" using reachable_inv [OF assms(1)] assms(2) by (simp add: graph_inv_ex_def)
  have "filter (\<lambda>e. case e of GraphSettled g' k' s \<Rightarrow> g' = g_id r \<and> k' = k | _ \<Rightarrow> False) (settled_log d) =
      filter (\<lambda>e. \<exists>s. e = GraphSettled (g_id r) k s) (d_events d)"
    unfolding settled_log_def filter_filter
    by (rule filter_cong) (auto simp: is_settlement_def split: event.splits)
  then have "announcements (g_id r) k d = length (filter (\<lambda>e. \<exists>s. e = GraphSettled (g_id r) k s) (d_events d))"
    by (simp add: announcements_def hits_def)
  moreover have "settled_gens r k = expected"
    using once by (auto simp: settled_gens_def expected_def settled_once_def)
  ultimately show ?thesis
    using once assms(3) unfolding settled_once_def outbox_rows_def hits_def by metis
qed

theorem generations_settle_exactly_once_witness:
  "length (filter (\<lambda>e. \<exists>s. e = GraphSettled 100 1 s) (d_events run_db3)) = 1"
proof -
  obtain r where "d_graphs run_db3 = [r]" "g_status r = GCancelled" "g_generation r = 1" "g_id r = 100"
    using run_rows(9,10,11) by (auto simp: map_eq_Cons_conv)
  then show ?thesis
    using generations_settle_exactly_once [OF run_db3_reached, of r 1] by (simp add: live_graph_def)
qed

section \<open>Single operations\<close>

text \<open>
  A superseded completion is dropped. When the node is bound to another task than the one
  that completed (a resume re-dispatched it, or reset it), the completion changes nothing, be it
  the first to arrive or a redelivery.
\<close>

theorem superseded_completion_dropped:
  assumes "t_graph_node t = Some n" "get_node n d = Some x" "n_task x \<noteq> Some (t_id t)"
    and "get_graph (n_graph x) d \<noteq> None"
  shows "handle_node_completion w now t d = Inr d"
proof -
  have "n_id x = n" using get_by_SomeD [OF assms(2) [unfolded get_node_def]] by simp
  then show ?thesis
    using assms by (auto simp: handle_node_completion_def record_completion_def locked_def
        dispatch_settled_hook_def split: option.splits)
qed

theorem superseded_completion_dropped_witness:
  "handle_node_completion demo_world 9 (first_task\<lparr>t_id := 7\<rparr>) run_db2 = Inr run_db2"
proof -
  have "\<exists>x. get_node 101 run_db2 = Some x \<and> n_task x \<noteq> Some 7 \<and> get_graph (n_graph x) run_db2 \<noteq> None"
    by (rule exI [of _ "the (get_node 101 run_db2)"]) code_simp
  moreover have "t_graph_node (first_task\<lparr>t_id := 7\<rparr>) = Some 101" by code_simp
  ultimately show ?thesis using superseded_completion_dropped by fastforce
qed

text \<open>
  What a resume re-runs. The closure is exactly the nodes reachable from the starting set
  along the dependency edges, less those still pending; the starting set is the one named, or
  the failed nodes when none is.
\<close>

theorem rerun_closure_exact:
  assumes "rerun_closure g nodes d = Inr K"
  shows "set K = {k. (\<exists>s \<in> (case nodes of Some ks \<Rightarrow> set ks
        | None \<Rightarrow> {k. has_status g d NFailed k}). (s, k) \<in> (dep_edge (after_edges g d))\<^sup>*) \<and>
      \<not> has_status g d NPending k}"
proof -
  define named where "named = (case nodes of Some ks \<Rightarrow> ks
    | None \<Rightarrow> filter (has_status g d NFailed) (map n_key (graph_nodes g d)))"
  have K: "K = filter (\<lambda>k. \<not> has_status g d NPending k) (closure_loop (after_edges g d) named [])"
    using assms by (auto simp: rerun_closure_def rbind_Inr Let_def named_def split: option.splits)
  have "set named = (case nodes of Some ks \<Rightarrow> set ks | None \<Rightarrow> {k. has_status g d NFailed k})"
    by (auto simp: named_def has_status_def exists_where_iff graph_nodes_set split: option.splits)
  then show ?thesis using closure_loop_exact [of "after_edges g d" named] by (auto simp: K)
qed

theorem rerun_closure_exact_witness:
  "rerun_closure 100 (Some [''a'']) run_db2 = Inr [''b'', ''a''] \<and>
   (''a'', ''b'') \<in> (dep_edge (after_edges 100 run_db2))\<^sup>*"
proof -
  have r: "rerun_closure 100 (Some [''a'']) run_db2 = Inr [''b'', ''a'']" by code_simp
  then show ?thesis using rerun_closure_exact [OF r] by auto
qed

lemma request_key_kept:
  assumes "dispatch_frontier w now g e = Inr f" "maybe_settle w now r f = Inr (x, d')"
  shows "map (\<lambda>x. (g_id x, g_request_key x, g_plan_hash x)) (d_graphs d') =
    map (\<lambda>x. (g_id x, g_request_key x, g_plan_hash x)) (d_graphs e)"
proof -
  let ?v = "\<lambda>d. map (\<lambda>x. (g_id x, g_request_key x, g_plan_hash x)) (d_graphs d)"
  have "d_graphs f = d_graphs e"
  proof -
    from assms(1) have "f = e \<or> (\<exists>s ns. dispatch_all w now s ns e = Inr f)"
      by (auto simp: dispatch_frontier_def elim!: rbindE split: if_splits)
    then show ?thesis
    proof (elim disjE exE)
      fix s ns assume "dispatch_all w now s ns e = Inr f"
      then obtain F where "same_view e f" by (rule dispatch_all_effect)
      then show ?thesis by (simp add: same_view_def)
    qed simp
  qed
  moreover have settle: "?v d' = ?v f" if "settle w now r s f = Inr (x, d')" for s
  proof -
    have rec: "d_graphs b = d_graphs a" if "record_settlement q a = Inr b" for q a b
      using record_settlement_effect [OF that] by (metis db.select_convs(3) db.surjective db.update_convs(5))
    from that show ?thesis
      by (auto simp: settle_def Let_def elim!: rbindE split: if_splits dest!: rec intro!: map_upd_where)
  qed
  moreover have "?v d' = ?v f"
    using assms(2) settle
    by (auto simp: maybe_settle_def Let_def split: if_splits intro!: map_upd_where)
  ultimately show ?thesis by simp
qed

lemma find_by_view:
  assumes "map (\<lambda>x. (g_id x, g_request_key x, g_plan_hash x)) xs =
    map (\<lambda>x. (g_id x, g_request_key x, g_plan_hash x)) ys"
  shows "map_option (\<lambda>x. (g_id x, g_plan_hash x)) (find (\<lambda>x. g_request_key x = Some k) xs) =
    map_option (\<lambda>x. (g_id x, g_plan_hash x)) (find (\<lambda>x. g_request_key x = Some k) ys)"
  using assms by (induction xs arbitrary: ys) (auto simp: Cons_eq_map_conv)

definition keyed_graph :: "string \<Rightarrow> db \<Rightarrow> (id \<times> string option) option" where
  "keyed_graph k d = map_option (\<lambda>x. (g_id x, g_plan_hash x))
     (find (\<lambda>x. g_request_key x = Some k) (d_graphs d))"

lemma start_keyed:
  assumes "start w hash now p (Some k) d = Inr (g, d1)" "k \<noteq> []"
  shows "keyed_graph k d1 = Some (g, Some (hash (pl_nodes p)))"
proof (cases "find (\<lambda>x. g_request_key x = Some k) (d_graphs d)")
  case (Some x)
  then show ?thesis
    using assms by (auto simp: start_def given_def keyed_graph_def Let_def elim!: rbindE
        split: option.splits if_splits)
next
  case None
  then obtain b m f x where g: "g = d_next d"
    and f: "dispatch_frontier w now g (planned (plan_graph g now p b (Some k) (hash (pl_nodes p)))
      (plan_rows m (Suc g) g 0 (pl_nodes p)) d) = Inr f"
    "maybe_settle w now (plan_graph g now p b (Some k) (hash (pl_nodes p))) f = Inr (x, d1)"
    using assms by (auto simp: start_def given_def Let_def planned_def elim!: rbindE
        split: option.splits if_splits)
  show ?thesis
    using find_by_view [OF request_key_kept [OF f], of k] None
    by (simp add: keyed_graph_def planned_def find_append plan_graph_def g)
qed

text \<open>
  Starting is idempotent on the request key. A plan started under a key can be started again:
  the same plan returns the graph that exists and changes nothing, and a plan with another hash is
  refused.
\<close>

theorem start_idempotent:
  assumes "start w hash now p (Some k) d = Inr (g, d1)" "k \<noteq> []"
  shows "start w hash later p (Some k) d1 = Inr (g, d1) \<and>
    (hash (pl_nodes q) \<noteq> hash (pl_nodes p) \<longrightarrow> isl (start w hash later q (Some k) d1))"
proof -
  from start_keyed [OF assms] obtain x where x: "find (\<lambda>x. g_request_key x = Some k) (d_graphs d1) = Some x"
    "g_id x = g" "g_plan_hash x = Some (hash (pl_nodes p))" by (auto simp: keyed_graph_def)
  from assms obtain m b where "pl_nodes p \<noteq> []" "distinct (map ns_key (pl_nodes p))"
    "validate_topology (pl_nodes p) = Inr ()" "compute_depths (edges_of (pl_nodes p)) = Some m"
    "validated_budgets (pl_budgets p) = Inr b"
    by (auto simp: start_def elim!: rbindE split: option.splits)
  then have "start w hash later p (Some k) d1 = Inr (g, d1)"
    using x assms(2) by (simp add: start_def given_def guard_def)
  moreover have "isl (start w hash later q (Some k) d1)" if "hash (pl_nodes q) \<noteq> hash (pl_nodes p)"
  proof (cases "start w hash later q (Some k) d1")
    case (Inr y)
    then show ?thesis using that x assms(2)
      by (auto simp: start_def given_def Let_def elim!: rbindE split: option.splits)
  qed simp
  ultimately show ?thesis by blast
qed

theorem start_idempotent_witness:
  "start demo_world (\<lambda>_. ''h'') 5 demo_plan (Some ''req'') run_db1 = Inr (100, run_db1)"
  using start_idempotent [OF run_db1_step] by simp

text \<open>
  C18: publication authority. An attempt whose task the node no longer points at, and any attempt
  once a receipt is recorded, is refused before its application code runs; a publication that
  commits leaves the receipt on the node, so the next one is refused.
\<close>

theorem publish_once:
  assumes "get_task (a_task a) d = Some t" "t_graph_node t = Some n" "get_node n d = Some x"
    and "publish now (Some a) body d = Inr d'"
    and "\<And>e p e'. body e = Inr (p, e') \<Longrightarrow> d_nodes e' = d_nodes e"
  shows "n_task x = Some (a_task a) \<and> n_receipt x = None \<and>
    (\<exists>y p. get_node n d' = Some y \<and> n_receipt y = Some p \<and> n_receipt_attempt y = Some (a_id a))"
proof -
  have bound: "n_task x = Some (a_task a)" "n_receipt x = None"
    using assms(1-4) by (auto simp: publish_def Let_def rbind_Inr)
  then obtain p e where e: "body d = Inr (Some p, e)" and d': "d' = upd_attempts (\<lambda>b. a_id b = a_id a)
      (\<lambda>b. b\<lparr>a_committed_at := Some now\<rparr>) (upd_nodes (\<lambda>y. n_id y = n \<and> n_receipt y = None)
        (\<lambda>y. y\<lparr>n_receipt := Some p, n_receipt_attempt := Some (a_id a)\<rparr>) e)"
    using assms(1-4) by (auto simp: publish_def Let_def elim!: rbindE split: option.splits)
  have "n_id x = n" using get_by_SomeD [OF assms(3) [unfolded get_node_def]] by simp
  moreover have "get_node n e = Some x" using assms(3) assms(5) [OF e] by (simp add: get_node_def)
  ultimately show ?thesis using bound
    by (simp add: d' get_node_def get_by_upd_where)
qed

definition quiet_body :: body where
  "quiet_body d = Inr (Some [(''rows'', PInt 3)], d)"

definition first_attempt :: attempt_row where
  "first_attempt = hd (d_attempts run_db1)"

theorem publish_once_witness:
  "\<exists>d' y p. publish 4 (Some first_attempt) quiet_body run_db1 = Inr d' \<and> get_node 101 d' = Some y \<and>
     n_receipt y = Some p"
proof -
  have "\<not> isl (publish 4 (Some first_attempt) quiet_body run_db1)" by code_simp
  then obtain d' where d': "publish 4 (Some first_attempt) quiet_body run_db1 = Inr d'"
    by (auto simp: isl_def) (metis sum.exhaust)
  obtain t x where "get_task (a_task first_attempt) run_db1 = Some t" "t_graph_node t = Some 101"
    "get_node 101 run_db1 = Some x"
    by (rule that [of "the (get_task (a_task first_attempt) run_db1)" "the (get_node 101 run_db1)"])
      code_simp+
  from publish_once [OF this d'] d' show ?thesis by (auto simp: quiet_body_def)
qed

text \<open>
  Rejecting at a gate. A reachable graph that is parked and has a node rejected settles in
  the same call, as CANCELLED and never as FAILED, whatever other nodes still wait.
\<close>

theorem reject_cancels_parked_graph:
  assumes "run_steps (graph_step w hash) empty_db d" "get_graph g d = Some r" "g_status r = GWaiting"
    and "reject w' now g k reason d = Inr d'"
  shows "\<exists>r'. get_graph g d' = Some r' \<and> g_status r' = GCancelled \<and> g_settled_at r' = Some now"
proof -
  have inv: "graph_inv d" by (rule reachable_inv [OF assms(1)])
  note row = graph_inv_row [OF inv assms(2)]
  have "calm r (d_nodes d)" using inv row(1) by (simp add: graph_inv_ex_def)
  then have parked: "n_status n \<notin> {NRunning, NFailed}" if "n \<in> set (d_nodes d)" "n_graph n = g" for n
    using assms(3) row(2) that by (simp add: calm_def live_graph_def)
  from assms(4) obtain s d3 where rj: "reject_node w' now g k reason d = Inr (s, d3)"
    and d': "d' = dispatch_settled_hook w' now s d3" by (auto simp: reject_def rbind_Inr)
  obtain q d2 r2 where ms: "maybe_settle w' now q d2 = Inr (s, d3)"
    and q: "g_id q = g" and inv2: "graph_inv_ex {g} d2" and r2: "get_graph g d2 = Some r2"
      "g_status r2 = GRunning" and ready: "ready_nodes g d2 = []"
    and canc: "\<exists>n \<in> set (d_nodes d2). n_graph n = g \<and> n_key n = k \<and> n_status n = NCancelled"
    and rest: "\<And>n. n \<in> set (d_nodes d2) \<Longrightarrow> n_status n \<noteq> NCancelled \<Longrightarrow> n \<in> set (d_nodes d)"
    by (rule reject_node_setup [OF inv rj]) blast
  have ss: "NRunning \<notin> set (map n_status (graph_nodes g d2))" "NFailed \<notin> set (map n_status (graph_nodes g d2))"
    "NCancelled \<in> set (map n_status (graph_nodes g d2))"
    using canc rest parked by (force simp: graph_nodes_set)+
  then have st: "settle w' now q GCancelled d2 = Inr (s, d3)"
    using ms q ready by (simp add: maybe_settle_def Let_def)
  have "settled_once r2 d2" by (rule graph_inv_row(3) [OF inv2 r2(1)])
  then have opn: "g_settled_at r2 = None" using r2(2) by (simp add: settled_once_def live_graph_def)
  have "distinct (map g_id (d_graphs d2))" using inv2 by (simp add: graph_inv_ex_def)
  moreover have "get_graph (g_id q) d2 = Some r2" using q r2(1) by simp
  ultimately obtain sm where
    "d_graphs d3 = upd_where (\<lambda>x. x = r2) (settled_row now GCancelled sm) (d_graphs d2)"
    by (elim settle_cases [OF st]) (use opn r2(2) in \<open>simp_all add: live_graph_def emit_def\<close>)
  moreover have "d_graphs d' = d_graphs d3" by (simp add: d' )
  ultimately have "get_graph g d' = Some (settled_row now GCancelled sm r2)"
    using r2(1) get_by_upd_where [of "\<lambda>x. x = r2" g_id "settled_row now GCancelled sm" g "d_graphs d2"]
    by (simp add: get_graph_def settled_row_def)
  then show ?thesis by (simp add: settled_row_def)
qed

theorem reject_cancels_parked_graph_witness:
  "\<exists>r'. get_graph 100 run_db3 = Some r' \<and> g_status r' = GCancelled \<and> g_settled_at r' = Some 3"
proof -
  have "get_graph 100 run_db2 = Some (hd (d_graphs run_db2)) \<and> g_status (hd (d_graphs run_db2)) = GWaiting"
    by code_simp
  then show ?thesis
    using reject_cancels_parked_graph [OF run_db2_reached _ _ run_db3_step] by blast
qed

end
