(* ===== verification/Qraft_Tasks.thy ===== *)
theory Qraft_Tasks
  imports Qraft_GraphOps
begin

text \<open>
  Creating tasks (\<^verbatim>\<open>qraft/tasks.py\<close>): the checks and the idempotency key of
  \<open>async_task\<close>, the members of workflows, and the transaction both end in. The
  importability of a dotted path (\<open>imports\<close>) and the current trace context are parameters; the
  callable a caller passes is an object identity with its \<^verbatim>\<open>__module__\<close> and
  \<^verbatim>\<open>__name__\<close>. \<open>env\<close> is what other transactions commit between the
  lookup of an idempotency key and the insert under it. \<open>async_task\<close> is not one transaction, so
  it returns the database along with its result or error.
\<close>

section \<open>Options that django_q would consume\<close>

definition dq_opt_keys :: "string list" where
  "dq_opt_keys = [''hook'', ''group'', ''save'', ''sync'', ''cached'', ''ack_failure'',
     ''iter_count'', ''iter_cached'', ''chain'', ''broker'', ''cluster'', ''timeout'']"

definition reserved_q_options :: "string list" where
  "reserved_q_options = [''hook'', ''save'', ''sync'', ''cached'', ''ack_failure'', ''broker'', ''cluster'']"

definition no_keys :: "string list \<Rightarrow> dict \<Rightarrow> bool" where
  "no_keys bad d = list_all (\<lambda>kv. fst kv \<notin> set bad) d"

section \<open>The function path\<close>

datatype target = Path string | Object nat "string option" "string option"

definition importable_func_path :: "(string \<Rightarrow> nat option) \<Rightarrow> target \<Rightarrow> string res" where
  "importable_func_path imports f =
     (case f of
        Path s \<Rightarrow> Inr s
      | Object x md nm \<Rightarrow>
          (case (given nm, given md) of
             (Some n, Some m) \<Rightarrow>
               (let path = m @ ''.'' @ n in
                case imports path of
                  None \<Rightarrow> Inl (ValueError ''cannot import'')
                | Some y \<Rightarrow> if y = x then Inr path else Inl (ValueError ''resolves to a different object''))
           | _ \<Rightarrow> Inl (ValueError ''cannot derive an import path'')))"

definition runner_path :: string where
  "runner_path = ''qraft.runner.run_task''"

text \<open>The function, arguments and keyword arguments attempt 1 is enqueued with.\<close>

definition wrapped_dispatch :: "string \<Rightarrow> pyval list \<Rightarrow> dict \<Rightarrow> string \<times> pyval list \<times> dict" where
  "wrapped_dispatch func args kwargs =
     (if func = runner_path then (func, args, kwargs)
      else (runner_path, [PStr func, PList args, PDict kwargs], []))"

section \<open>Idempotency keys\<close>

definition existing_task_for_key :: "string \<Rightarrow> db \<Rightarrow> q2id option" where
  "existing_task_for_key k d =
     (case find (\<lambda>t. t_idem_key t = Some k) (d_tasks d) of
        None \<Rightarrow> None
      | Some t \<Rightarrow>
          Option.bind (first_row (rev (filter (\<lambda>a. a_q2 a \<noteq> None) (task_attempts (t_id t) d)))) a_q2)"

definition reclaim_dead_task_key :: "string \<Rightarrow> db \<Rightarrow> db" where
  "reclaim_dead_task_key k d =
     upd_tasks (\<lambda>t. t_idem_key t = Some k \<and> (t_status t = TFailed \<or> t_status t = TExhausted))
       (\<lambda>t. t\<lparr>t_idem_key := None\<rparr>) d"

section \<open>The transaction\<close>

text \<open>The insert of a task, under the unique constraint on the idempotency key.\<close>

definition create_task :: "task_row \<Rightarrow> db \<Rightarrow> db res" where
  "create_task t d =
     (if t_idem_key t \<noteq> None \<and> exists_where (\<lambda>x. t_idem_key x = t_idem_key t) (d_tasks d)
      then Inl IntegrityError else Inr (insert_task t d))"

text \<open>A task correlated with a graph takes the graph's subject when it names none.\<close>

definition inherit_subject :: "task_row \<Rightarrow> db \<Rightarrow> task_row res" where
  "inherit_subject t d =
     (case t_graph_id t of
        None \<Rightarrow> Inr t
      | Some g \<Rightarrow>
          if given (t_subject_type t) \<noteq> None then Inr t
          else rbind (locked g d) (\<lambda>r.
            Inr (t\<lparr>t_subject_type := g_subject_type r, t_subject_id := g_subject_id r\<rparr>)))"

text \<open>\<open>t\<close> and \<open>m\<close> are the metadata and the message; the id of the task is the next one.\<close>

definition create_and_enqueue ::
  "world \<Rightarrow> time \<Rightarrow> string option \<Rightarrow> task_row \<Rightarrow> q2msg \<Rightarrow> db \<Rightarrow> (id \<times> q2id \<times> db) res" where
  "create_and_enqueue w now trace t m d =
     rbind (inherit_subject t d) (\<lambda>t.
     let i = d_next d in
     rbind (create_task (t\<lparr>t_id := i\<rparr>) d) (\<lambda>d.
     rbind (q2_async_task w m d) (\<lambda>(q, d).
     rbind (insert_attempt ((blank_attempt (d_next d) i 1 now)\<lparr>a_q2 := Some q,
              a_cluster := Some (or_str (m_cluster m) (w_cluster w)),
              a_enqueued_at := Some now, a_trace := trace\<rparr>) d) (\<lambda>d.
     Inr (i, q, d)))))"

section \<open>Members of workflows\<close>

definition workflow_task ::
  "world \<Rightarrow> time \<Rightarrow> string \<Rightarrow> pyval list \<Rightarrow> dict \<Rightarrow> dict \<Rightarrow> policy option \<Rightarrow> id option \<Rightarrow> id option \<Rightarrow>
   labels \<Rightarrow> task_row" where
  "workflow_task w now func args kwargs opts p it ba lb = \<lparr>t_id = 0, t_status = TRunning, t_func = func,
     t_args = args, t_kwargs = kwargs, t_success_hook = None, t_success_args = [],
     t_success_kwargs = [], t_failure_hook = None, t_failure_args = [], t_failure_kwargs = [],
     t_hook_context = False, t_retry_policy = (case p of Some p \<Rightarrow> to_dict p | None \<Rightarrow> []),
     t_stall_after = opt_secs opts ''stall_after'', t_idem_key = None, t_priority = Default,
     t_progress = None, t_iter = it, t_batch = ba, t_graph_node = None,
     t_subject_type = lb_subject_type lb, t_subject_id = lb_subject_id lb,
     t_graph_id = lb_graph lb, t_node = lb_node lb, t_created = now, t_updated = now\<rparr>"

text \<open>A member belongs to an iter or to a batch; a chain step has neither and is linked by its row.\<close>

definition create_workflow_task ::
  "world \<Rightarrow> time \<Rightarrow> string option \<Rightarrow> string \<Rightarrow> pyval list \<Rightarrow> dict \<Rightarrow> dict \<Rightarrow> (wf_type \<times> id) option \<Rightarrow>
   labels \<Rightarrow> db \<Rightarrow> (id \<times> q2id \<times> db) res" where
  "create_workflow_task w now trace func args kwargs opts parent lb d =
     rbind (reject_workflow_member_opt_keys kwargs) (\<lambda>_.
     rbind (from_options (w_retry_defaults w) opts) (\<lambda>p.
     rbind (case parent of
         Some (ty, i) \<Rightarrow> guard (\<exists>x \<in> set (d_pars d). p_id x = i \<and> p_type x = ty) DoesNotExist
       | None \<Rightarrow> Inr ()) (\<lambda>_.
     let it = (case parent of Some (IterWf, i) \<Rightarrow> Some i | _ \<Rightarrow> None);
         ba = (case parent of Some (BatchWf, i) \<Rightarrow> Some i | _ \<Rightarrow> None);
         cluster = opt_str opts ''cluster'' in
     case wrapped_dispatch func args kwargs of (f, as, kw) \<Rightarrow>
       create_and_enqueue w now trace (workflow_task w now func args kwargs opts p it ba lb)
         \<lparr>m_func = f, m_args = as, m_kwargs = kw, m_hook = Some ''qraft.hooks.qraft_hook_handler'',
          m_task_name = None, m_ack_failure = True, m_save = Some True,
          m_group = (case parent of Some (_, i) \<Rightarrow> Some (show_nat i) | None \<Rightarrow> None), m_timeout = None,
          m_q_options = [], m_cluster = cluster, m_list_key = broker_list_key w cluster None\<rparr> d)))"

section \<open>\<^verbatim>\<open>async_task\<close>\<close>

record call =
  ac_func :: target
  ac_args :: "pyval list"
  ac_kwargs :: dict
  ac_hook :: "string option"
  ac_group :: "string option"
  ac_save :: "bool option"
  ac_timeout :: "int option"
  ac_ack :: "bool option"
  ac_sync :: bool
  ac_cached :: "pyval option"
  ac_broker :: "string option"
  ac_cluster :: "string option"
  ac_name :: "string option"
  ac_q_options :: dict
  ac_options :: dict

definition async_checks :: "call \<Rightarrow> unit res" where
  "async_checks c =
     rbind (guard (\<not> ac_sync c) (ValueError ''sync'')) (\<lambda>_.
     rbind (guard (ac_save c \<noteq> Some False) (ValueError ''save'')) (\<lambda>_.
     rbind (guard (ac_cached c = None) (ValueError ''cached'')) (\<lambda>_.
     rbind (guard (ac_ack c \<noteq> Some False) (ValueError ''ack_failure'')) (\<lambda>_.
     rbind (guard (no_keys reserved_q_options (ac_q_options c)) (ValueError ''q_options'')) (\<lambda>_.
     guard (no_keys dq_opt_keys (ac_kwargs c)) (ValueError ''collide with django_q option names''))))))"

text \<open>The subject option: a pair whose id is a string or a number.\<close>

definition subject_option :: "dict \<Rightarrow> (string option \<times> string option) res" where
  "subject_option opts =
     (case dict_get opts ''subject'' of
        None \<Rightarrow> parse_subject None
      | Some PNone \<Rightarrow> parse_subject None
      | Some (PList [PStr ty, PStr i]) \<Rightarrow> parse_subject (Some (ty, i))
      | Some (PList [PStr ty, PInt i]) \<Rightarrow>
          parse_subject (Some (ty, (if i < 0 then ''-'' else []) @ show_nat (nat \<bar>i\<bar>)))
      | Some _ \<Rightarrow> Inl (ValueError ''subject must be a pair''))"

definition priority_option :: "dict \<Rightarrow> priority res" where
  "priority_option opts =
     (case dict_get opts ''priority'' of
        None \<Rightarrow> Inr Default
      | Some (PStr s) \<Rightarrow>
          if s = ''high'' then Inr High else if s = ''default'' then Inr Default
          else if s = ''low'' then Inr Low else Inl (ValueError ''Invalid priority'')
      | Some _ \<Rightarrow> Inl (ValueError ''Invalid priority''))"

definition graph_option :: "dict \<Rightarrow> id option" where
  "graph_option opts = (case dict_get opts ''graph'' of Some (PInt i) \<Rightarrow> Some (nat i) | _ \<Rightarrow> None)"

text \<open>A legacy hook counts as the success hook when no hook is configured.\<close>

definition success_hook_option :: "call \<Rightarrow> string option" where
  "success_hook_option c =
     (let s = opt_str (ac_options c) ''success_hook''; f = opt_str (ac_options c) ''failure_hook'' in
      if given (ac_hook c) \<noteq> None \<and> given s = None \<and> given f = None then ac_hook c else s)"

definition async_prepare ::
  "world \<Rightarrow> (string \<Rightarrow> nat option) \<Rightarrow> time \<Rightarrow> call \<Rightarrow> db \<Rightarrow> (task_row \<times> q2msg) res" where
  "async_prepare w imports now c d =
     (let opts = ac_options c in
      rbind (priority_option opts) (\<lambda>prio.
      rbind (from_options (w_retry_defaults w) opts) (\<lambda>p.
      rbind (subject_option opts) (\<lambda>(st, si).
      rbind (member_labels (graph_option opts) (opt_str opts ''node'') st si d) (\<lambda>lb.
      rbind (importable_func_path imports (ac_func c)) (\<lambda>func.
      let oc = opt_str opts ''cluster'' in
      rbind (guard (ac_cluster c = None \<or> oc = None \<or> ac_cluster c = oc) (ValueError ''cluster'')) (\<lambda>_.
      let cluster = (if ac_cluster c = None then oc else ac_cluster c) in
      rbind (guard (ac_broker c = None \<or> cluster \<noteq> None) (ValueError ''broker'')) (\<lambda>_.
      case wrapped_dispatch func (ac_args c) (ac_kwargs c) of (f, as, kw) \<Rightarrow>
      Inr (\<lparr>t_id = 0, t_status = TRunning, t_func = func, t_args = ac_args c, t_kwargs = ac_kwargs c,
             t_success_hook = success_hook_option c,
             t_success_args = opt_list opts ''success_args'',
             t_success_kwargs = opt_dict opts ''success_kwargs'',
             t_failure_hook = opt_str opts ''failure_hook'',
             t_failure_args = opt_list opts ''failure_args'',
             t_failure_kwargs = opt_dict opts ''failure_kwargs'',
             t_hook_context = present (dict_get opts ''hook_context''),
             t_retry_policy = (case p of Some p \<Rightarrow> to_dict p | None \<Rightarrow> []),
             t_stall_after = opt_secs opts ''stall_after'', t_idem_key = opt_str opts ''idempotency_key'',
             t_priority = prio, t_progress = None, t_iter = None, t_batch = None,
             t_graph_node = None, t_subject_type = lb_subject_type lb,
             t_subject_id = lb_subject_id lb, t_graph_id = lb_graph lb, t_node = lb_node lb,
             t_created = now, t_updated = now\<rparr>,
           \<lparr>m_func = f, m_args = as, m_kwargs = kw, m_hook = Some ''qraft.hooks.qraft_hook_handler'',
             m_task_name = ac_name c, m_ack_failure = True, m_save = Some True,
             m_group = ac_group c, m_timeout = ac_timeout c, m_q_options = ac_q_options c,
             m_cluster = cluster,
             m_list_key = (case ac_broker c of Some b \<Rightarrow> b
               | None \<Rightarrow> broker_list_key w cluster (Some prio))\<rparr>)))))))))"

definition idem_key :: "call \<Rightarrow> string option" where
  "idem_key c = given (opt_str (ac_options c) ''idempotency_key'')"

text \<open>The insert; a caller that lost the race for its key returns the winner's task.\<close>

definition async_insert ::
  "world \<Rightarrow> (string \<Rightarrow> nat option) \<Rightarrow> time \<Rightarrow> string option \<Rightarrow> call \<Rightarrow> db \<Rightarrow> q2id res \<times> db" where
  "async_insert w imports now trace c d =
     (case rbind (async_prepare w imports now c d) (\<lambda>(t, m). create_and_enqueue w now trace t m d) of
        Inr (i, q, d') \<Rightarrow> (Inr q, d')
      | Inl e \<Rightarrow>
          if e = IntegrityError then
            (case Option.bind (idem_key c) (\<lambda>k. existing_task_for_key k d) of
               Some q \<Rightarrow> (Inr q, d)
             | None \<Rightarrow> (Inl e, d))
          else (Inl e, d))"

definition async_task ::
  "world \<Rightarrow> (string \<Rightarrow> nat option) \<Rightarrow> time \<Rightarrow> string option \<Rightarrow> (db \<Rightarrow> db) \<Rightarrow> call \<Rightarrow> db \<Rightarrow> q2id res \<times> db" where
  "async_task w imports now trace env c d =
     (case async_checks c of
        Inl e \<Rightarrow> (Inl e, d)
      | Inr _ \<Rightarrow>
          (let d = (case idem_key c of
                Some k \<Rightarrow> if present (dict_get (ac_options c) ''idempotency_retry_dead'')
                          then reclaim_dead_task_key k d else d
              | None \<Rightarrow> d) in
           case Option.bind (idem_key c) (\<lambda>k. existing_task_for_key k d) of
             Some q \<Rightarrow> (Inr q, d)
           | None \<Rightarrow>
               async_insert w imports now trace c (env d)))"

section \<open>One task per key\<close>

definition keys_unique :: "db \<Rightarrow> bool" where
  "keys_unique d \<longleftrightarrow> (\<forall>k. hits (\<lambda>t. t_idem_key t = Some k) (d_tasks d) \<le> 1)"

definition attempts_below :: "db \<Rightarrow> bool" where
  "attempts_below d \<longleftrightarrow> (\<forall>a \<in> set (d_attempts d). a_task a < d_next d)"

lemma create_and_enqueue_Inr:
  assumes "create_and_enqueue w now trace t m d = Inr (i, q, d')"
  obtains t' a where "i = d_next d" "w_enqueue w (d_queue d) m = Some q"
    "t_id t' = i" "t_idem_key t' = t_idem_key t" "t_status t' = t_status t" "t_func t' = t_func t"
    "t_idem_key t \<noteq> None \<longrightarrow> \<not> exists_where (\<lambda>x. t_idem_key x = t_idem_key t) (d_tasks d)"
    "t_iter t' = t_iter t" "t_batch t' = t_batch t" "t_priority t' = t_priority t"
    "a_id a = Suc (d_next d)" "a_counted a = False" "a_task a = i" "a_number a = 1" "a_q2 a = Some q" "a_success a = None" "a_routed a = False"
    "d' = d\<lparr>d_tasks := d_tasks d @ [t'], d_attempts := d_attempts d @ [a],
       d_queue := d_queue d @ [(q, m)], d_next := Suc (Suc (d_next d))\<rparr>"
proof -
  from assms obtain t1 where inh: "inherit_subject t d = Inr t1"
    by (cases "inherit_subject t d") (simp_all add: create_and_enqueue_def)
  then have rest: "rbind (create_task (t1\<lparr>t_id := d_next d\<rparr>) d) (\<lambda>e.
     rbind (q2_async_task w m e) (\<lambda>(q, e).
     rbind (insert_attempt ((blank_attempt (d_next e) (d_next d) 1 now)\<lparr>a_q2 := Some q,
              a_cluster := Some (or_str (m_cluster m) (w_cluster w)),
              a_enqueued_at := Some now, a_trace := trace\<rparr>) e) (\<lambda>e.
     Inr (d_next d, q, e)))) = Inr (i, q, d')"
    using assms by (simp only: create_and_enqueue_def Let_def rbind_simps)
  have t1: "t_idem_key t1 = t_idem_key t" "t_status t1 = t_status t" "t_func t1 = t_func t"
    "t_iter t1 = t_iter t" "t_batch t1 = t_batch t" "t_priority t1 = t_priority t"
    using inh by (auto simp: inherit_subject_def rbind_Inr split: option.splits if_splits)
  define t2 where "t2 = t1\<lparr>t_id := d_next d\<rparr>"
  define a where "a = (blank_attempt (Suc (d_next d)) (d_next d) 1 now)\<lparr>a_q2 := Some q,
    a_cluster := Some (or_str (m_cluster m) (w_cluster w)), a_enqueued_at := Some now, a_trace := trace\<rparr>"
  have ct: "create_task t2 d = Inr (insert_task t2 d)"
    and new: "t_idem_key t \<noteq> None \<longrightarrow> \<not> exists_where (\<lambda>x. t_idem_key x = t_idem_key t) (d_tasks d)"
    using rest t1(1) by (auto simp: create_task_def t2_def [symmetric] rbind_Inr split: if_splits)
      (auto simp: t2_def)
  from rest have q: "q2_async_task w m (insert_task t2 d) = Inr (q, (insert_task t2 d)\<lparr>d_queue := d_queue d @ [(q, m)]\<rparr>)"
    "w_enqueue w (d_queue d) m = Some q" "i = d_next d"
    by (auto simp: ct t2_def [symmetric] rbind_Inr insert_task_def q2_async_task_def split: option.splits)
  have ins: "insert_attempt a ((insert_task t2 d)\<lparr>d_queue := d_queue d @ [(q, m)]\<rparr>) = Inr d'"
    using rest by (simp add: ct t2_def [symmetric] q(1) a_def) (auto simp: insert_task_def rbind_Inr)
  show thesis
  proof (rule that [of t2 a])
    show "d' = d\<lparr>d_tasks := d_tasks d @ [t2], d_attempts := d_attempts d @ [a],
       d_queue := d_queue d @ [(q, m)], d_next := Suc (Suc (d_next d))\<rparr>"
      using ins by (auto simp: insert_attempt_def insert_task_def split: if_splits)
  qed (use q new t1 in \<open>simp_all add: t2_def a_def blank_attempt_def\<close>)
qed

lemma existing_new:
  assumes "create_and_enqueue w now trace t m d = Inr (i, q, d')" "t_idem_key t = Some k"
    and "attempts_below d"
  shows "existing_task_for_key k d' = Some q"
proof -
  from assms(1) obtain t' a where c: "i = d_next d" "t_id t' = i" "t_idem_key t' = Some k"
    "\<not> exists_where (\<lambda>x. t_idem_key x = Some k) (d_tasks d)"
    "a_task a = i" "a_q2 a = Some q" "d_tasks d' = d_tasks d @ [t']" "d_attempts d' = d_attempts d @ [a]"
    by (rule create_and_enqueue_Inr) (use assms(2) in auto)
  have "find (\<lambda>t. t_idem_key t = Some k) (d_tasks d') = Some t'"
  proof -
    have "find (\<lambda>t. t_idem_key t = Some k) (d_tasks d) = None"
      using c(4) by (auto simp: find_None_iff exists_where_iff)
    moreover have "find P (xs @ ys) = (case find P xs of Some x \<Rightarrow> Some x | None \<Rightarrow> find P ys)" for P :: "task_row \<Rightarrow> bool" and xs ys
      by (induction xs) auto
    ultimately show ?thesis using c(3) by (simp add: c(7))
  qed
  moreover have "filter (\<lambda>b. a_task b = i) (d_attempts d') = [a]"
    using assms(3) c(1,5) by (auto simp: c(8) attempts_below_def filter_empty_conv)
  then have "task_attempts i d' = [a]" by (simp add: task_attempts_def)
  ultimately show ?thesis using c(2,6) by (simp add: existing_task_for_key_def)
qed

lemma reclaim_frame [simp]:
  "d_attempts (reclaim_dead_task_key k d) = d_attempts d" "d_next (reclaim_dead_task_key k d) = d_next d"
  by (simp_all add: reclaim_dead_task_key_def)

lemma idem_key_row: "async_prepare w imports now c d = Inr (t, m) \<Longrightarrow> idem_key c = Some k \<Longrightarrow> t_idem_key t = Some k"
  unfolding async_prepare_def Let_def
  by (elim rbindE, clarsimp split: prod.splits, elim rbindE)
    (auto simp: idem_key_def given_def split: option.splits if_splits prod.splits)

text \<open>The graph a prepared task names exists.\<close>

lemma prepared_subject:
  assumes "async_prepare w imports now c d = Inr (t, m)"
  shows "\<exists>t1. inherit_subject t d = Inr t1 \<and> t_idem_key t1 = t_idem_key t"
proof -
  from assms obtain st si lb where lb: "member_labels (graph_option (ac_options c))
      (opt_str (ac_options c) ''node'') st si d = Inr lb" "t_graph_id t = lb_graph lb"
    unfolding async_prepare_def Let_def
    by (elim rbindE, clarsimp split: prod.splits, elim rbindE) (auto split: prod.splits)
  then have "t_graph_id t = Some g \<Longrightarrow> get_graph g d \<noteq> None" for g
    by (auto simp: member_labels_def locked_def rbind_Inr split: option.splits if_splits)
  then show ?thesis by (cases "t_graph_id t") (auto simp: inherit_subject_def locked_def split: option.splits)
qed

text \<open>A successful keyed call leaves its key findable.\<close>

lemma async_task_leaves_key:
  assumes "async_task w imports now trace env c d = (Inr q, d1)" "idem_key c = Some k"
    and "attempts_below d" "\<And>e. attempts_below e \<Longrightarrow> attempts_below (env e)"
  shows "existing_task_for_key k d1 = Some q"
proof -
  define e where "e = (if present (dict_get (ac_options c) ''idempotency_retry_dead'')
    then reclaim_dead_task_key k d else d)"
  have ok: "attempts_below e" using assms(3) by (simp add: e_def attempts_below_def)
  have ck: "async_checks c = Inr u" for u using assms(1) by (auto simp: async_task_def split: sum.splits)
  show ?thesis
  proof (cases "existing_task_for_key k e")
    case (Some x)
    then show ?thesis using assms(1,2) ck by (simp add: async_task_def Let_def e_def [symmetric])
  next
    case None
    then have run: "async_insert w imports now trace c (env e) = (Inr q, d1)"
      using assms(1,2) ck by (simp add: async_task_def Let_def e_def [symmetric])
    show ?thesis
    proof (cases "rbind (async_prepare w imports now c (env e)) (\<lambda>(t, m).
          create_and_enqueue w now trace t m (env e))")
      case (Inl x)
      then show ?thesis using run assms(2) by (auto simp: async_insert_def split: if_splits option.splits)
    next
      case (Inr y)
      then obtain t m i where "async_prepare w imports now c (env e) = Inr (t, m)"
        "create_and_enqueue w now trace t m (env e) = Inr (i, q, d1)"
        using run by (cases y) (auto simp: rbind_Inr async_insert_def)
      then show ?thesis using existing_new idem_key_row assms(2,4) ok by blast
    qed
  qed
qed

lemma async_task_found:
  assumes "existing_task_for_key k d = Some q" "idem_key c = Some k" "async_checks c = Inr ()"
    and "\<not> present (dict_get (ac_options c) ''idempotency_retry_dead'')"
  shows "async_task w imports now trace env c d = (Inr q, d)"
  using assms by (simp add: async_task_def)


definition keyed_call :: "string \<Rightarrow> call" where
  "keyed_call func = \<lparr>ac_func = Path func, ac_args = [PInt 1], ac_kwargs = [], ac_hook = None,
     ac_group = None, ac_save = None, ac_timeout = None, ac_ack = None, ac_sync = False,
     ac_cached = None, ac_broker = None, ac_cluster = None, ac_name = None, ac_q_options = [],
     ac_options = [(''idempotency_key'', PStr ''k1'')]\<rparr>"

lemma keyed_call_facts:
  "idem_key (keyed_call f) = Some ''k1''" "async_checks (keyed_call f) = Inr ()"
  "\<not> present (dict_get (ac_options (keyed_call f)) ''idempotency_retry_dead'')"
  by (simp_all add: keyed_call_def idem_key_def opt_str_def given_def async_checks_def guard_def
      no_keys_def present_def)

lemma empty_attempts_below [simp]: "attempts_below empty_db"
  by (simp add: attempts_below_def empty_db_def)

lemma not_islE: "\<not> isl (fst p) \<Longrightarrow> (\<And>b d. p = (Inr b, d) \<Longrightarrow> P) \<Longrightarrow> P"
  by (cases p; cases "fst p") auto


text \<open>
  Two concurrent calls under one key create one task. When another call under the key commits
  between this call's lookup and its insert, this call creates nothing and returns the other's
  Django-Q2 id.
\<close>

theorem idempotency_race:
  assumes "async_task w imports later trace' id c' d = (Inr q, d1)" "idem_key c' = Some k"
    and "attempts_below d" "idem_key c = Some k" "async_checks c = Inr ()"
    and "\<not> present (dict_get (ac_options c) ''idempotency_retry_dead'')"
    and "async_prepare w imports now c d1 = Inr (t, m)"
    and "\<not> present (dict_get (ac_options c') ''idempotency_retry_dead'')"
  shows "async_task w imports now trace (\<lambda>e. snd (async_task w imports later trace' id c' e)) c d = (Inr q, d1)"
proof (cases "existing_task_for_key k d")
  case (Some x)
  have ck: "async_checks c' = Inr ()" using assms(1) by (auto simp: async_task_def split: sum.splits)
  have "async_task w imports later trace' id c' d = (Inr x, d)"
    by (rule async_task_found [OF Some assms(2) ck assms(8)])
  then show ?thesis using async_task_found [OF Some assms(4-6)] assms(1) by simp
next
  case None
  have found: "existing_task_for_key k d1 = Some q"
    using async_task_leaves_key [OF assms(1-3)] by simp
  then have taken: "exists_where (\<lambda>x. t_idem_key x = Some k) (d_tasks d1)"
    by (auto simp: existing_task_for_key_def find_Some_iff exists_where_iff split: option.splits)
  have tk: "t_idem_key t = Some k" by (rule idem_key_row [OF assms(7,4)])
  obtain t1 where "inherit_subject t d1 = Inr t1" "t_idem_key t1 = Some k"
    using prepared_subject [OF assms(7)] tk by auto
  then have "create_and_enqueue w now trace t m d1 = Inl IntegrityError"
    using taken by (simp add: create_and_enqueue_def create_task_def Let_def)
  then have "async_insert w imports now trace c d1 = (Inr q, d1)"
    using assms(4,7) found by (simp add: async_insert_def)
  then show ?thesis using None assms(1,4-6) by (simp add: async_task_def)
qed

theorem idempotency_race_witness:
  "\<exists>q d1. async_task demo_world (\<lambda>_. None) 9 None
     (\<lambda>e. snd (async_task demo_world (\<lambda>_. None) 1 None id (keyed_call ''app.a'') e)) (keyed_call ''app.b'')
     empty_db = (Inr q, d1) \<and> length (d_tasks d1) = 1"
proof -
  let ?r = "async_task demo_world (\<lambda>_. None) 1 None id (keyed_call ''app.a'') empty_db"
  have "\<not> isl (fst ?r) \<and> length (d_tasks (snd ?r)) = 1" by code_simp
  then obtain q d1 where r: "?r = (Inr q, d1)" "length (d_tasks d1) = 1" by (metis not_islE snd_conv)
  have p: "\<not> isl (async_prepare demo_world (\<lambda>_. None) 9 (keyed_call ''app.b'') (snd ?r))" by code_simp
  then obtain t m where "async_prepare demo_world (\<lambda>_. None) 9 (keyed_call ''app.b'') d1 = Inr (t, m)"
    using r(1) by (cases "async_prepare demo_world (\<lambda>_. None) 9 (keyed_call ''app.b'') d1") auto
  from idempotency_race [OF r(1) _ _ _ _ _ this] r(2) show ?thesis
    by (simp add: keyed_call_facts)
qed

end
