(* ===== verification/Qraft_Workflow.thy ===== *)
theory Qraft_Workflow
  imports Qraft_Tasks
begin

text \<open>
  Chains, iters and batches: the workflow state machine (\<^verbatim>\<open>qraft/models/mixins.py\<close>),
  the dispatchers that continue a workflow when a member completes
  (\<^verbatim>\<open>qraft/dispatchers.py\<close>) and the operations of the workflow objects
  (\<^verbatim>\<open>qraft/chain.py\<close>, \<^verbatim>\<open>iter.py\<close>, \<^verbatim>\<open>batch.py\<close>,
  \<^verbatim>\<open>base.py\<close>). A workflow object holds a copy of its row as it was read, so the
  operations that trust the copy take its status as the argument \<open>snap\<close>; what they do to the
  row they locked is on \<open>d\<close>. \<open>settle_workflow\<close> and \<open>cancel\<close> are generic in the source; here they
  have one definition per table.
\<close>

section \<open>The status machine\<close>

fun valid_transitions :: "wf_status \<Rightarrow> wf_status list" where
  "valid_transitions WPending = [WRunning, WCancelled]"
| "valid_transitions WRunning = [WWaiting, WSucceeded, WFailed, WCancelled]"
| "valid_transitions WWaiting = [WRunning, WCancelled]"
| "valid_transitions WFailed = [WRunning]"
| "valid_transitions WSucceeded = []"
| "valid_transitions WCancelled = []"

definition transition_to :: "wf_status \<Rightarrow> wf_status \<Rightarrow> wf_status res" where
  "transition_to s new = (if new \<in> set (valid_transitions s) then Inr new else Inl InvalidStatusTransition)"

definition terminal_wf :: "wf_status \<Rightarrow> bool" where
  "terminal_wf s \<longleftrightarrow> s = WSucceeded \<or> s = WFailed \<or> s = WCancelled"

definition cancellable_wf :: "wf_status \<Rightarrow> bool" where
  "cancellable_wf s \<longleftrightarrow> s = WPending \<or> s = WRunning \<or> s = WWaiting"

definition wf_status_name :: "wf_status \<Rightarrow> string" where
  "wf_status_name s = (case s of WPending \<Rightarrow> ''pending'' | WRunning \<Rightarrow> ''running''
     | WWaiting \<Rightarrow> ''waiting_approval'' | WSucceeded \<Rightarrow> ''succeeded'' | WFailed \<Rightarrow> ''failed''
     | WCancelled \<Rightarrow> ''cancelled'')"

section \<open>Settling\<close>

definition settle_chain :: "time \<Rightarrow> id \<Rightarrow> wf_status \<Rightarrow> db \<Rightarrow> chain_row option \<times> db" where
  "settle_chain now i s d =
     (let P = (\<lambda>c. c_id c = i \<and> c_settled_at c = None \<and> \<not> terminal_wf (c_status c)) in
      if hits P (d_chains d) = 0 then (None, d)
      else (let d = upd_chains P (\<lambda>c. c\<lparr>c_status := s, c_settled_at := Some now, c_updated := now\<rparr>) d in
            (get_chain i d, emit (WorkflowSettled ChainWf i s) d)))"

definition settle_par :: "time \<Rightarrow> wf_type \<Rightarrow> id \<Rightarrow> wf_status \<Rightarrow> db \<Rightarrow> par_row option \<times> db" where
  "settle_par now ty i s d =
     (let P = (\<lambda>p. p_id p = i \<and> p_settled_at p = None \<and> \<not> terminal_wf (p_status p)) in
      if hits P (d_pars d) = 0 then (None, d)
      else (let d = upd_pars P (\<lambda>p. p\<lparr>p_status := s, p_settled_at := Some now, p_updated := now\<rparr>) d in
            (get_par i d, emit (WorkflowSettled ty i s) d)))"

section \<open>Hooks\<close>

definition chain_hook_context :: "chain_row \<Rightarrow> dict" where
  "chain_hook_context c =
     [(''workflow_id'', PInt (int (c_id c))), (''workflow_type'', PStr ''chain''),
      (''outcome'', PStr (wf_status_name (c_status c))),
      (''current_step_index'', PInt (int (c_index c)))]"

definition wf_type_name :: "wf_type \<Rightarrow> string" where
  "wf_type_name ty = (case ty of ChainWf \<Rightarrow> ''chain'' | IterWf \<Rightarrow> ''iter'' | BatchWf \<Rightarrow> ''batch''
     | GraphWf \<Rightarrow> ''graph'')"

definition par_counters :: "par_row \<Rightarrow> dict" where
  "par_counters p =
     [(''completed_count'', PInt (int (p_completed p))), (''total_count'', PInt (int (p_total p))),
      (''success_count'', PInt (int (p_success p))), (''failure_count'', PInt (int (p_failure p)))]"

definition par_hook_context :: "par_row \<Rightarrow> dict" where
  "par_hook_context p =
     [(''workflow_id'', PInt (int (p_id p))), (''workflow_type'', PStr (wf_type_name (p_type p))),
      (''outcome'', PStr (wf_status_name (p_status p)))] @ par_counters p"

definition dispatch_chain_hook :: "world \<Rightarrow> time \<Rightarrow> chain_row \<Rightarrow> bool \<Rightarrow> db \<Rightarrow> db" where
  "dispatch_chain_hook w now c success d =
     (let h = c_hooks c in
      case given (if success then h_success_hook h else h_failure_hook h) of
        None \<Rightarrow> d
      | Some path \<Rightarrow> dispatch_workflow_hook w now ChainWf (c_id c)
          (if success then OnSuccess else OnFailure) path
          (if success then h_success_args h else h_failure_args h)
          (if success then h_success_kwargs h else h_failure_kwargs h)
          (if h_context h then Some (chain_hook_context c) else None) 0 d)"

definition dispatch_par_hook :: "world \<Rightarrow> time \<Rightarrow> par_row \<Rightarrow> db \<Rightarrow> db" where
  "dispatch_par_hook w now p d =
     (let h = p_hooks p; success = (p_failure p = 0) in
      case given (if success then h_success_hook h else h_failure_hook h) of
        None \<Rightarrow> d
      | Some path \<Rightarrow> dispatch_workflow_hook w now (p_type p) (p_id p)
          (if success then OnSuccess else OnFailure) path
          (if success then h_success_args h else h_failure_args h)
          (if success then h_success_kwargs h else h_failure_kwargs h)
          (if h_context h then Some (par_hook_context p) else None) 0 d)"

text \<open>A progress hook is best effort: a broker failure is logged and dropped.\<close>

definition dispatch_progress_hook :: "world \<Rightarrow> par_row \<Rightarrow> db \<Rightarrow> db" where
  "dispatch_progress_hook w p d =
     (case given (h_progress_hook (p_hooks p)) of
        None \<Rightarrow> d
      | Some path \<Rightarrow>
          (case q2_async_task w (hook_msg w None path []
              ([(''workflow_id'', PStr (show_nat (p_id p))),
                (''workflow_type'', PStr (wf_type_name (p_type p)))] @ par_counters p)) d of
             Inl e \<Rightarrow> d
           | Inr (q, d') \<Rightarrow> d'))"

section \<open>Chain continuation\<close>

definition chain_labels :: "chain_row \<Rightarrow> labels" where
  "chain_labels c = \<lparr>lb_graph = c_graph_id c, lb_node = c_node c,
     lb_subject_type = c_subject_type c, lb_subject_id = c_subject_id c\<rparr>"

definition queue_chain_step :: "world \<Rightarrow> time \<Rightarrow> string option \<Rightarrow> chain_row \<Rightarrow> step_row \<Rightarrow> db \<Rightarrow> db res" where
  "queue_chain_step w now trace c s d =
     rbind (create_workflow_task w now trace (s_func s) (s_args s) (s_kwargs s) (s_options s) None
              (chain_labels c) d) (\<lambda>(i, q, d).
     Inr (upd_steps (\<lambda>x. s_id x = s_id s) (\<lambda>x. x\<lparr>s_task := Some i\<rparr>) d))"

definition step_at :: "id \<Rightarrow> nat \<Rightarrow> db \<Rightarrow> step_row option" where
  "step_at c k d = find (\<lambda>s. s_chain s = c \<and> s_index s = k) (d_steps d)"

definition upd_chain :: "id \<Rightarrow> (chain_row \<Rightarrow> chain_row) \<Rightarrow> db \<Rightarrow> db" where
  "upd_chain i f d = upd_chains (\<lambda>c. c_id c = i) f d"

definition chain_step_success :: "world \<Rightarrow> time \<Rightarrow> string option \<Rightarrow> step_row \<Rightarrow> db \<Rightarrow> db res" where
  "chain_step_success w now trace s d =
     (case get_chain (s_chain s) d of
        None \<Rightarrow> Inl DoesNotExist
      | Some c \<Rightarrow>
          if c_status c = WCancelled then Inr d
          else if c_index c \<noteq> s_index s then Inr d
          else (case step_at (c_id c) (s_index s + 1) d of
              None \<Rightarrow>
                (case settle_chain now (c_id c) WSucceeded d of
                   (None, d) \<Rightarrow> Inr d
                 | (Some c, d) \<Rightarrow> Inr (dispatch_chain_hook w now c True d))
            | Some n \<Rightarrow>
                if s_gate n then
                  rbind (transition_to (c_status c) WWaiting) (\<lambda>st.
                  Inr (upd_chain (c_id c)
                         (\<lambda>x. x\<lparr>c_index := s_index n, c_status := st, c_updated := now\<rparr>) d))
                else
                  queue_chain_step w now trace c n
                    (upd_chain (c_id c) (\<lambda>x. x\<lparr>c_index := s_index n, c_updated := now\<rparr>) d)))"

definition complete_chain :: "world \<Rightarrow> time \<Rightarrow> id \<Rightarrow> bool \<Rightarrow> db \<Rightarrow> db res" where
  "complete_chain w now i success d =
     (case get_chain i d of
        None \<Rightarrow> Inl DoesNotExist
      | Some c \<Rightarrow>
          if c_status c = WCancelled then Inr d
          else (case settle_chain now i (if success then WSucceeded else WFailed) d of
              (None, d) \<Rightarrow> Inr d
            | (Some c, d) \<Rightarrow> Inr (dispatch_chain_hook w now c success d)))"

definition dead_task :: "id \<Rightarrow> db \<Rightarrow> bool res" where
  "dead_task t d =
     (case get_task t d of
        None \<Rightarrow> Inl DoesNotExist
      | Some r \<Rightarrow> Inr (t_status r = TExhausted \<or> t_status r = TFailed))"

text \<open>\<^verbatim>\<open>ChainDispatcher(step.chain, step, attempt).handle()\<close>.\<close>

definition handle_chain_step ::
  "world \<Rightarrow> time \<Rightarrow> string option \<Rightarrow> step_row \<Rightarrow> attempt_row \<Rightarrow> db \<Rightarrow> db res" where
  "handle_chain_step w now trace s a d =
     (case get_chain (s_chain s) d of
        None \<Rightarrow> Inl DoesNotExist
      | Some c \<Rightarrow>
          if c_status c = WCancelled then Inr d
          else if a_success a = Some True then chain_step_success w now trace s d
          else rbind (dead_task (a_task a) d) (\<lambda>dead.
            if dead then complete_chain w now (s_chain s) False d else Inr d))"

section \<open>Fan-in of iters and batches\<close>

datatype increment = Noop | Partial | Complete

text \<open>The workflow row as it is after the increment comes along for the hooks.\<close>

definition count_member :: "time \<Rightarrow> bool \<Rightarrow> par_row \<Rightarrow> par_row" where
  "count_member now success p = p\<lparr>p_completed := p_completed p + 1,
     p_success := (if success then p_success p + 1 else p_success p),
     p_failure := (if success then p_failure p else p_failure p + 1), p_updated := now\<rparr>"

definition atomic_increment ::
  "time \<Rightarrow> id \<Rightarrow> id \<Rightarrow> bool \<Rightarrow> db \<Rightarrow> (increment \<times> par_row \<times> db) res" where
  "atomic_increment now i aid success d =
     (case get_par i d of
        None \<Rightarrow> Inl DoesNotExist
      | Some p \<Rightarrow>
          if p_status p = WCancelled then Inr (Noop, p, d)
          else (case get_attempt aid d of
              None \<Rightarrow> Inl DoesNotExist
            | Some a \<Rightarrow>
                if a_counted a then Inr (Noop, p, d)
                else
                  (let d = upd_attempts (\<lambda>x. a_id x = aid) (\<lambda>x. x\<lparr>a_counted := True\<rparr>) d;
                       d = upd_pars (\<lambda>x. p_id x = i) (count_member now success) d;
                       p = count_member now success p in
                   if p_total p \<le> p_completed p then
                     (case settle_par now (p_type p) i (if p_failure p = 0 then WSucceeded else WFailed) d of
                        (None, d) \<Rightarrow> Inr (Noop, p, d)
                      | (Some p, d) \<Rightarrow> Inr (Complete, p, d))
                   else Inr (Partial, p, d))))"

definition handle_parallel :: "world \<Rightarrow> time \<Rightarrow> id \<Rightarrow> attempt_row \<Rightarrow> db \<Rightarrow> db res" where
  "handle_parallel w now i a d =
     rbind (if a_success a = Some True then Inr True else dead_task (a_task a) d) (\<lambda>terminal.
     if \<not> terminal then Inr d
     else rbind (atomic_increment now i (a_id a) (a_success a = Some True) d) (\<lambda>(out, p, d).
       Inr (case out of
           Complete \<Rightarrow> dispatch_par_hook w now p d
         | Partial \<Rightarrow> dispatch_progress_hook w p d
         | Noop \<Rightarrow> d)))"

section \<open>Routing a completion\<close>

text \<open>
  \<open>view\<close> holds the steps as the caller joined them onto the task earlier; the binding of the
  step is read again from \<open>d\<close>.
\<close>

definition route_workflow_completion ::
  "world \<Rightarrow> time \<Rightarrow> string option \<Rightarrow> db \<Rightarrow> task_row \<Rightarrow> attempt_row \<Rightarrow> db \<Rightarrow> (bool \<times> db) res" where
  "route_workflow_completion w now trace view t a d =
     (case find (\<lambda>s. s_task s = Some (t_id t)) (d_steps view) of
        Some s \<Rightarrow>
          if Option.bind (get_by s_id (s_id s) (d_steps d)) s_task \<noteq> Some (t_id t) then Inr (True, d)
          else rbind (handle_chain_step w now trace s a d) (\<lambda>d. Inr (True, d))
      | None \<Rightarrow>
          (case (if t_iter t \<noteq> None then t_iter t else t_batch t) of
             Some i \<Rightarrow> rbind (handle_parallel w now i a d) (\<lambda>d. Inr (True, d))
           | None \<Rightarrow> Inr (False, d)))"

section \<open>Cancelling\<close>

definition announce_chain_cancelled :: "world \<Rightarrow> time \<Rightarrow> chain_row \<Rightarrow> db \<Rightarrow> db" where
  "announce_chain_cancelled w now c d =
     (let d = emit (WorkflowSettled ChainWf (c_id c) WCancelled) d in
      case given (h_on_cancelled (c_hooks c)) of
        None \<Rightarrow> d
      | Some path \<Rightarrow> dispatch_workflow_hook w now ChainWf (c_id c) OnCancelled path [] []
          (if h_context (c_hooks c)
           then map_option chain_hook_context (get_chain (c_id c) d) else None) 0 d)"

definition announce_par_cancelled :: "world \<Rightarrow> time \<Rightarrow> par_row \<Rightarrow> db \<Rightarrow> db" where
  "announce_par_cancelled w now p d =
     (let d = emit (WorkflowSettled (p_type p) (p_id p) WCancelled) d in
      case given (h_on_cancelled (p_hooks p)) of
        None \<Rightarrow> d
      | Some path \<Rightarrow> dispatch_workflow_hook w now (p_type p) (p_id p) OnCancelled path [] []
          (if h_context (p_hooks p)
           then map_option par_hook_context (get_par (p_id p) d) else None) 0 d)"

definition cancel_chain :: "world \<Rightarrow> time \<Rightarrow> chain_row \<Rightarrow> db \<Rightarrow> db res" where
  "cancel_chain w now c d =
     (let P = (\<lambda>x. c_id x = c_id c \<and> cancellable_wf (c_status x) \<and> c_settled_at x = None) in
      if hits P (d_chains d) = 0
      then (if get_chain (c_id c) d = None then Inl DoesNotExist else Inl InvalidStatusTransition)
      else Inr (announce_chain_cancelled w now c
        (upd_chains P (\<lambda>x. x\<lparr>c_status := WCancelled, c_settled_at := Some now, c_updated := now\<rparr>) d)))"

definition cancel_par :: "world \<Rightarrow> time \<Rightarrow> par_row \<Rightarrow> db \<Rightarrow> db res" where
  "cancel_par w now p d =
     (let P = (\<lambda>x. p_id x = p_id p \<and> cancellable_wf (p_status x) \<and> p_settled_at x = None) in
      if hits P (d_pars d) = 0
      then (if get_par (p_id p) d = None then Inl DoesNotExist else Inl InvalidStatusTransition)
      else Inr (announce_par_cancelled w now p
        (upd_pars P (\<lambda>x. x\<lparr>p_status := WCancelled, p_settled_at := Some now, p_updated := now\<rparr>) d)))"

section \<open>Workflow objects\<close>

definition valid_hook_path :: "(string \<Rightarrow> nat option) \<Rightarrow> string option \<Rightarrow> unit res" where
  "valid_hook_path imports h =
     (case given h of None \<Rightarrow> Inr ()
      | Some p \<Rightarrow> guard (imports p \<noteq> None) (ValueError ''Hook path cannot be imported''))"

definition valid_hooks :: "(string \<Rightarrow> nat option) \<Rightarrow> wf_hooks \<Rightarrow> unit res" where
  "valid_hooks imports h =
     rbind (valid_hook_path imports (h_success_hook h)) (\<lambda>_.
     rbind (valid_hook_path imports (h_failure_hook h)) (\<lambda>_.
     rbind (valid_hook_path imports (h_on_cancelled h)) (\<lambda>_.
     valid_hook_path imports (h_progress_hook h))))"

text \<open>The graph row is locked while the workflow row is inserted.\<close>

definition correlating ::
  "id option \<Rightarrow> string option \<Rightarrow> string option \<Rightarrow> string option \<Rightarrow> db \<Rightarrow> labels res" where
  "correlating graph node st si d =
     (case graph of
        None \<Rightarrow> member_labels None node st si d
      | Some g \<Rightarrow> rbind (locked g d) (\<lambda>_. member_labels (Some g) node st si d))"

text \<open>A chain object has no progress hook.\<close>

definition new_chain ::
  "(string \<Rightarrow> nat option) \<Rightarrow> time \<Rightarrow> wf_hooks \<Rightarrow> (string \<times> string) option \<Rightarrow> id option \<Rightarrow> string option \<Rightarrow>
   db \<Rightarrow> (id \<times> db) res" where
  "new_chain imports now h subject graph node d =
     rbind (valid_hooks imports (h\<lparr>h_progress_hook := None\<rparr>)) (\<lambda>_.
     rbind (parse_subject subject) (\<lambda>(st, si).
     rbind (correlating graph node st si d) (\<lambda>lb.
     Inr (d_next d, d\<lparr>d_chains := d_chains d @ [\<lparr>c_id = d_next d, c_status = WPending,
            c_settled_at = None, c_index = 0, c_hooks = h\<lparr>h_progress_hook := None\<rparr>,
            c_subject_type = lb_subject_type lb, c_subject_id = lb_subject_id lb,
            c_graph_id = lb_graph lb, c_node = lb_node lb, c_created = now, c_updated = now\<rparr>],
          d_next := Suc (d_next d)\<rparr>))))"

text \<open>An iter names the function and options of all its members, a batch none.\<close>

definition new_par ::
  "(string \<Rightarrow> nat option) \<Rightarrow> time \<Rightarrow> (string \<times> dict) option \<Rightarrow> string option \<Rightarrow> wf_hooks \<Rightarrow>
   (string \<times> string) option \<Rightarrow> id option \<Rightarrow> string option \<Rightarrow> db \<Rightarrow> (id \<times> db) res" where
  "new_par imports now it cluster h subject graph node d =
     rbind (valid_hooks imports h) (\<lambda>_.
     rbind (parse_subject subject) (\<lambda>(st, si).
     rbind (correlating graph node st si d) (\<lambda>lb.
     let opts = (case it of None \<Rightarrow> []
           | Some (f, o') \<Rightarrow> (case cluster of Some c \<Rightarrow> dict_set ''cluster'' (PStr c) o' | None \<Rightarrow> o')) in
     Inr (d_next d, d\<lparr>d_pars := d_pars d @ [\<lparr>p_id = d_next d,
            p_type = (if it = None then BatchWf else IterWf), p_status = WPending,
            p_settled_at = None, p_func = (case it of Some (f, _) \<Rightarrow> f | None \<Rightarrow> []), p_options = opts,
            p_total = 0, p_completed = 0, p_success = 0, p_failure = 0, p_hooks = h,
            p_subject_type = lb_subject_type lb, p_subject_id = lb_subject_id lb,
            p_graph_id = lb_graph lb, p_node = lb_node lb, p_created = now, p_updated = now\<rparr>],
          d_next := Suc (d_next d)\<rparr>))))"

text \<open>One appended step or member; an iter's items leave the function and options empty.\<close>

record item =
  it_func :: string
  it_args :: "pyval list"
  it_kwargs :: dict
  it_options :: dict
  it_gate :: bool

definition append_item :: "wf_status \<Rightarrow> item \<Rightarrow> item list \<Rightarrow> item list res" where
  "append_item snap i is =
     rbind (guard (snap = WPending) (ValueError ''already been run'')) (\<lambda>_.
     rbind (reject_workflow_member_opt_keys (it_kwargs i)) (\<lambda>_. Inr (is @ [i])))"

definition chain_step :: "id \<Rightarrow> id \<Rightarrow> nat \<Rightarrow> item \<Rightarrow> step_row" where
  "chain_step sid c k i = \<lparr>s_id = sid, s_chain = c, s_index = k, s_func = it_func i,
     s_args = it_args i, s_kwargs = it_kwargs i, s_options = it_options i, s_gate = it_gate i,
     s_task = None\<rparr>"

fun chain_steps :: "id \<Rightarrow> id \<Rightarrow> nat \<Rightarrow> item list \<Rightarrow> step_row list" where
  "chain_steps sid c k [] = []"
| "chain_steps sid c k (i # is) = chain_step sid c k i # chain_steps (Suc sid) c (Suc k) is"

text \<open>The steps are inserted under the unique constraint on (chain, step index).\<close>

definition run_chain ::
  "world \<Rightarrow> time \<Rightarrow> string option \<Rightarrow> chain_row \<Rightarrow> item list \<Rightarrow> db \<Rightarrow> db res" where
  "run_chain w now trace c is d =
     rbind (guard (is \<noteq> []) (ValueError ''Cannot run empty chain'')) (\<lambda>_.
     rbind (guard (c_status c = WPending) (ValueError ''Chain already run'')) (\<lambda>_.
     rbind (guard (\<not> exists_where (\<lambda>s. s_chain s = c_id c \<and> s_index s < length is) (d_steps d))
              IntegrityError) (\<lambda>_.
     let d = d\<lparr>d_steps := d_steps d @ chain_steps (d_next d) (c_id c) 0 is,
               d_next := d_next d + length is\<rparr> in
     rbind (transition_to (c_status c) WRunning) (\<lambda>st.
     let d = upd_chain (c_id c) (\<lambda>x. x\<lparr>c_status := st, c_updated := now\<rparr>) d in
     case step_at (c_id c) 0 d of
       None \<Rightarrow> Inl DoesNotExist
     | Some s \<Rightarrow>
         if s_gate s then
           rbind (transition_to st WWaiting) (\<lambda>st.
           Inr (upd_chain (c_id c) (\<lambda>x. x\<lparr>c_status := st, c_updated := now\<rparr>) d))
         else queue_chain_step w now trace (c\<lparr>c_status := st\<rparr>) s d))))"

definition resume_chain ::
  "world \<Rightarrow> time \<Rightarrow> string option \<Rightarrow> id \<Rightarrow> wf_status \<Rightarrow> db \<Rightarrow> db res" where
  "resume_chain w now trace i snap d =
     rbind (guard (snap = WFailed) (ValueError ''Can only resume failed chains'')) (\<lambda>_.
     case get_chain i d of
       None \<Rightarrow> Inl DoesNotExist
     | Some c \<Rightarrow>
         rbind (transition_to (c_status c) WRunning) (\<lambda>st.
         let d = upd_chain i (\<lambda>x. x\<lparr>c_status := st, c_settled_at := None, c_updated := now\<rparr>) d;
             d = d\<lparr>d_wf_hooks := filter (\<lambda>h. \<not> (wh_type h = ChainWf \<and> wh_workflow h = i)) (d_wf_hooks d)\<rparr> in
         case step_at i (c_index c) d of
           None \<Rightarrow> Inl DoesNotExist
         | Some s \<Rightarrow>
             (let d = (if s_task s \<noteq> None then upd_steps (\<lambda>x. s_id x = s_id s) (\<lambda>x. x\<lparr>s_task := None\<rparr>) d
                       else d) in
              queue_chain_step w now trace c s d)))"

definition approve_chain :: "world \<Rightarrow> time \<Rightarrow> string option \<Rightarrow> id \<Rightarrow> db \<Rightarrow> db res" where
  "approve_chain w now trace i d =
     (case get_chain i d of
        None \<Rightarrow> Inl DoesNotExist
      | Some c \<Rightarrow>
          rbind (transition_to (c_status c) WRunning) (\<lambda>st.
          let d = upd_chain i (\<lambda>x. x\<lparr>c_status := st, c_updated := now\<rparr>) d in
          case step_at i (c_index c) d of
            None \<Rightarrow> Inl DoesNotExist
          | Some s \<Rightarrow> queue_chain_step w now trace c s d))"

definition reject_chain :: "world \<Rightarrow> time \<Rightarrow> id \<Rightarrow> db \<Rightarrow> db res" where
  "reject_chain w now i d =
     (case get_chain i d of
        None \<Rightarrow> Inl DoesNotExist
      | Some c \<Rightarrow>
          rbind (transition_to (c_status c) WCancelled) (\<lambda>st.
          Inr (announce_chain_cancelled w now c
            (upd_chain i (\<lambda>x. x\<lparr>c_status := st, c_settled_at := Some now, c_updated := now\<rparr>) d))))"

definition par_labels :: "par_row \<Rightarrow> labels" where
  "par_labels p = \<lparr>lb_graph = p_graph_id p, lb_node = p_node p,
     lb_subject_type = p_subject_type p, lb_subject_id = p_subject_id p\<rparr>"

fun create_members :: "world \<Rightarrow> time \<Rightarrow> string option \<Rightarrow> par_row \<Rightarrow> item list \<Rightarrow> db \<Rightarrow> db res" where
  "create_members w now trace p [] d = Inr d"
| "create_members w now trace p (i # is) d =
     rbind (create_workflow_task w now trace
              (if p_type p = IterWf then p_func p else it_func i) (it_args i) (it_kwargs i)
              (if p_type p = IterWf then p_options p else it_options i)
              (Some (p_type p, p_id p)) (par_labels p) d) (\<lambda>(t, q, d).
     create_members w now trace p is d)"

definition run_par ::
  "world \<Rightarrow> time \<Rightarrow> string option \<Rightarrow> par_row \<Rightarrow> item list \<Rightarrow> db \<Rightarrow> db res" where
  "run_par w now trace p is d =
     rbind (guard (is \<noteq> []) (ValueError ''Cannot run empty'')) (\<lambda>_.
     rbind (guard (p_status p = WPending) (ValueError ''already run'')) (\<lambda>_.
     rbind (transition_to (p_status p) WRunning) (\<lambda>st.
     create_members w now trace p is
       (upd_pars (\<lambda>x. p_id x = p_id p)
          (\<lambda>x. x\<lparr>p_total := length is, p_status := st, p_updated := now\<rparr>) d))))"

end
