(* ===== verification/Qraft_FanIn.thy ===== *)
theory Qraft_FanIn
  imports Qraft_Workflow
begin

text \<open>
  Iters and batches: every run of their operations, interleaved with any other work on the same
  database, counts each completion once and settles the workflow once, when and only when every
  member is counted. The counters refine the set of counted attempts.
\<close>

section \<open>The members of a workflow\<close>

definition parent :: "task_row \<Rightarrow> id option" where
  "parent t = (if t_iter t \<noteq> None then t_iter t else t_batch t)"

definition member_view :: "db \<Rightarrow> (id \<times> id option) list" where
  "member_view d = filter (\<lambda>x. snd x \<noteq> None) (map (\<lambda>t. (t_id t, parent t)) (d_tasks d))"

definition counted_view :: "db \<Rightarrow> (id \<times> id) list" where
  "counted_view d = map (\<lambda>a. (a_id a, a_task a)) (filter a_counted (d_attempts d))"

definition members :: "id \<Rightarrow> db \<Rightarrow> id list" where
  "members i d = map fst (filter (\<lambda>x. snd x = Some i) (member_view d))"

text \<open>The counted attempts of the members of a workflow.\<close>

definition counted :: "id \<Rightarrow> db \<Rightarrow> (id \<times> id) list" where
  "counted i d = filter (\<lambda>x. snd x \<in> set (members i d)) (counted_view d)"

definition par_settled :: "id \<Rightarrow> db \<Rightarrow> nat" where
  "par_settled i d = hits (\<lambda>e. case e of WorkflowSettled ty j s \<Rightarrow> ty \<noteq> ChainWf \<and> j = i | _ \<Rightarrow> False) (d_events d)"

definition ids_ok :: "db \<Rightarrow> bool" where
  "ids_ok d \<longleftrightarrow> distinct (map a_id (d_attempts d)) \<and> distinct (map t_id (d_tasks d)) \<and>
     distinct (map p_id (d_pars d)) \<and>
     (\<forall>a \<in> set (d_attempts d). a_id a < d_next d \<and> a_task a < d_next d) \<and>
     (\<forall>t \<in> set (d_tasks d). t_id t < d_next d \<and> (\<forall>i. parent t = Some i \<longrightarrow> i < d_next d)) \<and>
     (\<forall>p \<in> set (d_pars d). p_id p < d_next d) \<and>
     (\<forall>i. d_next d \<le> i \<longrightarrow> par_settled i d = 0)"

definition par_ok :: "par_row \<Rightarrow> db \<Rightarrow> bool" where
  "par_ok p d \<longleftrightarrow>
     p_completed p = p_success p + p_failure p \<and> p_completed p = length (counted (p_id p) d) \<and>
     p_total p = length (members (p_id p) d) \<and>
     (p_status p = WRunning \<longrightarrow> p_completed p < p_total p) \<and>
     (p_status p = WSucceeded \<or> p_status p = WFailed \<longrightarrow> p_total p \<le> p_completed p) \<and>
     (p_status p = WPending \<longrightarrow> p_total p = 0) \<and> p_status p \<noteq> WWaiting \<and>
     (p_type p = IterWf \<or> p_type p = BatchWf) \<and>
     (p_settled_at p \<noteq> None \<longleftrightarrow> terminal_wf (p_status p)) \<and>
     par_settled (p_id p) d = (if p_settled_at p = None then 0 else 1)"

definition par_inv :: "db \<Rightarrow> bool" where
  "par_inv d \<longleftrightarrow> ids_ok d \<and> (\<forall>p \<in> set (d_pars d). par_ok p d)"

text \<open>Work of the other components, as far as iters and batches can tell.\<close>

definition other_work :: "db \<Rightarrow> db \<Rightarrow> bool" where
  "other_work d d' \<longleftrightarrow> d_pars d' = d_pars d \<and> member_view d' = member_view d \<and>
     counted_view d' = counted_view d \<and>
     (\<forall>i. i < d_next d \<longrightarrow> par_settled i d' = par_settled i d) \<and> d_next d \<le> d_next d' \<and> ids_ok d'"

lemma members_view: "member_view d' = member_view d \<Longrightarrow> members i d' = members i d"
  by (simp add: members_def)

lemma counted_cong:
  "member_view d' = member_view d \<Longrightarrow> counted_view d' = counted_view d \<Longrightarrow> counted i d' = counted i d"
  by (simp add: counted_def members_def)

lemma par_ok_cong:
  assumes "members (p_id p) d' = members (p_id p) d" "length (counted (p_id p) d') = length (counted (p_id p) d)"
    and "par_settled (p_id p) d' = par_settled (p_id p) d"
  shows "par_ok p d' = par_ok p d"
  unfolding par_ok_def by (simp only: assms)

lemma other_work_inv:
  assumes "par_inv d" "other_work d d'"
  shows "par_inv d'"
proof -
  have "par_ok p d'" if "p \<in> set (d_pars d')" for p
  proof -
    have "par_ok p d" "par_settled (p_id p) d' = par_settled (p_id p) d"
      using assms that by (auto simp: par_inv_def other_work_def ids_ok_def)
    then show ?thesis
      using assms(2) par_ok_cong [of p d' d] counted_cong [of d' d] members_view [of d' d]
      by (simp add: other_work_def)
  qed
  then show ?thesis using assms(2) by (auto simp: par_inv_def other_work_def)
qed

lemma members_iff:
  "t \<in> set (members i d) \<longleftrightarrow> (\<exists>x \<in> set (d_tasks d). t_id x = t \<and> parent x = Some i)"
  by (force simp: members_def member_view_def)

lemma length_counted:
  "length (counted i d) = hits (\<lambda>a. a_counted a \<and> a_task a \<in> set (members i d)) (d_attempts d)"
proof -
  have "filter (\<lambda>x. snd x \<in> M) (map (\<lambda>a. (a_id a, a_task a)) (filter a_counted as)) =
      map (\<lambda>a. (a_id a, a_task a)) (filter (\<lambda>a. a_counted a \<and> a_task a \<in> M) as)" for M as
    by (induction as) auto
  then show ?thesis by (simp add: counted_def counted_view_def hits_def)
qed

section \<open>Counting a completion\<close>

definition counted_db :: "time \<Rightarrow> id \<Rightarrow> id \<Rightarrow> bool \<Rightarrow> db \<Rightarrow> db" where
  "counted_db now i aid s d = upd_pars (\<lambda>x. p_id x = i) (count_member now s)
     (upd_attempts (\<lambda>x. a_id x = aid) (\<lambda>x. x\<lparr>a_counted := True\<rparr>) d)"

definition settled_par :: "time \<Rightarrow> wf_status \<Rightarrow> par_row \<Rightarrow> par_row" where
  "settled_par now s p = p\<lparr>p_status := s, p_settled_at := Some now, p_updated := now\<rparr>"

definition final_status :: "par_row \<Rightarrow> wf_status" where
  "final_status p = (if p_failure p = 0 then WSucceeded else WFailed)"

lemma settle_par_cases:
  assumes "settle_par now ty i s d = (x, d')" "get_par i d = Some p" "distinct (map p_id (d_pars d))"
  shows "(x = None \<and> d' = d \<and> (p_settled_at p \<noteq> None \<or> terminal_wf (p_status p))) \<or>
    (p_settled_at p = None \<and> \<not> terminal_wf (p_status p) \<and> x = Some (settled_par now s p) \<and>
     d' = emit (WorkflowSettled ty i s) (upd_pars (\<lambda>y. p_id y = i) (settled_par now s) d))"
proof -
  have p: "p \<in> set (d_pars d)" "p_id p = i"
    using get_by_SomeD [OF assms(2) [unfolded get_par_def]] by auto
  have only: "y = p" if "y \<in> set (d_pars d)" "p_id y = i" for y
    using key_inj [OF assms(3) that(1) p(1)] that(2) p(2) by simp
  define P where "P = (\<lambda>y :: par_row. p_id y = i \<and> p_settled_at y = None \<and> \<not> terminal_wf (p_status y))"
  have f: "(\<lambda>y :: par_row. y\<lparr>p_status := s, p_settled_at := Some now, p_updated := now\<rparr>) = settled_par now s"
    by (simp add: settled_par_def fun_eq_iff)
  have run: "(if hits P (d_pars d) = 0 then (None, d)
      else (get_par i (upd_pars P (settled_par now s) d),
            emit (WorkflowSettled ty i s) (upd_pars P (settled_par now s) d))) = (x, d')"
    using assms(1) unfolding settle_par_def P_def Let_def f .
  show ?thesis
  proof (cases "P p")
    case True
    then have "hits P (d_pars d) \<noteq> 0" using p(1) by (auto simp: hits_0 exists_where_iff)
    moreover have "P y = (p_id y = i)" if "y \<in> set (d_pars d)" for y
      using only [OF that] True p(2) by (auto simp: P_def)
    then have "upd_pars P (settled_par now s) d = upd_pars (\<lambda>y. p_id y = i) (settled_par now s) d"
      by (simp add: upd_pars_def cong: upd_where_cong)
    moreover have "get_par i (upd_pars (\<lambda>y. p_id y = i) (settled_par now s) d) = Some (settled_par now s p)"
      using assms(2) p(2) get_by_upd_where [of "\<lambda>y. p_id y = i" p_id "settled_par now s" i "d_pars d"]
      by (simp add: get_par_def settled_par_def)
    ultimately show ?thesis using run True by (auto simp: P_def)
  next
    case False
    then have "hits P (d_pars d) = 0" using only by (auto simp: hits_0 exists_where_iff P_def)
    then show ?thesis using run False p(2) by (auto simp: P_def)
  qed
qed

lemma atomic_increment_cases:
  assumes "atomic_increment now i aid s d = Inr (out, q, d')" "ids_ok d"
  obtains (noop) "out = Noop" "d' = d"
      "\<exists>p. get_par i d = Some p \<and> (p_status p = WCancelled \<or> (\<exists>a. get_attempt aid d = Some a \<and> a_counted a))"
  | (count) p a where "get_par i d = Some p" "p_status p \<noteq> WCancelled" "get_attempt aid d = Some a"
      "\<not> a_counted a" "d' = counted_db now i aid s d"
      "out = Partial \<and> q = count_member now s p \<and> p_completed p + 1 < p_total p \<or>
       out = Noop \<and> p_total p \<le> p_completed p + 1 \<and> (p_settled_at p \<noteq> None \<or> terminal_wf (p_status p))"
  | (complete) p a where "get_par i d = Some p" "p_settled_at p = None" "\<not> terminal_wf (p_status p)"
      "get_attempt aid d = Some a" "\<not> a_counted a" "out = Complete" "p_total p \<le> p_completed p + 1"
      "q = settled_par now (final_status (count_member now s p)) (count_member now s p)"
      "d' = emit (WorkflowSettled (p_type p) i (final_status (count_member now s p)))
         (upd_pars (\<lambda>y. p_id y = i) (settled_par now (final_status (count_member now s p)))
           (counted_db now i aid s d))"
proof -
  from assms(1) obtain p where p: "get_par i d = Some p"
    by (cases "get_par i d") (simp_all add: atomic_increment_def)
  show thesis
  proof (cases "p_status p = WCancelled")
    case True
    then show thesis using assms(1) p noop by (simp add: atomic_increment_def)
  next
    case running: False
    with assms(1) p obtain a where a: "get_attempt aid d = Some a"
      by (cases "get_attempt aid d") (simp_all add: atomic_increment_def)
    show thesis
    proof (cases "a_counted a")
      case True
      then show thesis using assms(1) p a running noop by (simp add: atomic_increment_def)
    next
      case fresh: False
      define p1 where "p1 = count_member now s p"
      define d1 where "d1 = counted_db now i aid s d"
      have run: "(if p_total p1 \<le> p_completed p1 then
            (case settle_par now (p_type p1) i (final_status p1) d1 of
               (None, e) \<Rightarrow> Inr (Noop, p1, e) | (Some y, e) \<Rightarrow> Inr (Complete, y, e))
          else Inr (Partial, p1, d1)) = (Inr (out, q, d') :: (increment \<times> par_row \<times> db) res)"
        using assms(1) p a running fresh unfolding p1_def d1_def counted_db_def final_status_def
        by (simp add: atomic_increment_def Let_def)
      have flds: "p_total p1 = p_total p" "p_completed p1 = p_completed p + 1" "p_type p1 = p_type p"
        "p_settled_at p1 = p_settled_at p" "p_status p1 = p_status p"
        by (simp_all add: p1_def count_member_def)
      show thesis
      proof (cases "p_total p \<le> p_completed p + 1")
        case False
        then show thesis using count [OF p running a fresh] run flds by (simp add: d1_def p1_def)
      next
        case True
        obtain x e where x: "settle_par now (p_type p) i (final_status p1) d1 = (x, e)" by fastforce
        have "p_id p = i" using get_by_SomeD [OF p [unfolded get_par_def]] by simp
        then have g: "get_par i d1 = Some p1"
          using p get_by_upd_where [of "\<lambda>y. p_id y = i" p_id "count_member now s" i "d_pars d"]
          by (simp add: get_par_def d1_def counted_db_def p1_def count_member_def)
        have dst: "distinct (map p_id (d_pars d1))"
          using assms(2) by (simp add: d1_def counted_db_def map_upd_where count_member_def ids_ok_def)
        from settle_par_cases [OF x g dst] show thesis
        proof
          assume "x = None \<and> e = d1 \<and> (p_settled_at p1 \<noteq> None \<or> terminal_wf (p_status p1))"
          then show thesis using count [OF p running a fresh] run x True flds by (simp add: d1_def)
        next
          assume "p_settled_at p1 = None \<and> \<not> terminal_wf (p_status p1) \<and>
            x = Some (settled_par now (final_status p1) p1) \<and>
            e = emit (WorkflowSettled (p_type p) i (final_status p1))
              (upd_pars (\<lambda>y. p_id y = i) (settled_par now (final_status p1)) d1)"
          then show thesis using complete [OF p _ _ a fresh] run x True flds by (simp add: d1_def p1_def)
        qed
      qed
    qed
  qed
qed

lemma counted_db_effect:
  assumes "ids_ok d" "get_attempt aid d = Some a" "\<not> a_counted a" "a_task a \<in> set (members i d)"
    and e_def: "e = counted_db now i aid s d"
  shows "ids_ok e" "members j e = members j d" "par_settled j e = par_settled j d"
    "length (counted j e) = length (counted j d) + (if j = i then 1 else 0)"
    "d_pars e = upd_where (\<lambda>x. p_id x = i) (count_member now s) (d_pars d)"
proof -
  have a: "a \<in> set (d_attempts d)" "a_id a = aid"
    using get_by_SomeD [OF assms(2) [unfolded get_attempt_def]] by auto
  have "map p_id (d_pars e) = map p_id (d_pars d)" "map a_id (d_attempts e) = map a_id (d_attempts d)"
    by (simp_all add: e_def counted_db_def map_upd_where count_member_def)
  moreover have set: "par_settled j e = par_settled j d" for j by (simp add: e_def counted_db_def par_settled_def)
  ultimately show "ids_ok e" using assms(1) unfolding ids_ok_def
    by (auto simp: e_def counted_db_def set_upd_where count_member_def)
  show mem: "members j e = members j d" for j by (simp add: e_def counted_db_def members_def member_view_def)
  show "par_settled j e = par_settled j d" by (rule set)
  have d: "distinct (map a_id (d_attempts d))" using assms(1) by (simp add: ids_ok_def)
  have att: "d_attempts e = upd_where (\<lambda>x. a_id x = aid) (\<lambda>x. x\<lparr>a_counted := True\<rparr>) (d_attempts d)"
    by (simp add: e_def counted_db_def)
  have one: "a_task a \<in> set (members j d) \<longleftrightarrow> j = i"
  proof
    assume "a_task a \<in> set (members j d)"
    with assms(4) obtain x y where "x \<in> set (d_tasks d)" "t_id x = a_task a" "parent x = Some j"
      "y \<in> set (d_tasks d)" "t_id y = a_task a" "parent y = Some i" by (auto simp: members_iff)
    then show "j = i" using key_inj [of t_id "d_tasks d" x y] assms(1) by (auto simp: ids_ok_def)
  qed (use assms(4) in simp)
  show "length (counted j e) = length (counted j d) + (if j = i then 1 else 0)"
    using att hits_upd_at [OF d a(1), of "\<lambda>a. a_counted a \<and> a_task a \<in> set (members j d)" "\<lambda>x. x\<lparr>a_counted := True\<rparr>"]
      one assms(3) a(2)
    by (cases "j = i") (auto simp: length_counted mem)
  show "d_pars e = upd_where (\<lambda>x. p_id x = i) (count_member now s) (d_pars d)"
    by (simp add: e_def counted_db_def)
qed

lemma par_row_unique:
  "ids_ok d \<Longrightarrow> get_par i d = Some p \<Longrightarrow> q \<in> set (d_pars d) \<Longrightarrow> p_id q = i \<Longrightarrow> q = p"
  using get_by_SomeD [of p_id i "d_pars d" p] key_inj [of p_id "d_pars d" q p]
  by (simp add: get_par_def ids_ok_def)

lemma increment_inv:
  assumes "par_inv d" "atomic_increment now i aid s d = Inr (out, q, d')"
    and "\<And>a. get_attempt aid d = Some a \<Longrightarrow> a_task a \<in> set (members i d)"
  shows "par_inv d'"
proof -
  have ids: "ids_ok d" and ok: "\<And>p. p \<in> set (d_pars d) \<Longrightarrow> par_ok p d"
    using assms(1) by (auto simp: par_inv_def)
  show ?thesis
  proof (rule atomic_increment_cases [OF assms(2) ids])
    assume "d' = d" then show ?thesis using assms(1) by simp
  next
    fix p a
    assume p: "get_par i d = Some p" "p_status p \<noteq> WCancelled" "get_attempt aid d = Some a" "\<not> a_counted a"
      "d' = counted_db now i aid s d"
      "out = Partial \<and> q = count_member now s p \<and> p_completed p + 1 < p_total p \<or>
       out = Noop \<and> p_total p \<le> p_completed p + 1 \<and> (p_settled_at p \<noteq> None \<or> terminal_wf (p_status p))"
    note eff = counted_db_effect [OF ids p(3,4) assms(3) [OF p(3)] p(5)]
    have pid: "p_id p = i" "par_ok p d" using get_by_SomeD [OF p(1) [unfolded get_par_def]] ok by auto
    then have "p_total p \<noteq> 0" using assms(3) [OF p(3)] by (auto simp: par_ok_def)
    then have "par_ok (count_member now s p) d'"
      using pid p(6) eff by (auto simp: par_ok_def count_member_def terminal_wf_def)
    moreover have "par_ok r d'" if "r \<in> set (d_pars d)" "p_id r \<noteq> i" for r
      using ok [OF that(1)] that(2) eff par_ok_cong [of r d' d] by simp
    ultimately show ?thesis using eff(1) par_row_unique [OF ids p(1)]
      by (auto simp: par_inv_def eff(5) set_upd_where)
  next
    fix p a
    let ?f = "final_status (count_member now s p)"
    assume p: "get_par i d = Some p" "p_settled_at p = None" "\<not> terminal_wf (p_status p)"
      "get_attempt aid d = Some a" "\<not> a_counted a" "out = Complete" "p_total p \<le> p_completed p + 1"
      "d' = emit (WorkflowSettled (p_type p) i ?f) (upd_pars (\<lambda>y. p_id y = i) (settled_par now ?f)
         (counted_db now i aid s d))"
    define e where "e = counted_db now i aid s d"
    note eff = counted_db_effect [OF ids p(4,5) assms(3) [OF p(4)] e_def]
    have pid: "p \<in> set (d_pars d)" "p_id p = i" "par_ok p d"
      using get_by_SomeD [OF p(1) [unfolded get_par_def]] ok by auto
    have ty: "p_type p \<noteq> ChainWf" using pid(3) by (auto simp: par_ok_def)
    have view: "members j d' = members j e" "length (counted j d') = length (counted j e)"
      "par_settled j d' = par_settled j e + (if j = i then 1 else 0)" for j
      using ty by (simp_all add: p(8) e_def [symmetric] members_def member_view_def length_counted
          par_settled_def hits_append)
    have rows: "d_pars d' = map (\<lambda>r. if p_id r = i then settled_par now ?f (count_member now s r) else r) (d_pars d)"
      by (simp add: p(8) e_def [symmetric] eff(5) upd_where_def settled_par_def count_member_def)
    have ids': "ids_ok d'"
    proof -
      have "map p_id (d_pars d') = map p_id (d_pars e)" "d_attempts d' = d_attempts e" "d_tasks d' = d_tasks e"
        "d_next d' = d_next e"
        by (simp_all add: p(8) e_def [symmetric] map_upd_where settled_par_def)
      moreover have "i < d_next e" using ids pid(1,2) by (auto simp: e_def counted_db_def ids_ok_def)
      ultimately show ?thesis using eff(1) view(3) unfolding ids_ok_def
        by (auto simp: p(8) e_def [symmetric] set_upd_where settled_par_def)
    qed
    have "par_ok (settled_par now ?f (count_member now s p)) d'"
      using pid p(2,7) eff view by (auto simp: par_ok_def count_member_def settled_par_def terminal_wf_def final_status_def)
    moreover have "par_ok r d'" if "r \<in> set (d_pars d)" "p_id r \<noteq> i" for r
      using ok [OF that(1)] that(2) eff view par_ok_cong [of r d' d] by simp
    ultimately show ?thesis using ids' par_row_unique [OF ids p(1)]
      by (auto simp: par_inv_def rows)
  qed
qed

lemma other_work_same:
  assumes "ids_ok d" "d_pars d' = d_pars d" "d_tasks d' = d_tasks d" "d_attempts d' = d_attempts d"
    "d_events d' = d_events d" "d_next d' = d_next d"
  shows "other_work d d'"
  using assms by (simp add: other_work_def ids_ok_def member_view_def counted_view_def par_settled_def)

lemma dispatch_progress_frame [simp]:
  "d_pars (dispatch_progress_hook w p d) = d_pars d" "d_tasks (dispatch_progress_hook w p d) = d_tasks d"
  "d_attempts (dispatch_progress_hook w p d) = d_attempts d"
  "d_events (dispatch_progress_hook w p d) = d_events d" "d_next (dispatch_progress_hook w p d) = d_next d"
  by (auto simp: dispatch_progress_hook_def split: option.splits sum.splits dest: q2_async_task_Inr)

lemma dispatch_par_hook_frame [simp]:
  "d_pars (dispatch_par_hook w now p d) = d_pars d" "d_tasks (dispatch_par_hook w now p d) = d_tasks d"
  "d_attempts (dispatch_par_hook w now p d) = d_attempts d"
  "d_events (dispatch_par_hook w now p d) = d_events d" "d_next (dispatch_par_hook w now p d) = d_next d"
  by (simp_all add: dispatch_par_hook_def Let_def split: option.splits)

text \<open>The attempt handed to the dispatcher belongs to a task of the workflow.\<close>

definition of_member :: "attempt_row \<Rightarrow> id \<Rightarrow> db \<Rightarrow> bool" where
  "of_member a i d \<longleftrightarrow> (\<forall>x. get_attempt (a_id a) d = Some x \<longrightarrow> a_task x = a_task a) \<and>
     (\<exists>t. get_task (a_task a) d = Some t \<and> parent t = Some i)"

lemma handle_parallel_inv:
  assumes "par_inv d" "of_member a i d" "handle_parallel w now i a d = Inr d'"
  shows "par_inv d'"
proof -
  have "d' = d \<or> (\<exists>out p e. atomic_increment now i (a_id a) (a_success a = Some True) d = Inr (out, p, e) \<and>
      d' = (case out of Complete \<Rightarrow> dispatch_par_hook w now p e | Partial \<Rightarrow> dispatch_progress_hook w p e
        | Noop \<Rightarrow> e))"
    using assms(3) by (auto simp: handle_parallel_def elim!: rbindE split: if_splits)
  then show ?thesis
  proof (elim disjE exE conjE)
    fix out p e assume inc: "atomic_increment now i (a_id a) (a_success a = Some True) d = Inr (out, p, e)"
      and d': "d' = (case out of Complete \<Rightarrow> dispatch_par_hook w now p e
        | Partial \<Rightarrow> dispatch_progress_hook w p e | Noop \<Rightarrow> e)"
    have "par_inv e"
    proof (rule increment_inv [OF assms(1) inc])
      fix x assume "get_attempt (a_id a) d = Some x"
      with assms(2) obtain t where "a_task x = a_task a" "get_by t_id (a_task a) (d_tasks d) = Some t"
        "parent t = Some i" by (auto simp: of_member_def get_task_def)
      then show "a_task x \<in> set (members i d)" using get_by_SomeD by (fastforce simp: members_iff)
    qed
    moreover from this have "other_work e d'"
      by (intro other_work_same) (auto simp: d' par_inv_def split: increment.splits)
    ultimately show ?thesis by (rule other_work_inv)
  qed (use assms(1) in simp)
qed

section \<open>Cancelling and starting\<close>

lemma announce_par_frame:
  "d_pars (announce_par_cancelled w now p d) = d_pars d" "d_tasks (announce_par_cancelled w now p d) = d_tasks d"
  "d_attempts (announce_par_cancelled w now p d) = d_attempts d"
  "d_events (announce_par_cancelled w now p d) = d_events d @ [WorkflowSettled (p_type p) (p_id p) WCancelled]"
  "d_next (announce_par_cancelled w now p d) = d_next d"
  by (simp_all add: announce_par_cancelled_def Let_def split: option.splits)

lemma cancel_par_Inr:
  assumes "cancel_par w now p d = Inr d'" "ids_ok d"
  obtains q where "get_par (p_id p) d = Some q" "cancellable_wf (p_status q)" "p_settled_at q = None"
    "d' = announce_par_cancelled w now p
       (upd_pars (\<lambda>x. p_id x = p_id p) (settled_par now WCancelled) d)"
proof -
  define P where "P = (\<lambda>x :: par_row. p_id x = p_id p \<and> cancellable_wf (p_status x) \<and> p_settled_at x = None)"
  have f: "(\<lambda>x :: par_row. x\<lparr>p_status := WCancelled, p_settled_at := Some now, p_updated := now\<rparr>) =
      settled_par now WCancelled" by (simp add: settled_par_def fun_eq_iff)
  have run: "hits P (d_pars d) \<noteq> 0" "d' = announce_par_cancelled w now p (upd_pars P (settled_par now WCancelled) d)"
    using assms(1) unfolding cancel_par_def P_def Let_def f by (auto split: if_splits)
  then obtain q where q: "q \<in> set (d_pars d)" "P q" by (auto simp: hits_0 exists_where_iff)
  then have g: "get_par (p_id p) d = Some q"
    using get_by_distinct [of p_id "d_pars d" q] assms(2) by (simp add: get_par_def P_def ids_ok_def)
  have "P y = (p_id y = p_id p)" if "y \<in> set (d_pars d)" for y
    using par_row_unique [OF assms(2) g that] q(2) by (auto simp: P_def)
  then have "upd_pars P (settled_par now WCancelled) d = upd_pars (\<lambda>x. p_id x = p_id p) (settled_par now WCancelled) d"
    by (simp add: upd_pars_def cong: upd_where_cong)
  then show thesis using that [OF g] run(2) q(2) by (simp add: P_def)
qed

lemma cancel_par_inv:
  assumes "par_inv d" "cancel_par w now p d = Inr d'" "p_type p \<noteq> ChainWf"
  shows "par_inv d'"
proof -
  have ids: "ids_ok d" and ok: "\<And>p. p \<in> set (d_pars d) \<Longrightarrow> par_ok p d"
    using assms(1) by (auto simp: par_inv_def)
  obtain q where q: "get_par (p_id p) d = Some q" "cancellable_wf (p_status q)" "p_settled_at q = None"
    "d' = announce_par_cancelled w now p (upd_pars (\<lambda>x. p_id x = p_id p) (settled_par now WCancelled) d)"
    by (rule cancel_par_Inr [OF assms(2) ids])
  have qd: "q \<in> set (d_pars d)" "p_id q = p_id p" using get_by_SomeD [OF q(1) [unfolded get_par_def]] by auto
  have rows: "d_pars d' = map (\<lambda>r. if p_id r = p_id p then settled_par now WCancelled r else r) (d_pars d)"
    by (simp add: q(4) announce_par_frame upd_where_def)
  have view: "members j d' = members j d" "length (counted j d') = length (counted j d)"
    "par_settled j d' = par_settled j d + (if j = p_id p then 1 else 0)" for j
    using assms(3) by (simp_all add: q(4) announce_par_frame members_def member_view_def length_counted
        par_settled_def hits_append)
  have "map p_id (d_pars d') = map p_id (d_pars d)" by (simp add: rows settled_par_def)
  then have ids': "ids_ok d'"
    using ids qd view(3) unfolding ids_ok_def
    by (auto simp: q(4) announce_par_frame set_upd_where settled_par_def)
  have "par_ok (settled_par now WCancelled q) d'"
    using ok [OF qd(1)] q(3) qd(2) view by (simp add: par_ok_def settled_par_def terminal_wf_def)
  moreover have "par_ok r d'" if "r \<in> set (d_pars d)" "p_id r \<noteq> p_id p" for r
    using ok [OF that(1)] that(2) view par_ok_cong [of r d' d] by simp
  ultimately show ?thesis using ids' par_row_unique [OF ids q(1)]
    by (auto simp: par_inv_def rows)
qed

lemma new_par_inv:
  assumes "par_inv d" "new_par imports now it cl h subject graph node d = Inr (i, d')"
  shows "par_inv d'"
proof -
  define r where "r = last (d_pars d')"
  have r: "p_id r = d_next d" "p_status r = WPending" "p_settled_at r = None"
      "p_total r = 0" "p_completed r = 0" "p_success r = 0" "p_failure r = 0" "p_type r = IterWf \<or> p_type r = BatchWf"
    and d': "d' = d\<lparr>d_pars := d_pars d @ [r], d_next := Suc (d_next d)\<rparr>"
    using assms(2) by (auto simp: r_def new_par_def Let_def elim!: rbindE split: prod.splits if_splits)
  have ids: "ids_ok d" using assms(1) by (simp add: par_inv_def)
  then have ids': "ids_ok d'" unfolding ids_ok_def
    by (auto simp: d' r less_Suc_eq par_settled_def)
  have view: "members j d' = members j d" "length (counted j d') = length (counted j d)"
    "par_settled j d' = par_settled j d" for j
    by (simp_all add: d' members_def member_view_def length_counted par_settled_def)
  have "t \<notin> set (members (d_next d) d)" for t
    using ids by (auto simp: members_iff ids_ok_def)
  then have "members (d_next d) d = []" by (meson list.set_sel(1))
  moreover have "par_settled (d_next d) d = 0"
    using ids by (simp add: ids_ok_def)
  moreover from calculation(1) have "counted (d_next d) d = []" by (simp add: counted_def)
  ultimately have "par_ok r d'" unfolding par_ok_def view r(1-7) terminal_wf_def using r(8) by simp
  moreover have "par_ok p d'" if "p \<in> set (d_pars d)" for p
    using assms(1) that view par_ok_cong [of p d' d] by (simp add: par_inv_def)
  ultimately show ?thesis using ids' by (auto simp: par_inv_def d')
qed

lemma create_workflow_task_Inr:
  assumes "create_workflow_task w now trace f as kw opts (Some (ty, p)) lb d = Inr (t, q, d')"
    and "ty = IterWf \<or> ty = BatchWf"
  obtains x a m where "t_id x = d_next d" "parent x = Some p" "a_id a = Suc (d_next d)"
    "a_task a = d_next d" "\<not> a_counted a"
    "d' = d\<lparr>d_tasks := d_tasks d @ [x], d_attempts := d_attempts d @ [a],
       d_queue := d_queue d @ [(q, m)], d_next := Suc (Suc (d_next d))\<rparr>"
proof -
  let ?it = "case Some (ty, p) of Some (IterWf, i) \<Rightarrow> Some i | _ \<Rightarrow> None"
  let ?ba = "case Some (ty, p) of Some (BatchWf, i) \<Rightarrow> Some i | _ \<Rightarrow> None"
  from assms(1) obtain pol m where
    c: "create_and_enqueue w now trace (workflow_task w now f as kw opts pol ?it ?ba lb) m d = Inr (t, q, d')"
    unfolding create_workflow_task_def Let_def by (elim rbindE) (auto split: prod.splits)
  show thesis
    by (rule create_and_enqueue_Inr [OF c], rule that)
      (use assms(2) in \<open>auto simp: parent_def workflow_task_def\<close>)
qed

lemma ids_ok_member:
  assumes "ids_ok d" "t_id x = d_next d" "parent x = Some p" "p < d_next d" "a_id a = Suc (d_next d)"
    "a_task a = d_next d" "\<not> a_counted a"
    "d' = d\<lparr>d_tasks := d_tasks d @ [x], d_attempts := d_attempts d @ [a],
       d_queue := qu, d_next := Suc (Suc (d_next d))\<rparr>"
  shows "ids_ok d'" "member_view d' = member_view d @ [(d_next d, Some p)]" "counted_view d' = counted_view d"
    "d_pars d' = d_pars d" "d_events d' = d_events d" "d_next d < d_next d'"
  using assms by (auto simp: ids_ok_def member_view_def counted_view_def par_settled_def less_Suc_eq)

lemma create_members_effect:
  assumes "create_members w now trace p is d = Inr d'" "ids_ok d" "p_id p < d_next d"
    and "p_type p = IterWf \<or> p_type p = BatchWf"
  shows "ids_ok d' \<and> d_pars d' = d_pars d \<and> d_events d' = d_events d \<and> counted_view d' = counted_view d \<and>
    d_next d \<le> d_next d' \<and> (\<exists>ns. length ns = length is \<and> (\<forall>n \<in> set ns. d_next d \<le> n) \<and>
      member_view d' = member_view d @ map (\<lambda>n. (n, Some (p_id p))) ns)"
  using assms(1-3)
proof (induction "is" arbitrary: d)
  case (Cons i "is")
  then obtain t q e where e: "create_workflow_task w now trace (if p_type p = IterWf then p_func p else it_func i)
      (it_args i) (it_kwargs i) (if p_type p = IterWf then p_options p else it_options i)
      (Some (p_type p, p_id p)) (par_labels p) d = Inr (t, q, e)" "create_members w now trace p is e = Inr d'"
    by (auto elim!: rbindE)
  obtain x a m where "t_id x = d_next d" "parent x = Some (p_id p)" "a_id a = Suc (d_next d)"
    "a_task a = d_next d" "\<not> a_counted a"
    "e = d\<lparr>d_tasks := d_tasks d @ [x], d_attempts := d_attempts d @ [a],
       d_queue := d_queue d @ [(q, m)], d_next := Suc (Suc (d_next d))\<rparr>"
    by (rule create_workflow_task_Inr [OF e(1) assms(4)])
  note eff = ids_ok_member [OF Cons.prems(2) this(1,2) Cons.prems(3) this(3-6)]
  from Cons.IH [OF e(2) eff(1)] eff(6) Cons.prems(3) obtain ns where "ids_ok d'" "d_pars d' = d_pars e"
    "d_events d' = d_events e" "counted_view d' = counted_view e" "d_next e \<le> d_next d'"
    "length ns = length is" "\<forall>n \<in> set ns. d_next e \<le> n"
    "member_view d' = member_view e @ map (\<lambda>n. (n, Some (p_id p))) ns" by auto
  moreover from this eff(6) have "\<forall>n \<in> set (d_next d # ns). d_next d \<le> n" by fastforce
  ultimately show ?case using eff
    by (intro conjI exI [of _ "d_next d # ns"]) simp_all
qed simp

lemma run_par_inv:
  assumes "par_inv d" "p \<in> set (d_pars d)" "run_par w now trace p is d = Inr d'"
  shows "par_inv d'"
proof -
  have ids: "ids_ok d" and ok: "\<And>p. p \<in> set (d_pars d) \<Longrightarrow> par_ok p d"
    using assms(1) by (auto simp: par_inv_def)
  define f where "f = (\<lambda>x :: par_row. x\<lparr>p_total := length is, p_status := WRunning, p_updated := now\<rparr>)"
  define e where "e = upd_pars (\<lambda>x. p_id x = p_id p) f d"
  have r: "is \<noteq> []" "p_status p = WPending" and cm: "create_members w now trace p is e = Inr d'"
    using assms(3) by (auto simp: run_par_def transition_to_def guard_def e_def f_def elim!: rbindE split: if_splits)
  have ty: "p_type p = IterWf \<or> p_type p = BatchWf" using ok [OF assms(2)] by (simp add: par_ok_def)
  have "map p_id (d_pars e) = map p_id (d_pars d)" by (simp add: e_def f_def map_upd_where)
  then have ide: "ids_ok e" using ids unfolding ids_ok_def
    by (auto simp: e_def set_upd_where f_def par_settled_def)
  have "p_id p < d_next e" using ids assms(2) by (auto simp: ids_ok_def e_def)
  from create_members_effect [OF cm ide this ty] obtain ns where ns: "ids_ok d'" "d_pars d' = d_pars e"
    "d_events d' = d_events e" "counted_view d' = counted_view e" "length ns = length is"
    "\<forall>n \<in> set ns. d_next e \<le> n" "member_view d' = member_view e @ map (\<lambda>n. (n, Some (p_id p))) ns" by auto
  have mem: "members j d' = members j d @ (if j = p_id p then ns else [])" for j
    by (simp add: members_def ns(7) comp_def) (simp add: e_def member_view_def)
  have "snd x \<notin> set ns" if "x \<in> set (counted_view d)" for x
  proof -
    from that ids have "snd x < d_next d" by (auto simp: counted_view_def ids_ok_def)
    then show ?thesis using ns(6) by (auto simp: e_def)
  qed
  then have cnt: "counted j d' = counted j d" for j
    by (auto simp: counted_def mem ns(4) intro!: filter_cong) (simp_all add: e_def counted_view_def)
  have set: "par_settled j d' = par_settled j d" for j by (simp add: par_settled_def ns(3) e_def)
  have only: "q = p" if "q \<in> set (d_pars d)" "p_id q = p_id p" for q
    using key_inj [of p_id "d_pars d" q p] that assms(2) ids by (simp add: ids_ok_def)
  have pend: "members (p_id p) d = []" "counted (p_id p) d = []"
    using ok [OF assms(2)] r(2) by (auto simp: par_ok_def counted_def)
  have "par_ok (f p) d'"
    using ok [OF assms(2)] r pend ns(5) by (auto simp: par_ok_def f_def mem cnt set terminal_wf_def)
  moreover have "par_ok q d'" if "q \<in> set (d_pars d)" "p_id q \<noteq> p_id p" for q
    using ok [OF that(1)] that(2) par_ok_cong [of q d' d] mem cnt set by simp
  ultimately show ?thesis using ns(1) only
    by (auto simp: par_inv_def ns(2) e_def set_upd_where)
qed

section \<open>Runs\<close>

inductive par_step :: "world \<Rightarrow> db \<Rightarrow> db \<Rightarrow> bool" for w where
  step_new: "new_par imports now it cl h subject graph node d = Inr (i, d') \<Longrightarrow> par_step w d d'"
| step_run: "p \<in> set (d_pars d) \<Longrightarrow> run_par w now trace p is d = Inr d' \<Longrightarrow> par_step w d d'"
| step_member: "of_member a i d \<Longrightarrow> handle_parallel w now i a d = Inr d' \<Longrightarrow> par_step w d d'"
| step_cancel: "p_type p \<noteq> ChainWf \<Longrightarrow> cancel_par w now p d = Inr d' \<Longrightarrow> par_step w d d'"
| step_other: "other_work d d' \<Longrightarrow> par_step w d d'"

lemma par_step_inv: "par_step w d d' \<Longrightarrow> par_inv d \<Longrightarrow> par_inv d'"
  by (induction rule: par_step.induct)
    (blast intro: new_par_inv run_par_inv handle_parallel_inv cancel_par_inv other_work_inv)+

interpretation pars: step_invariant "par_step w" par_inv for w
  by unfold_locales (rule par_step_inv)

lemma empty_par_inv: "par_inv empty_db"
  by (simp add: par_inv_def ids_ok_def empty_db_def par_settled_def)

lemma reachable_par_inv: "run_steps (par_step w) empty_db d \<Longrightarrow> par_inv d"
  by (rule pars.run_keeps [OF _ empty_par_inv])

section \<open>A concrete run\<close>

definition no_hooks :: wf_hooks where
  "no_hooks = \<lparr>h_success_hook = None, h_success_args = [], h_success_kwargs = [], h_failure_hook = None,
     h_failure_args = [], h_failure_kwargs = [], h_on_cancelled = None, h_progress_hook = None,
     h_context = False\<rparr>"

definition demo_item :: "string \<Rightarrow> item" where
  "demo_item f = \<lparr>it_func = f, it_args = [], it_kwargs = [], it_options = [], it_gate = False\<rparr>"

definition ok_db :: "db res \<Rightarrow> db" where
  "ok_db r = (case r of Inr d \<Rightarrow> d | Inl _ \<Rightarrow> empty_db)"

definition succeeded_attempt :: "id \<Rightarrow> db \<Rightarrow> attempt_row" where
  "succeeded_attempt i d = (the (get_attempt i d))\<lparr>a_success := Some True\<rparr>"

text \<open>A batch of two tasks, started; its first member completed; its second.\<close>

definition batch_db0 :: db where
  "batch_db0 = ok_db (rbind (new_par (\<lambda>_. None) 1 None None no_hooks None None None empty_db) (\<lambda>(_, d). Inr d))"

definition batch_db1 :: db where
  "batch_db1 = ok_db (run_par demo_world 2 None (hd (d_pars batch_db0)) [demo_item ''app.f'', demo_item ''app.g''] batch_db0)"

definition batch_db2 :: db where
  "batch_db2 = ok_db (handle_parallel demo_world 3 100 (succeeded_attempt 102 batch_db1) batch_db1)"

definition batch_db3 :: db where
  "batch_db3 = ok_db (handle_parallel demo_world 4 100 (succeeded_attempt 104 batch_db2) batch_db2)"

lemma ok_dbI: "\<not> isl r \<Longrightarrow> r = Inr (ok_db r)"
  by (cases r) (simp_all add: ok_db_def)

lemma batch_db0_step: "\<exists>i. new_par (\<lambda>_. None) 1 None None no_hooks None None None empty_db = Inr (i, batch_db0)"
proof -
  have "\<not> isl (new_par (\<lambda>_. None) 1 None None no_hooks None None None empty_db)" by code_simp
  then show ?thesis
    by (cases "new_par (\<lambda>_. None) 1 None None no_hooks None None None empty_db")
      (auto simp: batch_db0_def ok_db_def)
qed

lemma batch_db1_step: "run_par demo_world 2 None (hd (d_pars batch_db0)) [demo_item ''app.f'', demo_item ''app.g''] batch_db0 = Inr batch_db1"
  unfolding batch_db1_def by (rule ok_dbI) code_simp

lemma batch_db2_step: "handle_parallel demo_world 3 100 (succeeded_attempt 102 batch_db1) batch_db1 = Inr batch_db2"
  unfolding batch_db2_def by (rule ok_dbI) code_simp

lemma batch_db3_step: "handle_parallel demo_world 4 100 (succeeded_attempt 104 batch_db2) batch_db2 = Inr batch_db3"
  unfolding batch_db3_def by (rule ok_dbI) code_simp

definition member_check :: "attempt_row \<Rightarrow> id \<Rightarrow> db \<Rightarrow> bool" where
  "member_check a i d \<longleftrightarrow> (case get_attempt (a_id a) d of None \<Rightarrow> True | Some x \<Rightarrow> a_task x = a_task a) \<and>
     (case get_task (a_task a) d of None \<Rightarrow> False | Some t \<Rightarrow> parent t = Some i)"

lemma of_memberI: "member_check a i d \<Longrightarrow> of_member a i d"
  by (auto simp: member_check_def of_member_def split: option.splits)

lemma batch_runs:
  "run_steps (par_step demo_world) empty_db batch_db1" "run_steps (par_step demo_world) empty_db batch_db2"
  "run_steps (par_step demo_world) empty_db batch_db3"
proof -
  obtain i where "new_par (\<lambda>_. None) 1 None None no_hooks None None None empty_db = Inr (i, batch_db0)"
    using batch_db0_step by blast
  note r0 = run_step [OF run_refl [of "par_step demo_world" empty_db] step_new [OF this]]
  have ne: "d_pars batch_db0 \<noteq> []" by code_simp
  show r1: "run_steps (par_step demo_world) empty_db batch_db1"
    by (rule run_step [OF r0 step_run [OF hd_in_set [OF ne] batch_db1_step]])
  have "member_check (succeeded_attempt 102 batch_db1) 100 batch_db1" by code_simp
  note r2 = run_step [OF r1 step_member [OF of_memberI [OF this] batch_db2_step]]
  show "run_steps (par_step demo_world) empty_db batch_db2" by (rule r2)
  have "member_check (succeeded_attempt 104 batch_db2) 100 batch_db2" by code_simp
  then show "run_steps (par_step demo_world) empty_db batch_db3"
    by (rule run_step [OF r2 step_member [OF of_memberI batch_db3_step]])
qed

lemma batch_rows:
  "map p_status (d_pars batch_db2) = [WRunning]" "map p_status (d_pars batch_db3) = [WSucceeded]"
  "map p_id (d_pars batch_db2) = [100]" "map p_id (d_pars batch_db3) = [100]"
  "length (counted 100 batch_db2) = 1" "members 100 batch_db2 = [101, 103]"
  by code_simp+



text \<open>
  A fan-out settles once. In every reachable database an iter or batch has announced its
  settlement exactly once when it is settled and never before, whatever completions, redeliveries,
  cancels and other work were interleaved; and it is settled exactly when its status is terminal.
\<close>

theorem fan_out_settles_once:
  assumes "run_steps (par_step w) empty_db d" "p \<in> set (d_pars d)"
  shows "length (filter (\<lambda>e. \<exists>ty s. e = WorkflowSettled ty (p_id p) s \<and> ty \<noteq> ChainWf) (d_events d)) =
      (if terminal_wf (p_status p) then 1 else 0) \<and> (p_settled_at p \<noteq> None \<longleftrightarrow> terminal_wf (p_status p))"
proof -
  have "par_ok p d" using reachable_par_inv [OF assms(1)] assms(2) by (simp add: par_inv_def)
  moreover have "filter (\<lambda>e. \<exists>ty s. e = WorkflowSettled ty (p_id p) s \<and> ty \<noteq> ChainWf) (d_events d) =
      filter (\<lambda>e. case e of WorkflowSettled ty j s \<Rightarrow> ty \<noteq> ChainWf \<and> j = p_id p | _ \<Rightarrow> False) (d_events d)"
    by (rule filter_cong) (auto split: event.splits)
  ultimately show ?thesis by (auto simp: par_ok_def par_settled_def hits_def)
qed

theorem fan_out_settles_once_witness:
  "length (filter (\<lambda>e. \<exists>ty s. e = WorkflowSettled ty 100 s \<and> ty \<noteq> ChainWf) (d_events batch_db3)) = 1"
proof -
  obtain p where "d_pars batch_db3 = [p]" "p_status p = WSucceeded" "p_id p = 100"
    using batch_rows(2,4) by (auto simp: map_eq_Cons_conv)
  then show ?thesis using fan_out_settles_once [OF batch_runs(3), of p] by (simp add: terminal_wf_def)
qed

section \<open>What a fan-out settles as\<close>

text \<open>The completions \<open>cs\<close> (attempt and outcome) handed to the counting transaction in turn.\<close>

fun count_all :: "time \<Rightarrow> id \<Rightarrow> (id \<times> bool) list \<Rightarrow> db \<Rightarrow> db res" where
  "count_all now i [] d = Inr d"
| "count_all now i ((a, s) # cs) d =
     rbind (atomic_increment now i a s d) (\<lambda>(out, p, d). count_all now i cs d)"

text \<open>The abstract fan-in: what a set of outcomes over \<open>n\<close> members amounts to.\<close>

definition tally :: "bool \<Rightarrow> (id \<times> bool) set \<Rightarrow> nat" where
  "tally b S = card {a. (a, b) \<in> S}"

definition fan_in :: "nat \<Rightarrow> (id \<times> bool) set \<Rightarrow> nat \<times> nat \<times> wf_status" where
  "fan_in n S = (tally True S, tally False S,
     if card S < n then WRunning else if (\<exists>a. (a, False) \<in> S) then WFailed else WSucceeded)"

definition fan_abs :: "par_row \<Rightarrow> nat \<times> nat \<times> wf_status" where
  "fan_abs p = (p_success p, p_failure p, p_status p)"

text \<open>The database after the outcomes \<open>S\<close> of the completions \<open>U\<close>.\<close>

definition fan_rel :: "id \<Rightarrow> nat \<Rightarrow> (id \<times> bool) set \<Rightarrow> (id \<times> bool) set \<Rightarrow> db \<Rightarrow> bool" where
  "fan_rel i n U S d \<longleftrightarrow> par_inv d \<and> S \<subseteq> U \<and>
     (\<exists>p. get_par i d = Some p \<and> p_total p = n \<and> fan_abs p = fan_in n S) \<and>
     (\<forall>a s. (a, s) \<in> U \<longrightarrow> (\<exists>x. get_attempt a d = Some x \<and> a_task x \<in> set (members i d) \<and>
        (a_counted x \<longleftrightarrow> (a, s) \<in> S)))"

lemma card_split:
  assumes "finite S" "inj_on fst S"
  shows "card S = tally True S + tally False S"
proof -
  have "finite {a. (a, b) \<in> S}" for b
    by (rule finite_subset [of _ "fst ` S"]) (force simp: assms(1))+
  moreover have "{a. (a, True) \<in> S} \<inter> {a. (a, False) \<in> S} = {}"
    using assms(2) by (force simp: inj_on_def)
  moreover have "x \<in> fst ` S \<longleftrightarrow> (x, True) \<in> S \<or> (x, False) \<in> S" for x
  proof -
    have "x \<in> fst ` S \<longleftrightarrow> (\<exists>b. (x, b) \<in> S)" by force
    then show ?thesis by (metis (full_types))
  qed
  then have "fst ` S = {a. (a, True) \<in> S} \<union> {a. (a, False) \<in> S}" by blast
  ultimately show ?thesis using card_image [OF assms(2)] by (simp add: card_Un_disjoint tally_def)
qed

lemma card_outcomes:
  assumes "finite S"
  shows "tally b (insert (a, s) S) = (if (a, s) \<notin> S \<and> b = s then Suc (tally b S) else tally b S)"
proof -
  have "finite {x. (x, b) \<in> S}" by (rule finite_subset [of _ "fst ` S"]) (force simp: assms)+
  moreover have "{x. (x, b) \<in> insert (a, s) S} = (if b = s then insert a {x. (x, b) \<in> S} else {x. (x, b) \<in> S})"
    by auto
  ultimately show ?thesis by (auto simp: insert_absorb tally_def)
qed

lemma tally_empty [simp]: "tally b {} = 0"
  by (simp add: tally_def)

lemma tally_pos: "finite S \<Longrightarrow> 0 < tally b S \<longleftrightarrow> (\<exists>a. (a, b) \<in> S)"
  unfolding tally_def by (subst card_gt_0_iff) (force intro: finite_subset [of _ "fst ` S"])

lemma get_attempt_counted:
  "get_attempt b (counted_db now i a s d) =
     map_option (\<lambda>x. if a_id x = a then x\<lparr>a_counted := True\<rparr> else x) (get_attempt b d)"
  by (simp add: get_attempt_def counted_db_def get_by_upd_where)

lemma get_par_counted:
  "get_par i (counted_db now i a s d) = map_option (count_member now s) (get_par i d)"
proof -
  have "get_par i (counted_db now i a s d) =
      map_option (\<lambda>x. if p_id x = i then count_member now s x else x) (get_par i d)"
    by (simp add: get_par_def counted_db_def count_member_def get_by_upd_where)
  then show ?thesis by (cases "get_par i d") (auto simp: get_par_def dest: get_by_SomeD)
qed

lemma count_fan_in:
  assumes "finite S" "inj_on fst (insert (a, s) S)" "(a, s) \<notin> S" "p_total p = n"
    and "fan_abs p = fan_in n S" "card S < n"
  shows "p_success p + p_failure p = card S"
    "card S + 1 < n \<Longrightarrow> fan_abs (count_member now s p) = fan_in n (insert (a, s) S)"
    "card S + 1 = n \<Longrightarrow> fan_abs (settled_par now (final_status (count_member now s p)) (count_member now s p)) =
       fan_in n (insert (a, s) S)"
proof -
  have inj: "inj_on fst S" using assms(2) by (rule inj_on_subset) auto
  show sum: "p_success p + p_failure p = card S"
    using assms(5) card_split [OF assms(1) inj] by (simp add: fan_abs_def fan_in_def)
  have crd: "card (insert (a, s) S) = card S + 1" using assms(1,3) by simp
  show "fan_abs (count_member now s p) = fan_in n (insert (a, s) S)" if "card S + 1 < n"
    using assms(3,5,6) that crd card_outcomes [OF assms(1)]
    by (cases s) (simp_all add: fan_abs_def fan_in_def count_member_def)
  have "p_failure (count_member now s p) = tally False (insert (a, s) S)"
    "p_success (count_member now s p) = tally True (insert (a, s) S)"
    using assms(3,5) card_outcomes [OF assms(1)]
    by (cases s; simp add: fan_abs_def fan_in_def count_member_def)+
  then show "fan_abs (settled_par now (final_status (count_member now s p)) (count_member now s p)) =
      fan_in n (insert (a, s) S)" if "card S + 1 = n"
    using crd that tally_pos [of "insert (a, s) S" False] assms(1) by (auto simp: fan_abs_def fan_in_def final_status_def settled_par_def)
qed

lemma fan_rel_step:
  assumes rel: "fan_rel i n U S d" and c: "(a, s) \<in> U" and U: "finite U" "inj_on fst U" "card U \<le> n"
    and inc: "atomic_increment now i a s d = Inr (out, q, d')"
  shows "fan_rel i n U (insert (a, s) S) d'"
proof -
  have inv: "par_inv d" and sub: "S \<subseteq> U" and ids: "ids_ok d" using rel by (auto simp: fan_rel_def par_inv_def)
  obtain p where p: "get_par i d = Some p" "p_total p = n" "fan_abs p = fan_in n S"
    using rel by (auto simp: fan_rel_def)
  obtain x where x: "get_attempt a d = Some x" "a_task x \<in> set (members i d)" "a_counted x \<longleftrightarrow> (a, s) \<in> S"
    using rel c unfolding fan_rel_def by blast
  have inv': "par_inv d'" by (rule increment_inv [OF inv inc]) (use x in auto)
  have fin: "finite S" "finite (insert (a, s) S)" using U sub by (auto intro: finite_subset)
  have inj: "inj_on fst (insert (a, s) S)" using U(2) by (rule inj_on_subset) (use c sub in auto)
  have live: "p_status p \<noteq> WCancelled" using p(3) by (auto simp: fan_abs_def fan_in_def split: if_splits)
  have ok: "par_ok p d"
    using inv p(1) get_by_SomeD [of p_id i "d_pars d" p] by (auto simp: par_inv_def get_par_def)
  show ?thesis
  proof (cases "(a, s) \<in> S")
    case True
    then have "d' = d" using inc p(1) x live by (simp add: atomic_increment_def)
    with True show ?thesis using rel by (simp add: insert_absorb)
  next
    case new: False
    have "card (insert (a, s) S) \<le> n" using card_mono [of U "insert (a, s) S"] U c sub by simp
    then have room: "card S + 1 \<le> n" using new fin by simp
    note cf = count_fan_in [OF fin(1) inj new p(2,3)]
    have sum: "p_completed p = card S" using cf(1) room ok by (simp add: par_ok_def)
    have run: "p_status p = WRunning" "p_settled_at p = None"
      using p(3) room ok by (auto simp: fan_abs_def fan_in_def par_ok_def terminal_wf_def)
    define e where "e = counted_db now i a s d"
    have atts: "\<exists>y. get_attempt b e = Some y \<and> a_task y \<in> set (members i d) \<and> (a_counted y \<longleftrightarrow> (b, t) \<in> insert (a, s) S)"
      if bt: "(b, t) \<in> U" for b t
    proof -
      obtain y where y: "get_attempt b d = Some y" "a_task y \<in> set (members i d)" "a_counted y \<longleftrightarrow> (b, t) \<in> S"
        using rel bt unfolding fan_rel_def by blast
      moreover have "a_id y = b" using get_by_SomeD y(1) by (fastforce simp: get_attempt_def)
      moreover have "b = a \<longleftrightarrow> (b, t) = (a, s)" using inj_onD [OF U(2), of "(b, t)" "(a, s)"] c bt by auto
      ultimately show ?thesis by (auto simp: e_def get_attempt_counted)
    qed
    show ?thesis
    proof (rule atomic_increment_cases [OF inc ids])
      assume "\<exists>p. get_par i d = Some p \<and> (p_status p = WCancelled \<or> (\<exists>x. get_attempt a d = Some x \<and> a_counted x))"
      then show ?thesis using p(1) x live new by auto
    next
      fix p' x' assume h: "get_par i d = Some p'" "d' = counted_db now i a s d"
        "out = Partial \<and> q = count_member now s p' \<and> p_completed p' + 1 < p_total p' \<or>
         out = Noop \<and> p_total p' \<le> p_completed p' + 1 \<and> (p_settled_at p' \<noteq> None \<or> terminal_wf (p_status p'))"
      then have lt: "card S + 1 < n" using p run sum by (auto simp: terminal_wf_def)
      have "get_par i d' = Some (count_member now s p)" using p(1) by (simp add: h(2) get_par_counted)
      moreover have "p_total (count_member now s p) = n" using p(2) by (simp add: count_member_def)
      moreover have "members i d' = members i d" by (simp add: h(2) counted_db_def members_def member_view_def)
      ultimately show ?thesis using inv' sub c cf(2) [of now] lt atts
        by (auto simp: fan_rel_def h(2) e_def)
    next
      fix p' x' assume h: "get_par i d = Some p'" "p_total p' \<le> p_completed p' + 1"
        "d' = emit (WorkflowSettled (p_type p') i (final_status (count_member now s p')))
         (upd_pars (\<lambda>y. p_id y = i) (settled_par now (final_status (count_member now s p')))
           (counted_db now i a s d))"
      have p': "p' = p" using h(1) p(1) by simp
      let ?f = "final_status (count_member now s p)"
      have eq: "card S + 1 = n" using h(2) p(2) room sum by (simp add: p')
      have "p_id p = i" using get_by_SomeD [OF p(1) [unfolded get_par_def]] by simp
      then have "get_par i d' = Some (settled_par now ?f (count_member now s p))"
        using p(1) get_par_counted [of i now a s d]
          get_by_upd_where [of "\<lambda>y. p_id y = i" p_id "settled_par now ?f" i "d_pars (counted_db now i a s d)"]
        by (simp add: h(3) p' get_par_def settled_par_def count_member_def)
      moreover have "p_total (settled_par now ?f (count_member now s p)) = n"
        using p(2) by (simp add: count_member_def settled_par_def)
      moreover have "members i d' = members i d" "get_attempt b d' = get_attempt b e" for b
        by (simp_all add: h(3) e_def counted_db_def members_def member_view_def get_attempt_def)
      ultimately show ?thesis using inv' sub c cf(3) [of now] eq atts
        by (auto simp: fan_rel_def)
    qed
  qed
qed

lemma fan_rel_total:
  assumes "fan_rel i n U S d" "(a, s) \<in> U"
  shows "\<exists>out q d'. atomic_increment now i a s d = Inr (out, q, d')"
proof -
  obtain p x where "get_par i d = Some p" "get_attempt a d = Some x"
    using assms unfolding fan_rel_def by blast
  then show ?thesis by (simp add: atomic_increment_def Let_def split: prod.splits option.splits)
qed

lemma count_all_fan_in:
  assumes "fan_rel i n U S d" "set cs \<subseteq> U" "finite U" "inj_on fst U" "card U \<le> n"
  shows "\<exists>d'. count_all now i cs d = Inr d' \<and> fan_rel i n U (S \<union> set cs) d'"
  using assms(1,2)
proof (induction cs arbitrary: S d)
  case (Cons c cs)
  obtain a s where c: "c = (a, s)" by (cases c)
  with Cons.prems have "(a, s) \<in> U" by simp
  moreover from fan_rel_total [OF Cons.prems(1) this] obtain out q e
    where e: "atomic_increment now i a s d = Inr (out, q, e)" by blast
  ultimately have "fan_rel i n U (insert (a, s) S) e"
    using fan_rel_step [OF Cons.prems(1) _ assms(3-5)] by blast
  from Cons.IH [OF this] Cons.prems(2) show ?case by (simp add: c e)
qed simp

text \<open>
  C13: a fan-out refines its abstract fan-in. Handed the outcomes of its members in any order and
  with any number of redeliveries, a fresh running iter or batch ends with exactly the successes
  and failures of the set of outcomes; it is still running while a member is missing, else it
  succeeded, or failed if any member failed.
\<close>

theorem fan_in_refines:
  assumes "par_inv d" "get_par i d = Some p" "p_status p = WRunning" "p_completed p = 0"
    and "\<And>a s. (a, s) \<in> set cs \<Longrightarrow>
      \<exists>x. get_attempt a d = Some x \<and> \<not> a_counted x \<and> a_task x \<in> set (members i d)"
    and "inj_on fst (set cs)" "card (set cs) \<le> p_total p"
  shows "\<exists>d' q. count_all now i cs d = Inr d' \<and> get_par i d' = Some q \<and>
    fan_abs q = fan_in (p_total p) (set cs)"
proof -
  have "par_ok p d" using assms(1,2) get_by_SomeD [of p_id i "d_pars d" p] by (auto simp: par_inv_def get_par_def)
  then have "fan_abs p = fan_in (p_total p) {}"
    using assms(3,4) by (auto simp: fan_abs_def fan_in_def par_ok_def)
  then have "fan_rel i (p_total p) (set cs) {} d"
    using assms(1,2,5) by (auto simp: fan_rel_def)
  from count_all_fan_in [OF this _ _ assms(6,7), of cs now] show ?thesis
    by (auto simp: fan_rel_def)
qed

text \<open>The second member fails first, the first succeeds, both are delivered again.\<close>

theorem fan_in_refines_witness:
  "\<exists>d' q. count_all 9 100 [(104, False), (102, True), (104, False), (102, True)] batch_db1 = Inr d' \<and>
     get_par 100 d' = Some q \<and> fan_abs q = fan_in 2 {(104, False), (102, True)}"
proof -
  define p where "p = hd (d_pars batch_db1)"
  have p: "get_par 100 batch_db1 = Some p" "p_status p = WRunning" "p_completed p = 0" "p_total p = 2"
    unfolding p_def by code_simp+
  have ok: "(case get_attempt a batch_db1 of Some x \<Rightarrow> \<not> a_counted x \<and> a_task x \<in> set (members 100 batch_db1)
      | None \<Rightarrow> False)" if "a = 102 \<or> a = 104" for a
    using that by (elim disjE) (hypsubst, code_simp)+
  let ?cs = "[(104, False), (102, True), (104, False), (102, True)] :: (id \<times> bool) list"
  have mem: "\<exists>x. get_attempt a batch_db1 = Some x \<and> \<not> a_counted x \<and> a_task x \<in> set (members 100 batch_db1)"
    if "(a, s) \<in> set ?cs" for a s
    using ok [of a] that by (auto split: option.splits)
  have cs: "set ?cs = {(104, False), (102, True)}" by auto
  have "inj_on fst (set ?cs)" "card (set ?cs) \<le> p_total p" unfolding cs by (simp_all add: p(4))
  from fan_in_refines [OF reachable_par_inv [OF batch_runs(1)] p(1-3) mem this, where now = 9] show ?thesis
    unfolding p(4) cs .
qed

end
