(* ===== verification/Qraft_ChainRun.thy ===== *)
theory Qraft_ChainRun
  imports Qraft_FanIn
begin

text \<open>
  Chains: every run of their operations, interleaved with any other work on the same database,
  queues the steps in order, each only after every earlier one has succeeded, and a chain that
  succeeded has run all of them. Duplicate and superseded completions change nothing.
\<close>

section \<open>The invariant\<close>

text \<open>The task a step is bound to has an attempt that succeeded.\<close>

definition task_done :: "id \<Rightarrow> db \<Rightarrow> bool" where
  "task_done t d \<longleftrightarrow> (\<exists>a \<in> set (d_attempts d). a_task a = t \<and> a_success a = Some True)"

definition step_done :: "step_row \<Rightarrow> db \<Rightarrow> bool" where
  "step_done s d \<longleftrightarrow> (\<exists>t. s_task s = Some t \<and> task_done t d)"

definition chain_ok :: "chain_row \<Rightarrow> step_row list \<Rightarrow> db \<Rightarrow> bool" where
  "chain_ok c ss d \<longleftrightarrow>
     (\<forall>s \<in> set ss. s_chain s = c_id c \<longrightarrow>
        (c_index c < s_index s \<longrightarrow> s_task s = None) \<and>
        (s_index s < c_index c \<longrightarrow> step_done s d) \<and>
        (c_status c = WSucceeded \<longrightarrow> step_done s d)) \<and>
     ((\<forall>s \<in> set ss. s_chain s \<noteq> c_id c) \<longrightarrow> c_index c = 0 \<and> c_status c \<noteq> WSucceeded)"

definition steps_ok :: "step_row list \<Rightarrow> bool" where
  "steps_ok ss \<longleftrightarrow> distinct (map s_id ss) \<and> distinct (map (\<lambda>s. (s_chain s, s_index s)) ss) \<and>
     (\<forall>s \<in> set ss. \<forall>k < s_index s. \<exists>s' \<in> set ss. s_chain s' = s_chain s \<and> s_index s' = k)"

definition chain_inv :: "db \<Rightarrow> bool" where
  "chain_inv d \<longleftrightarrow> distinct (map c_id (d_chains d)) \<and> steps_ok (d_steps d) \<and>
     (\<forall>c \<in> set (d_chains d). c_id c < d_next d \<and> chain_ok c (d_steps d) d) \<and>
     (\<forall>s \<in> set (d_steps d). s_id s < d_next d \<and> s_chain s < d_next d)"

definition keeps_done :: "db \<Rightarrow> db \<Rightarrow> bool" where
  "keeps_done d d' \<longleftrightarrow> d_next d \<le> d_next d' \<and> (\<forall>t. task_done t d \<longrightarrow> task_done t d')"

text \<open>Work of the other components, as far as chains can tell.\<close>

definition other_chain_work :: "db \<Rightarrow> db \<Rightarrow> bool" where
  "other_chain_work d d' \<longleftrightarrow> d_chains d' = d_chains d \<and> d_steps d' = d_steps d \<and> keeps_done d d'"

lemma keeps_done_refl [simp]: "keeps_done d d"
  by (simp add: keeps_done_def)

lemma keeps_doneI: "d_next d \<le> d_next d' \<Longrightarrow> d_attempts d' = d_attempts d \<Longrightarrow> keeps_done d d'"
  by (simp add: keeps_done_def task_done_def)

lemma keeps_done_trans: "keeps_done d e \<Longrightarrow> keeps_done e f \<Longrightarrow> keeps_done d f"
  by (auto simp: keeps_done_def)

lemma rebind_same [simp]: "\<exists>t. s = s\<lparr>s_task := t\<rparr>" for s :: step_row
  by (rule exI [of _ "s_task s"]) simp

lemma step_done_mono: "keeps_done d d' \<Longrightarrow> step_done s d \<Longrightarrow> step_done s d'"
  by (auto simp: keeps_done_def step_done_def)

lemma chain_ok_mono: "keeps_done d d' \<Longrightarrow> chain_ok c ss d \<Longrightarrow> chain_ok c ss d'"
  by (auto simp: chain_ok_def dest: step_done_mono)

text \<open>An operation on one chain: it rewrites the row and rebinds steps of that chain.\<close>

lemma chain_inv_update:
  assumes inv: "chain_inv d" and kd: "keeps_done d d'"
    and chains: "d_chains d' = upd_where (\<lambda>c. c_id c = i) F (d_chains d)" "\<And>c. c_id (F c) = c_id c"
    and steps: "d_steps d' = map G (d_steps d)" "\<And>s. \<exists>t. G s = s\<lparr>s_task := t\<rparr>"
      "\<And>s. s \<in> set (d_steps d) \<Longrightarrow> s_chain s \<noteq> i \<Longrightarrow> G s = s"
    and ok: "\<And>c. get_chain i d = Some c \<Longrightarrow> chain_ok (F c) (d_steps d') d'"
  shows "chain_inv d'"
proof -
  have G: "s_id (G s) = s_id s" "s_chain (G s) = s_chain s" "s_index (G s) = s_index s" for s
    using steps(2) [of s] by auto
  have "map s_id (d_steps d') = map s_id (d_steps d)"
    "map (\<lambda>s. (s_chain s, s_index s)) (d_steps d') = map (\<lambda>s. (s_chain s, s_index s)) (d_steps d)"
    by (simp_all add: steps(1) G)
  then have sok: "steps_ok (d_steps d')" using inv
    by (auto simp: chain_inv_def steps_ok_def steps(1) G comp_def)
  have dst: "distinct (map c_id (d_chains d))" using inv by (simp add: chain_inv_def)
  have "chain_ok c (d_steps d') d'" if "c \<in> set (d_chains d')" for c
  proof -
    from that obtain b where b: "b \<in> set (d_chains d)" "c = (if c_id b = i then F b else b)"
      by (auto simp: chains(1) set_upd_where)
    show ?thesis
    proof (cases "c_id b = i")
      case True
      then show ?thesis using ok [of b] b get_by_distinct [OF dst b(1)] by (simp add: get_chain_def)
    next
      case False
      have "chain_ok b (d_steps d) d'" using inv b(1) chain_ok_mono [OF kd] by (auto simp: chain_inv_def)
      moreover have "G s = s" if "s \<in> set (d_steps d)" "s_chain s = c_id b" for s
        using steps(3) that False by auto
      ultimately have "chain_ok b (d_steps d') d'"
        by (auto simp: chain_ok_def steps(1) G)
      then show ?thesis using b(2) False by simp
    qed
  qed
  moreover have "map c_id (d_chains d') = map c_id (d_chains d)" by (simp add: chains map_upd_where)
  ultimately show ?thesis using inv sok kd
    by (auto simp: chain_inv_def chains set_upd_where steps(1) G keeps_done_def)
qed

lemma other_chain_work_inv: "chain_inv d \<Longrightarrow> other_chain_work d d' \<Longrightarrow> chain_inv d'"
  by (auto simp: chain_inv_def other_chain_work_def keeps_done_def intro: chain_ok_mono [unfolded keeps_done_def]
      order_less_le_trans)

section \<open>What the operations do\<close>

lemma queue_chain_step_Inr:
  assumes "queue_chain_step w now trace c s d = Inr d'"
  shows "d_chains d' = d_chains d" "keeps_done d d'"
    "d_steps d' = map (\<lambda>x. if s_id x = s_id s then x\<lparr>s_task := Some (d_next d)\<rparr> else x) (d_steps d)"
proof -
  obtain i q e where e: "create_workflow_task w now trace (s_func s) (s_args s) (s_kwargs s) (s_options s) None
      (chain_labels c) d = Inr (i, q, e)"
    and d': "d' = upd_steps (\<lambda>x. s_id x = s_id s) (\<lambda>x. x\<lparr>s_task := Some i\<rparr>) e"
    using assms by (auto simp: queue_chain_step_def elim!: rbindE)
  from e obtain t m where c: "create_and_enqueue w now trace t m d = Inr (i, q, e)"
    unfolding create_workflow_task_def Let_def by (elim rbindE) (auto split: prod.splits)
  obtain t' a where "i = d_next d" "a_success a = None" "e = d\<lparr>d_tasks := d_tasks d @ [t'],
      d_attempts := d_attempts d @ [a], d_queue := d_queue d @ [(q, m)], d_next := Suc (Suc (d_next d))\<rparr>"
    by (rule create_and_enqueue_Inr [OF c])
  then show "d_chains d' = d_chains d" "keeps_done d d'"
    "d_steps d' = map (\<lambda>x. if s_id x = s_id s then x\<lparr>s_task := Some (d_next d)\<rparr> else x) (d_steps d)"
    by (auto simp: d' keeps_done_def task_done_def upd_where_def)
qed

definition settled_chain :: "time \<Rightarrow> wf_status \<Rightarrow> chain_row \<Rightarrow> chain_row" where
  "settled_chain now s c = c\<lparr>c_status := s, c_settled_at := Some now, c_updated := now\<rparr>"

lemma settle_chain_cases:
  assumes "settle_chain now i s d = (x, d')" "get_chain i d = Some c" "distinct (map c_id (d_chains d))"
  shows "(x = None \<and> d' = d \<and> (c_settled_at c \<noteq> None \<or> terminal_wf (c_status c))) \<or>
    (c_settled_at c = None \<and> \<not> terminal_wf (c_status c) \<and> x = Some (settled_chain now s c) \<and>
     d' = emit (WorkflowSettled ChainWf i s) (upd_chain i (settled_chain now s) d))"
proof -
  have c: "c \<in> set (d_chains d)" "c_id c = i"
    using get_by_SomeD [OF assms(2) [unfolded get_chain_def]] by auto
  have only: "y = c" if "y \<in> set (d_chains d)" "c_id y = i" for y
    using key_inj [OF assms(3) that(1) c(1)] that(2) c(2) by simp
  define P where "P = (\<lambda>y :: chain_row. c_id y = i \<and> c_settled_at y = None \<and> \<not> terminal_wf (c_status y))"
  have f: "(\<lambda>y :: chain_row. y\<lparr>c_status := s, c_settled_at := Some now, c_updated := now\<rparr>) = settled_chain now s"
    by (simp add: settled_chain_def fun_eq_iff)
  have run: "(if hits P (d_chains d) = 0 then (None, d)
      else (get_chain i (upd_chains P (settled_chain now s) d),
            emit (WorkflowSettled ChainWf i s) (upd_chains P (settled_chain now s) d))) = (x, d')"
    using assms(1) unfolding settle_chain_def P_def Let_def f .
  show ?thesis
  proof (cases "P c")
    case True
    then have "hits P (d_chains d) \<noteq> 0" using c(1) by (auto simp: hits_0 exists_where_iff)
    moreover have "P y = (c_id y = i)" if "y \<in> set (d_chains d)" for y
      using only [OF that] True c(2) by (auto simp: P_def)
    then have "upd_chains P (settled_chain now s) d = upd_chain i (settled_chain now s) d"
      by (simp add: upd_chain_def upd_chains_def cong: upd_where_cong)
    moreover have "get_chain i (upd_chain i (settled_chain now s) d) = Some (settled_chain now s c)"
      using assms(2) c(2) get_by_upd_where [of "\<lambda>y. c_id y = i" c_id "settled_chain now s" i "d_chains d"]
      by (simp add: get_chain_def settled_chain_def upd_chain_def)
    ultimately show ?thesis using run True by (auto simp: P_def)
  next
    case False
    then have "hits P (d_chains d) = 0" using only by (auto simp: hits_0 exists_where_iff P_def)
    then show ?thesis using run False c(2) by (auto simp: P_def)
  qed
qed

lemma upd_chain_frame [simp]:
  "d_chains (upd_chain i F d) = upd_where (\<lambda>c. c_id c = i) F (d_chains d)"
  "d_steps (upd_chain i F d) = d_steps d" "d_attempts (upd_chain i F d) = d_attempts d"
  "d_next (upd_chain i F d) = d_next d" "d_tasks (upd_chain i F d) = d_tasks d"
  by (simp_all add: upd_chain_def)

lemma dispatch_chain_hook_frame [simp]:
  "d_chains (dispatch_chain_hook w now c b d) = d_chains d"
  "d_steps (dispatch_chain_hook w now c b d) = d_steps d"
  "d_attempts (dispatch_chain_hook w now c b d) = d_attempts d"
  "d_next (dispatch_chain_hook w now c b d) = d_next d"
  by (simp_all add: dispatch_chain_hook_def Let_def split: option.splits)

lemma announce_chain_frame [simp]:
  "d_chains (announce_chain_cancelled w now c d) = d_chains d"
  "d_steps (announce_chain_cancelled w now c d) = d_steps d"
  "d_attempts (announce_chain_cancelled w now c d) = d_attempts d"
  "d_next (announce_chain_cancelled w now c d) = d_next d"
  by (simp_all add: announce_chain_cancelled_def Let_def split: option.splits)

text \<open>An operation that writes the status of a chain and nothing else of it.\<close>

lemma chain_inv_status:
  assumes "chain_inv d" "d_steps d' = d_steps d" "d_attempts d' = d_attempts d" "d_next d' = d_next d"
    and "d_chains d' = upd_where (\<lambda>c. c_id c = i) F (d_chains d)"
    and "\<And>c. c_id (F c) = c_id c" "\<And>c. c_index (F c) = c_index c"
    and "\<And>c. get_chain i d = Some c \<Longrightarrow> c_status (F c) = WSucceeded \<Longrightarrow>
      c_status c = WSucceeded \<or>
      (\<exists>s \<in> set (d_steps d). s_chain s = i) \<and> (\<forall>s \<in> set (d_steps d). s_chain s = i \<longrightarrow> step_done s d)"
  shows "chain_inv d'"
proof (rule chain_inv_update [OF assms(1), where G = "\<lambda>s. s"])
  show kd: "keeps_done d d'" using assms(3,4) by (simp add: keeps_done_def task_done_def)
  show "d_chains d' = upd_where (\<lambda>c. c_id c = i) F (d_chains d)" by (rule assms(5))
  show "\<exists>t. s = s\<lparr>s_task := t\<rparr>" for s :: step_row by (rule exI [of _ "s_task s"]) simp
  fix c assume c: "get_chain i d = Some c"
  then have "chain_ok c (d_steps d) d" "c_id c = i"
    using assms(1) get_by_SomeD [of c_id i "d_chains d" c] by (auto simp: chain_inv_def get_chain_def)
  then show "chain_ok (F c) (d_steps d') d'"
    using assms(6,7) assms(8) [OF c] step_done_mono [OF kd] by (auto simp: chain_ok_def assms(2))
qed (use assms in auto)

lemma chain_row:
  assumes "chain_inv d" "get_chain i d = Some c"
  shows "c \<in> set (d_chains d)" "c_id c = i" "chain_ok c (d_steps d) d"
  using assms get_by_SomeD [of c_id i "d_chains d" c] by (auto simp: chain_inv_def get_chain_def)

lemma step_unique:
  "steps_ok ss \<Longrightarrow> s \<in> set ss \<Longrightarrow> s' \<in> set ss \<Longrightarrow> s_chain s = s_chain s' \<Longrightarrow> s_index s = s_index s' \<Longrightarrow> s = s'"
  using key_inj [of "\<lambda>s. (s_chain s, s_index s)" ss s s'] by (simp add: steps_ok_def)

lemma step_at_Some:
  "step_at i k d = Some s \<Longrightarrow> s \<in> set (d_steps d) \<and> s_chain s = i \<and> s_index s = k"
  by (auto simp: step_at_def find_Some_iff)

lemma step_at_None: "step_at i k d = None \<longleftrightarrow> (\<forall>s \<in> set (d_steps d). s_chain s = i \<longrightarrow> s_index s \<noteq> k)"
  by (auto simp: step_at_def find_None_iff)

text \<open>The step whose task completed, as the dispatcher holds it.\<close>

definition completed_step :: "step_row \<Rightarrow> db \<Rightarrow> bool" where
  "completed_step s d \<longleftrightarrow> (\<exists>x \<in> set (d_steps d). s_id x = s_id s \<and> s_chain x = s_chain s \<and>
     s_index x = s_index s \<and> step_done x d)"

text \<open>Queueing a step at or past the position of its chain.\<close>

lemma queue_inv:
  assumes inv: "chain_inv d" and c: "get_chain i d = Some c"
    and n: "n \<in> set (d_steps d)" "s_chain n = i" "s_index n = c_index (F c)"
    and F: "\<And>c. c_id (F c) = c_id c" "c_status (F c) \<noteq> WSucceeded"
    and idx: "c_index (F c) = c_index c \<or>
      c_index (F c) = c_index c + 1 \<and> (\<forall>s \<in> set (d_steps d). s_chain s = i \<longrightarrow> s_index s = c_index c \<longrightarrow> step_done s d)"
    and d1: "d_chains d1 = upd_where (\<lambda>c. c_id c = i) F (d_chains d)" "keeps_done d d1"
      "d_steps d1 = map G (d_steps d)" "\<And>x. \<exists>t. G x = x\<lparr>s_task := t\<rparr>" "\<And>x. s_id x \<noteq> s_id n \<Longrightarrow> G x = x"
    and q: "queue_chain_step w now trace c' n' d1 = Inr d'" "s_id n' = s_id n"
  shows "chain_inv d'"
proof (rule chain_inv_update [OF inv, where F = F and i = i
      and G = "\<lambda>x. if s_id x = s_id n then x\<lparr>s_task := Some (d_next d1)\<rparr> else x"])
  note qq = queue_chain_step_Inr [OF q(1)]
  show kd: "keeps_done d d'" using keeps_done_trans [OF d1(2) qq(2)] .
  show "d_chains d' = upd_where (\<lambda>c. c_id c = i) F (d_chains d)" by (simp add: qq(1) d1(1))
  show steps: "d_steps d' = map (\<lambda>x. if s_id x = s_id n then x\<lparr>s_task := Some (d_next d1)\<rparr> else x) (d_steps d)"
  proof -
    have "(if s_id (G x) = s_id n then (G x)\<lparr>s_task := Some (d_next d1)\<rparr> else G x) =
        (if s_id x = s_id n then x\<lparr>s_task := Some (d_next d1)\<rparr> else x)" for x
      using d1(4) [of x] d1(5) [of x] by auto
    then show ?thesis by (simp add: qq(3) d1(3) q(2))
  qed
  show "\<exists>t. (if s_id x = s_id n then x\<lparr>s_task := Some (d_next d1)\<rparr> else x) = x\<lparr>s_task := t\<rparr>" for x :: step_row
    by (cases "s_id x = s_id n") (auto intro: exI [of _ "s_task x"])
  have sok: "steps_ok (d_steps d)" using inv by (simp add: chain_inv_def)
  have n_only: "x = n" if "x \<in> set (d_steps d)" "s_id x = s_id n" for x
    using key_inj [of s_id "d_steps d" x n] sok that n(1) by (simp add: steps_ok_def)
  show "(if s_id x = s_id n then x\<lparr>s_task := Some (d_next d1)\<rparr> else x) = x"
    if "x \<in> set (d_steps d)" "s_chain x \<noteq> i" for x
  proof -
    have "s_id x \<noteq> s_id n" using n_only [OF that(1)] n(2) that(2) by blast
    then show ?thesis by simp
  qed
  fix b assume "get_chain i d = Some b"
  then have b: "b = c" using c by simp
  note ok = chain_row [OF inv c]
  show "chain_ok (F b) (d_steps d') d'"
    unfolding chain_ok_def
  proof (intro conjI ballI impI)
    fix y assume "y \<in> set (d_steps d')" "s_chain y = c_id (F b)"
    then obtain x where x: "x \<in> set (d_steps d)" "s_chain x = i"
      "y = (if s_id x = s_id n then x\<lparr>s_task := Some (d_next d1)\<rparr> else x)"
      using F(1) ok(2) b by (auto simp: steps split: if_splits)
    have yi: "s_index y = s_index x" using x(3) by simp
    have same: "y = x" if "s_index x \<noteq> c_index (F c)"
    proof -
      have "s_id x \<noteq> s_id n" using n_only [OF x(1)] n(3) that by blast
      then show ?thesis using x(3) by simp
    qed
    show "s_task y = None" if "c_index (F b) < s_index y"
    proof -
      have "s_index x \<noteq> c_index (F c)" "c_index c < s_index x" using that yi idx b by auto
      then show ?thesis using same x(1,2) ok(2,3) by (auto simp: chain_ok_def)
    qed
    show "step_done y d'" if "s_index y < c_index (F b)"
    proof -
      have "s_index x \<noteq> c_index (F c)" "s_index x < c_index c \<or> s_index x = c_index c \<and> c_index (F c) = c_index c + 1"
        using that yi idx b by auto
      then have "y = x" "step_done x d" using same x(1,2) idx ok(2,3) by (auto simp: chain_ok_def)
      then show ?thesis using step_done_mono [OF kd] by simp
    qed
    show "step_done y d'" if "c_status (F b) = WSucceeded" using that F(2) b by simp
  next
    assume none: "\<forall>y \<in> set (d_steps d'). s_chain y \<noteq> c_id (F b)"
    have "(if s_id n = s_id n then n\<lparr>s_task := Some (d_next d1)\<rparr> else n) \<in> set (d_steps d')"
      unfolding steps set_map using n(1) by (rule imageI)
    then have False using none n(2) F(1) ok(2) b by auto
    then show "c_index (F b) = 0" "c_status (F b) \<noteq> WSucceeded" by auto
  qed
qed (rule F)

lemma last_step:
  assumes inv: "chain_inv d" and c: "get_chain i d = Some c" and s: "completed_step s d" "s_chain s = i"
    and at: "c_index c = s_index s" and last: "step_at i (s_index s + 1) d = None"
  shows "\<exists>x \<in> set (d_steps d). s_chain x = i" "\<forall>x \<in> set (d_steps d). s_chain x = i \<longrightarrow> step_done x d"
proof -
  have sok: "steps_ok (d_steps d)" using inv by (simp add: chain_inv_def)
  obtain x where x: "x \<in> set (d_steps d)" "s_chain x = i" "s_index x = s_index s" "step_done x d"
    using s by (auto simp: completed_step_def)
  then show "\<exists>x \<in> set (d_steps d). s_chain x = i" by blast
  show "\<forall>x \<in> set (d_steps d). s_chain x = i \<longrightarrow> step_done x d"
  proof (intro ballI impI)
    fix y assume y: "y \<in> set (d_steps d)" "s_chain y = i"
    have "s_index y \<le> s_index s"
    proof (rule ccontr)
      assume "\<not> s_index y \<le> s_index s"
      then have "s_index s + 1 = s_index y \<or> s_index s + 1 < s_index y" by auto
      moreover have "\<forall>k < s_index y. \<exists>z \<in> set (d_steps d). s_chain z = i \<and> s_index z = k"
        using y sok by (auto simp: steps_ok_def)
      ultimately have "\<exists>z \<in> set (d_steps d). s_chain z = i \<and> s_index z = s_index s + 1"
        using y by metis
      then show False using last by (auto simp: step_at_None)
    qed
    then consider "s_index y < c_index c" | "s_index y = s_index x" using at x(3) by linarith
    then show "step_done y d"
    proof cases
      case 1
      then show ?thesis using chain_row [OF inv c] y by (auto simp: chain_ok_def)
    next
      case 2
      then have "y = x" using step_unique [OF sok y(1) x(1)] y x by simp
      then show ?thesis using x(4) by simp
    qed
  qed
qed

lemma advance_ok:
  assumes "chain_ok c ss d" "c_id b = c_id c" "c_index b = c_index c + 1" "c_status b \<noteq> WSucceeded"
    and "\<And>x. x \<in> set ss \<Longrightarrow> s_chain x = c_id c \<Longrightarrow> s_index x = c_index c \<Longrightarrow> step_done x d"
    and "\<exists>x \<in> set ss. s_chain x = c_id c"
  shows "chain_ok b ss d"
  using assms by (auto simp: chain_ok_def less_Suc_eq)

text \<open>The ways a success report goes.\<close>

lemma chain_step_success_cases:
  assumes run: "chain_step_success w now trace s d = Inr d'" and c: "get_chain (s_chain s) d = Some c"
  obtains "d' = d" "c_status c = WCancelled \<or> c_index c \<noteq> s_index s"
    | "c_index c = s_index s" "step_at (c_id c) (s_index s + 1) d = None"
      "(case settle_chain now (c_id c) WSucceeded d of (None, d) \<Rightarrow> Inr d
        | (Some c, d) \<Rightarrow> Inr (dispatch_chain_hook w now c True d)) = (Inr d' :: db res)"
    | n where "c_index c = s_index s" "step_at (c_id c) (s_index s + 1) d = Some n" "s_gate n"
      "d' = upd_chain (c_id c) (\<lambda>x. x\<lparr>c_index := s_index n, c_status := WWaiting, c_updated := now\<rparr>) d"
    | n where "c_index c = s_index s" "step_at (c_id c) (s_index s + 1) d = Some n" "\<not> s_gate n"
      "queue_chain_step w now trace c n (upd_chain (c_id c) (\<lambda>x. x\<lparr>c_index := s_index n, c_updated := now\<rparr>) d) = Inr d'"
proof (cases "c_status c = WCancelled \<or> c_index c \<noteq> s_index s")
  case True
  then show thesis using run c that(1) by (auto simp: chain_step_success_def split: if_splits)
next
  case at: False
  show thesis
  proof (cases "step_at (c_id c) (s_index s + 1) d")
    case None
    then show thesis using run c at that(2) by (simp add: chain_step_success_def)
  next
    case (Some n)
    then show thesis using run c at that(3,4) [of n]
      by (cases "s_gate n") (auto simp: chain_step_success_def transition_to_def elim!: rbindE split: if_splits)
  qed
qed

lemma chain_step_success_inv:
  assumes inv: "chain_inv d" and s: "completed_step s d"
    and run: "chain_step_success w now trace s d = Inr d'"
  shows "chain_inv d'"
proof -
  obtain c where c: "get_chain (s_chain s) d = Some c"
    using run by (cases "get_chain (s_chain s) d") (simp_all add: chain_step_success_def)
  note row = chain_row [OF inv c]
  have done_at: "step_done x d" if "c_index c = s_index s" "x \<in> set (d_steps d)" "s_chain x = s_chain s" "s_index x = c_index c" for x
  proof -
    obtain y where y: "y \<in> set (d_steps d)" "s_chain y = s_chain s" "s_index y = s_index s" "step_done y d"
      using s by (auto simp: completed_step_def)
    have "steps_ok (d_steps d)" using inv by (simp add: chain_inv_def)
    from step_unique [OF this that(2) y(1)] have "x = y" using that y by simp
    then show ?thesis using y(4) by simp
  qed
  from run c show ?thesis
  proof (cases rule: chain_step_success_cases)
    case 1 then show ?thesis using inv by simp
  next
    case 2
    note ls = last_step [OF inv c s refl 2(1) 2(2) [unfolded row(2)]]
    obtain x e where x: "settle_chain now (s_chain s) WSucceeded d = (x, e)" by fastforce
    have "distinct (map c_id (d_chains d))" using inv by (simp add: chain_inv_def)
    from settle_chain_cases [OF x c this] 2(3) show ?thesis
      using chain_inv_status [OF inv, of d' "s_chain s" "settled_chain now WSucceeded"] ls inv
      by (auto simp: row(2) x settled_chain_def)
  next
    case (3 n)
    note n = step_at_Some [OF 3(2)]
    show ?thesis
    proof (rule chain_inv_update [OF inv, where F = "\<lambda>x. x\<lparr>c_index := s_index n, c_status := WWaiting, c_updated := now\<rparr>"
          and i = "s_chain s" and G = "\<lambda>x. x"])
      show "keeps_done d d'" by (rule keeps_doneI) (simp_all add: 3(4))
      show "\<exists>t. x = x\<lparr>s_task := t\<rparr>" for x :: step_row by (rule exI [of _ "s_task x"]) simp
      fix b assume "get_chain (s_chain s) d = Some b"
      then have "chain_ok (b\<lparr>c_index := s_index n, c_status := WWaiting, c_updated := now\<rparr>) (d_steps d) d"
        using c n row 3(1) done_at [OF 3(1)] by (intro advance_ok [OF row(3)]) auto
      then show "chain_ok (b\<lparr>c_index := s_index n, c_status := WWaiting, c_updated := now\<rparr>) (d_steps d') d'"
        by (simp add: 3(4) chain_ok_def step_done_def task_done_def)
    qed (simp_all add: 3(4) row(2))
  next
    case (4 n)
    note n = step_at_Some [OF 4(2)]
    let ?F = "\<lambda>x :: chain_row. x\<lparr>c_index := s_index n, c_updated := now\<rparr>"
    have live: "c_status c \<noteq> WSucceeded"
    proof
      assume "c_status c = WSucceeded"
      then show False using row n 4(1) by (auto simp: chain_ok_def step_done_def)
    qed
    show ?thesis
      by (rule queue_inv [OF inv c _ _ _ _ _ _ _ _ _ _ _ 4(4) refl, where F = ?F and G = "\<lambda>x. x"])
        (use n row(2) live 4(1) done_at [OF 4(1)] in \<open>auto intro: keeps_doneI\<close>)
  qed
qed

lemma complete_chain_inv:
  assumes inv: "chain_inv d" and run: "complete_chain w now i False d = Inr d'"
  shows "chain_inv d'"
proof -
  obtain c where c: "get_chain i d = Some c"
    using run by (cases "get_chain i d") (simp_all add: complete_chain_def)
  obtain x e where x: "settle_chain now i WFailed d = (x, e)" by fastforce
  have "distinct (map c_id (d_chains d))" using inv by (simp add: chain_inv_def)
  from settle_chain_cases [OF x c this] run show ?thesis
    using chain_inv_status [OF inv, of d' i "settled_chain now WFailed"] inv c
    by (auto simp: complete_chain_def x settled_chain_def split: if_splits)
qed

text \<open>A completion: the attempt that succeeded is on record, or the task is dead.\<close>

lemma handle_chain_step_inv:
  assumes "chain_inv d" "a_success a = Some True \<Longrightarrow> completed_step s d"
    and "handle_chain_step w now trace s a d = Inr d'"
  shows "chain_inv d'"
proof -
  have "d' = d \<or> (a_success a = Some True \<and> chain_step_success w now trace s d = Inr d') \<or>
      complete_chain w now (s_chain s) False d = Inr d'"
    using assms(3) by (auto simp: handle_chain_step_def split: option.splits if_splits elim!: rbindE)
  then show ?thesis
    using assms(1,2) chain_step_success_inv complete_chain_inv by blast
qed

lemma reopen_status: "transition_to s WRunning = Inr st \<Longrightarrow> s \<noteq> WSucceeded \<and> st = WRunning"
  by (cases s) (auto simp: transition_to_def)

lemma approve_chain_inv:
  assumes inv: "chain_inv d" and run: "approve_chain w now trace i d = Inr d'"
  shows "chain_inv d'"
proof -
  let ?F = "\<lambda>x :: chain_row. x\<lparr>c_status := WRunning, c_updated := now\<rparr>"
  obtain c st s where c: "get_chain i d = Some c" "transition_to (c_status c) WRunning = Inr st"
    "step_at i (c_index c) (upd_chain i (\<lambda>x. x\<lparr>c_status := st, c_updated := now\<rparr>) d) = Some s"
    "queue_chain_step w now trace c s (upd_chain i (\<lambda>x. x\<lparr>c_status := st, c_updated := now\<rparr>) d) = Inr d'"
    using run by (auto simp: approve_chain_def Let_def split: option.splits elim!: rbindE)
  have st: "st = WRunning" using reopen_status [OF c(2)] by simp
  have s: "s \<in> set (d_steps d)" "s_chain s = i" "s_index s = c_index c"
    using step_at_Some [OF c(3)] by simp_all
  show ?thesis
    by (rule queue_inv [OF inv c(1) s(1,2) _ _ _ _ _ _ _ _ _ c(4) refl, where F = ?F and G = "\<lambda>x. x"])
      (use s(3) st in \<open>auto intro: keeps_doneI\<close>)
qed

lemma resume_chain_inv:
  assumes inv: "chain_inv d" and run: "resume_chain w now trace i snap d = Inr d'"
  shows "chain_inv d'"
proof -
  let ?F = "\<lambda>x :: chain_row. x\<lparr>c_status := WRunning, c_settled_at := None, c_updated := now\<rparr>"
  define e where "e = (\<lambda>e. e\<lparr>d_wf_hooks := filter (\<lambda>h. \<not> (wh_type h = ChainWf \<and> wh_workflow h = i)) (d_wf_hooks e)\<rparr>)
    (upd_chain i ?F d)"
  obtain c s where c: "get_chain i d = Some c" "step_at i (c_index c) e = Some s"
    and q: "queue_chain_step w now trace c s (if s_task s \<noteq> None
        then upd_steps (\<lambda>x. s_id x = s_id s) (\<lambda>x. x\<lparr>s_task := None\<rparr>) e else e) = Inr d'"
  proof -
    obtain c st where c: "get_chain i d = Some c" "transition_to (c_status c) WRunning = Inr st"
      using run by (auto simp: resume_chain_def split: option.splits elim!: rbindE)
    have "st = WRunning" using reopen_status [OF c(2)] by simp
    then have "(case step_at i (c_index c) e of None \<Rightarrow> Inl DoesNotExist
        | Some s \<Rightarrow> queue_chain_step w now trace c s (if s_task s \<noteq> None
          then upd_steps (\<lambda>x. s_id x = s_id s) (\<lambda>x. x\<lparr>s_task := None\<rparr>) e else e)) = Inr d'"
      using run c unfolding resume_chain_def Let_def e_def by (elim rbindE) simp
    then show thesis using that [OF c(1)] by (auto split: option.splits)
  qed
  have s: "s \<in> set (d_steps d)" "s_chain s = i" "s_index s = c_index c"
    using step_at_Some [OF c(2)] by (simp_all add: e_def)
  let ?G = "\<lambda>x. if s_task s \<noteq> None \<and> s_id x = s_id s then x\<lparr>s_task := None\<rparr> else x"
  show ?thesis
  proof (rule queue_inv [OF inv c(1) s(1,2) _ _ _ _ _ _ _ _ _ q refl, where F = ?F and G = ?G])
    show "\<exists>t. ?G x = x\<lparr>s_task := t\<rparr>" for x :: step_row
      by (cases "s_task s \<noteq> None \<and> s_id x = s_id s") auto
  qed (use s(3) in \<open>auto simp: e_def upd_where_def intro: keeps_doneI\<close>)
qed

lemma reject_chain_inv:
  assumes inv: "chain_inv d" and run: "reject_chain w now i d = Inr d'"
  shows "chain_inv d'"
proof -
  have "transition_to s WCancelled = Inr st \<Longrightarrow> st = WCancelled" for s st
    by (auto simp: transition_to_def split: if_splits)
  then obtain c where "d' = announce_chain_cancelled w now c
      (upd_chain i (\<lambda>x. x\<lparr>c_status := WCancelled, c_settled_at := Some now, c_updated := now\<rparr>) d)"
    using run by (auto simp: reject_chain_def split: option.splits elim!: rbindE)
  then show ?thesis
    by (intro chain_inv_status [OF inv, of d' i
          "\<lambda>x. x\<lparr>c_status := WCancelled, c_settled_at := Some now, c_updated := now\<rparr>"]) auto
qed

lemma cancel_chain_inv:
  assumes inv: "chain_inv d" and run: "cancel_chain w now c d = Inr d'"
  shows "chain_inv d'"
proof -
  let ?F = "\<lambda>x. if cancellable_wf (c_status x) \<and> c_settled_at x = None then settled_chain now WCancelled x else x"
  have "d' = announce_chain_cancelled w now c (upd_chains (\<lambda>x. c_id x = c_id c \<and> cancellable_wf (c_status x) \<and>
      c_settled_at x = None) (\<lambda>x. x\<lparr>c_status := WCancelled, c_settled_at := Some now, c_updated := now\<rparr>) d)"
    using run by (auto simp: cancel_chain_def Let_def split: if_splits)
  then have "d_chains d' = upd_where (\<lambda>x. c_id x = c_id c) ?F (d_chains d)" "d_steps d' = d_steps d"
    "d_attempts d' = d_attempts d" "d_next d' = d_next d"
    by (auto simp: upd_where_def settled_chain_def)
  then show ?thesis
    by (intro chain_inv_status [OF inv, of d' "c_id c" ?F]) (auto simp: settled_chain_def split: if_splits)
qed

lemma new_chain_inv:
  assumes inv: "chain_inv d" and run: "new_chain imports now h subject graph node d = Inr (i, d')"
  shows "chain_inv d'"
proof -
  define r where "r = last (d_chains d')"
  have r: "c_id r = d_next d" "c_index r = 0" "c_status r = WPending"
    and d': "d' = d\<lparr>d_chains := d_chains d @ [r], d_next := Suc (d_next d)\<rparr>"
    using run by (auto simp: r_def new_chain_def elim!: rbindE split: prod.splits)
  have "chain_ok c (d_steps d) d'" if "c \<in> set (d_chains d)" for c
    using inv that chain_ok_mono [of d d'] by (auto simp: chain_inv_def d' keeps_done_def task_done_def)
  moreover have "chain_ok r (d_steps d) d'" using inv r by (auto simp: chain_ok_def chain_inv_def)
  ultimately show ?thesis using inv r(1)
    by (auto simp: chain_inv_def d' less_Suc_eq)
qed

lemma chain_steps_props:
  "length (chain_steps sid c k xs) = length xs"
  "map s_id (chain_steps sid c k xs) = [sid..<sid + length xs]"
  "map s_index (chain_steps sid c k xs) = [k..<k + length xs]"
  "s \<in> set (chain_steps sid c k xs) \<Longrightarrow> s_chain s = c \<and> s_task s = None"
proof (induction xs arbitrary: sid k)
  case (Cons i xs)
  have u: "[n..<n + length (i # xs)] = n # [Suc n..<Suc n + length xs]" for n
    by (simp add: upt_conv_Cons del: upt_Suc)
  { case 1 show ?case using Cons(1) by simp next
    case 2 show ?case unfolding u using Cons(2) [of "Suc sid" "Suc k"] by (simp add: chain_step_def del: upt_Suc) next
    case 3 show ?case unfolding u using Cons(3) [of "Suc sid" "Suc k"] by (simp add: chain_step_def del: upt_Suc) next
    case 4 then show ?case using Cons(4) by (auto simp: chain_step_def) }
qed simp_all

text \<open>The steps of a chain that had none, appended at once.\<close>

lemma insert_steps_inv:
  assumes inv: "chain_inv d" and fresh: "\<forall>s \<in> set (d_steps d). s_chain s \<noteq> c" and c: "c < d_next d" "is \<noteq> []"
    and idx: "\<And>r. get_chain c d = Some r \<Longrightarrow> c_status r \<noteq> WSucceeded"
  defines "d' \<equiv> d\<lparr>d_steps := d_steps d @ chain_steps (d_next d) c 0 is, d_next := d_next d + length is\<rparr>"
  shows "chain_inv d'"
proof -
  let ?new = "chain_steps (d_next d) c 0 is"
  note cs = chain_steps_props [where sid = "d_next d" and c = c and k = 0 and xs = "is"]
  have sok: "steps_ok (d_steps d)" using inv by (simp add: chain_inv_def)
  have ids: "set (map s_id ?new) = {d_next d..<d_next d + length is}" by (simp only: cs(2) set_upt)
  have idxs: "set (map s_index ?new) = {0..<length is}" by (simp only: cs(3) set_upt add_0)
  have "steps_ok (d_steps d @ ?new)"
    unfolding steps_ok_def
  proof (intro conjI)
    have "distinct (map s_id ?new)" by (simp add: cs(2))
    moreover have "set (map s_id (d_steps d)) \<inter> set (map s_id ?new) = {}"
      using inv unfolding ids by (auto simp: chain_inv_def)
    ultimately show "distinct (map s_id (d_steps d @ ?new))" using sok by (simp add: steps_ok_def)
    have "distinct (map s_index ?new)" by (simp add: cs(3))
    then have "distinct (map (\<lambda>s. (s_chain s, s_index s)) ?new)"
      by (auto simp: distinct_map inj_on_def)
    moreover have "(\<lambda>s. (s_chain s, s_index s)) ` set (d_steps d) \<inter> (\<lambda>s. (s_chain s, s_index s)) ` set ?new = {}"
      using fresh cs(4) by auto
    ultimately show "distinct (map (\<lambda>s. (s_chain s, s_index s)) (d_steps d @ ?new))"
      using sok by (simp add: steps_ok_def)
    show "\<forall>s \<in> set (d_steps d @ ?new). \<forall>k < s_index s. \<exists>s' \<in> set (d_steps d @ ?new).
        s_chain s' = s_chain s \<and> s_index s' = k"
    proof (intro ballI allI impI)
      fix s k assume s: "s \<in> set (d_steps d @ ?new)" "k < s_index s"
      show "\<exists>s' \<in> set (d_steps d @ ?new). s_chain s' = s_chain s \<and> s_index s' = k"
      proof (cases "s \<in> set (d_steps d)")
        case True
        then show ?thesis using sok s(2) by (auto simp: steps_ok_def)
      next
        case False
        with s have n: "s \<in> set ?new" by simp
        then have "s_index s \<in> {0..<length is}" using idxs by (metis image_eqI set_map)
        then have "k \<in> set (map s_index ?new)" using s(2) unfolding idxs by simp
        then show ?thesis using cs(4) n by auto
      qed
    qed
  qed
  moreover have "chain_ok r (d_steps d @ ?new) d'" if r: "r \<in> set (d_chains d)" for r
  proof -
    have ok: "chain_ok r (d_steps d) d'" using inv r chain_ok_mono [of d d']
      by (auto simp: chain_inv_def d'_def keeps_done_def task_done_def)
    show ?thesis
    proof (cases "c_id r = c")
      case False
      then have "s_chain s \<noteq> c_id r" if "s \<in> set ?new" for s using cs(4) that by auto
      then show ?thesis using ok by (auto simp: chain_ok_def)
    next
      case True
      have "distinct (map c_id (d_chains d))" using inv by (simp add: chain_inv_def)
      then have "get_chain c d = Some r" using get_by_distinct r True by (fastforce simp: get_chain_def)
      moreover have "c_index r = 0" using ok fresh True by (auto simp: chain_ok_def)
      ultimately show ?thesis using idx [of r] fresh True cs(4)
        by (auto simp: chain_ok_def)
    qed
  qed
  moreover have "s_id s < d_next d + length is \<and> s_chain s < d_next d + length is" if "s \<in> set (d_steps d @ ?new)" for s
  proof (cases "s \<in> set ?new")
    case True
    then have "s_id s \<in> set (map s_id ?new)" "s_chain s = c" using cs(4) by auto
    then show ?thesis using c(1) unfolding ids by auto
  qed (use inv that in \<open>auto simp: chain_inv_def\<close>)
  ultimately show ?thesis using inv by (auto simp: chain_inv_def d'_def)
qed

lemma step_at_0: "steps_ok (d_steps d) \<Longrightarrow> \<not> exists_where (\<lambda>s. s_chain s = i \<and> s_index s < n) (d_steps d) \<Longrightarrow>
  0 < n \<Longrightarrow> \<forall>s \<in> set (d_steps d). s_chain s \<noteq> i"
  by (fastforce simp: steps_ok_def exists_where_iff)

lemma run_chain_inv:
  assumes inv: "chain_inv d" and r: "get_chain (c_id c) d = Some r" and run: "run_chain w now trace c is d = Inr d'"
  shows "chain_inv d'"
proof -
  let ?F = "\<lambda>st. \<lambda>x :: chain_row. x\<lparr>c_status := st, c_updated := now\<rparr>"
  define e where "e = d\<lparr>d_steps := d_steps d @ chain_steps (d_next d) (c_id c) 0 is, d_next := d_next d + length is\<rparr>"
  from run have g: "is \<noteq> []" "c_status c = WPending"
      "\<not> exists_where (\<lambda>s. s_chain s = c_id c \<and> s_index s < length is) (d_steps d)"
    by (auto simp: run_chain_def elim!: rbindE)
  obtain s where s: "step_at (c_id c) 0 (upd_chain (c_id c) (?F WRunning) e) = Some s"
    and q: "s_gate s \<Longrightarrow> d' = upd_chain (c_id c) (?F WWaiting) (upd_chain (c_id c) (?F WRunning) e)"
      "\<not> s_gate s \<Longrightarrow> queue_chain_step w now trace (c\<lparr>c_status := WRunning\<rparr>) s (upd_chain (c_id c) (?F WRunning) e) = Inr d'"
    using run g unfolding run_chain_def Let_def e_def [symmetric]
    by (auto simp: transition_to_def guard_def split: option.splits if_splits)
  have fresh: "\<forall>s \<in> set (d_steps d). s_chain s \<noteq> c_id c"
    using step_at_0 [of d "c_id c" "length is"] g inv by (auto simp: chain_inv_def)
  note row = chain_row [OF inv r]
  have r0: "c_index r = 0" "c_status r \<noteq> WSucceeded" using row fresh by (auto simp: chain_ok_def)
  have inv_e: "chain_inv e" unfolding e_def
    by (rule insert_steps_inv [OF inv fresh _ g(1)]) (use inv row r r0 in \<open>auto simp: chain_inv_def\<close>)
  have re: "get_chain (c_id c) e = Some r" using r by (simp add: e_def get_chain_def)
  show ?thesis
  proof (cases "s_gate s")
    case True
    have st: "chain_inv (upd_chain (c_id c) (?F x) b)" if "chain_inv b" "x \<noteq> WSucceeded" for b x
      by (rule chain_inv_status [OF that(1), where i = "c_id c" and F = "?F x"]) (use that(2) in auto)
    show ?thesis unfolding q(1) [OF True] by (intro st inv_e) simp_all
  next
    case False
    show ?thesis
      by (rule queue_inv [OF inv_e re _ _ _ _ _ _ _ _ _ _ _ q(2) [OF False] refl, where F = "?F WRunning" and G = "\<lambda>x. x"])
        (use step_at_Some [OF s] r0 in \<open>auto intro: keeps_doneI\<close>)
  qed
qed

section \<open>Runs of the chain operations\<close>

text \<open>
  A step row as an earlier read had it: the rows are immutable but for the task they are bound to.
\<close>

definition earlier_view :: "db \<Rightarrow> db \<Rightarrow> bool" where
  "earlier_view v d \<longleftrightarrow> (\<forall>s \<in> set (d_steps v). \<exists>x \<in> set (d_steps d).
     s_id x = s_id s \<and> s_chain x = s_chain s \<and> s_index x = s_index s)"

lemma earlier_view_refl [simp]: "earlier_view d d"
  by (auto simp: earlier_view_def)

lemma task_done_view:
  "map (\<lambda>a. (a_task a, a_success a)) (d_attempts d') = map (\<lambda>a. (a_task a, a_success a)) (d_attempts d) \<Longrightarrow>
    task_done t d' = task_done t d"
proof -
  have "task_done t d = ((t, Some True) \<in> set (map (\<lambda>a. (a_task a, a_success a)) (d_attempts d)))" for d
    by (force simp: task_done_def)
  then show "map (\<lambda>a. (a_task a, a_success a)) (d_attempts d') = map (\<lambda>a. (a_task a, a_success a)) (d_attempts d) \<Longrightarrow>
    task_done t d' = task_done t d" by metis
qed

lemma settle_par_frame:
  assumes "settle_par now ty i s d = (x, d')"
  shows "d_chains d' = d_chains d" "d_steps d' = d_steps d" "d_attempts d' = d_attempts d" "d_next d' = d_next d"
  using assms by (auto simp: settle_par_def Let_def split: if_splits)

lemma handle_parallel_other:
  assumes "handle_parallel w now i a d = Inr d'"
  shows "other_chain_work d d'"
proof -
  have inc: "other_chain_work d e" if "atomic_increment now i aid s d = Inr (out, p, e)" for aid s out p e
  proof -
    let ?v = "\<lambda>d. map (\<lambda>a. (a_task a, a_success a)) (d_attempts d)"
    have "d_chains e = d_chains d \<and> d_steps e = d_steps d \<and> d_next e = d_next d \<and> ?v e = ?v d"
      using that settle_par_frame
      by (auto simp: atomic_increment_def Let_def map_upd_where split: option.splits if_splits prod.splits)
    then show ?thesis by (simp add: other_chain_work_def keeps_done_def task_done_view [of e d])
  qed
  have hook: "d_attempts (dispatch_par_hook w now p e) = d_attempts e"
    "d_attempts (dispatch_progress_hook w p e) = d_attempts e"
    "d_chains (dispatch_par_hook w now p e) = d_chains e" "d_chains (dispatch_progress_hook w p e) = d_chains e"
    "d_steps (dispatch_par_hook w now p e) = d_steps e" "d_steps (dispatch_progress_hook w p e) = d_steps e" for p e
    by (auto simp: dispatch_par_hook_def dispatch_progress_hook_def Let_def q2_async_task_def
        split: option.splits sum.splits prod.splits)
  have fin: "other_chain_work d e \<Longrightarrow> d_chains f = d_chains e \<Longrightarrow> d_steps f = d_steps e \<Longrightarrow>
      d_attempts f = d_attempts e \<Longrightarrow> d_next f = d_next e \<Longrightarrow> other_chain_work d f" for e f
    by (simp add: other_chain_work_def keeps_done_def task_done_def)
  from assms have "d' = d \<or> (\<exists>out p e. atomic_increment now i (a_id a) (a_success a = Some True) d = Inr (out, p, e) \<and>
      d' = (case out of Complete \<Rightarrow> dispatch_par_hook w now p e | Partial \<Rightarrow> dispatch_progress_hook w p e | Noop \<Rightarrow> e))"
    by (auto simp: handle_parallel_def elim!: rbindE split: if_splits prod.splits)
  then show ?thesis
  proof (elim disjE exE conjE)
    fix out p e assume e: "atomic_increment now i (a_id a) (a_success a = Some True) d = Inr (out, p, e)"
      and "d' = (case out of Complete \<Rightarrow> dispatch_par_hook w now p e | Partial \<Rightarrow> dispatch_progress_hook w p e | Noop \<Rightarrow> e)"
    then show ?thesis using fin [OF inc [OF e], of d'] inc [OF e]
      by (cases out) (simp_all add: hook)
  qed (simp add: other_chain_work_def)
qed

text \<open>
  A completion arrives with the attempt it is for; the binding of its step was read in an earlier
  view, and a success is on record.
\<close>

lemma route_completion_inv:
  assumes inv: "chain_inv d" and v: "earlier_view v d" and a: "a_success a = Some True \<Longrightarrow> task_done (t_id t) d"
    and run: "route_workflow_completion w now trace v t a d = Inr (h, d')"
  shows "chain_inv d'"
proof (cases "find (\<lambda>s. s_task s = Some (t_id t)) (d_steps v)")
  case None
  then have "d' = d \<or> (\<exists>i. handle_parallel w now i a d = Inr d')"
    using run by (auto simp: route_workflow_completion_def split: option.splits elim!: rbindE)
  then show ?thesis using inv other_chain_work_inv handle_parallel_other by blast
next
  case (Some s)
  then have s: "s \<in> set (d_steps v)" by (auto simp: find_Some_iff)
  have "d' = d \<or> (Option.bind (get_by s_id (s_id s) (d_steps d)) s_task = Some (t_id t) \<and>
      handle_chain_step w now trace s a d = Inr d')"
    using run Some by (auto simp: route_workflow_completion_def split: if_splits elim!: rbindE)
  then show ?thesis
  proof (elim disjE conjE)
    assume b: "Option.bind (get_by s_id (s_id s) (d_steps d)) s_task = Some (t_id t)"
      and h: "handle_chain_step w now trace s a d = Inr d'"
    obtain x where x: "get_by s_id (s_id s) (d_steps d) = Some x" "s_task x = Some (t_id t)"
      using b by (auto simp: bind_eq_Some_conv)
    obtain y where y: "y \<in> set (d_steps d)" "s_id y = s_id s" "s_chain y = s_chain s" "s_index y = s_index s"
      using v s by (auto simp: earlier_view_def)
    have "distinct (map s_id (d_steps d))" using inv by (simp add: chain_inv_def steps_ok_def)
    from get_by_distinct [OF this y(1)] have "x = y" using x(1) y(2) by simp
    then have "completed_step s d" if "a_success a = Some True"
      using a [OF that] x(2) y by (auto simp: completed_step_def step_done_def)
    then show ?thesis by (rule handle_chain_step_inv [OF inv _ h])
  qed (simp add: inv)
qed

inductive chain_work :: "world \<Rightarrow> db \<Rightarrow> db \<Rightarrow> bool" for w where
  work_new: "new_chain imports now h subject graph node d = Inr (i, d') \<Longrightarrow> chain_work w d d'"
| work_run: "get_chain (c_id c) d \<noteq> None \<Longrightarrow> run_chain w now trace c is d = Inr d' \<Longrightarrow> chain_work w d d'"
| work_complete: "earlier_view v d \<Longrightarrow> (a_success a = Some True \<Longrightarrow> task_done (t_id t) d) \<Longrightarrow>
    route_workflow_completion w now trace v t a d = Inr (handled, d') \<Longrightarrow> chain_work w d d'"
| work_resume: "resume_chain w now trace i snap d = Inr d' \<Longrightarrow> chain_work w d d'"
| work_approve: "approve_chain w now trace i d = Inr d' \<Longrightarrow> chain_work w d d'"
| work_reject: "reject_chain w now i d = Inr d' \<Longrightarrow> chain_work w d d'"
| work_cancel: "cancel_chain w now c d = Inr d' \<Longrightarrow> chain_work w d d'"
| work_other: "other_chain_work d d' \<Longrightarrow> chain_work w d d'"

lemma chain_work_inv: "chain_work w d d' \<Longrightarrow> chain_inv d \<Longrightarrow> chain_inv d'"
  by (induction rule: chain_work.induct)
    (blast intro: new_chain_inv run_chain_inv route_completion_inv resume_chain_inv approve_chain_inv
      reject_chain_inv cancel_chain_inv other_chain_work_inv)+

interpretation chains: step_invariant "chain_work w" chain_inv for w
  by unfold_locales (rule chain_work_inv)

lemma reachable_chain_inv: "run_steps (chain_work w) empty_db d \<Longrightarrow> chain_inv d"
  by (erule chains.run_keeps) (simp add: chain_inv_def steps_ok_def empty_db_def)

section \<open>A concrete run\<close>

text \<open>A worker's record that an attempt succeeded.\<close>

definition record_success :: "id \<Rightarrow> db \<Rightarrow> db" where
  "record_success i d = upd_attempts (\<lambda>a. a_id a = i) (\<lambda>a. a\<lparr>a_success := Some True\<rparr>) d"

lemma record_success_other: "other_chain_work d (record_success i d)"
proof -
  have "task_done t (record_success i d)" if "task_done t d" for t
  proof -
    obtain a where a: "a \<in> set (d_attempts d)" "a_task a = t" "a_success a = Some True"
      using \<open>task_done t d\<close> unfolding task_done_def by blast
    let ?a = "if a_id a = i then a\<lparr>a_success := Some True\<rparr> else a"
    have "?a \<in> set (d_attempts (record_success i d))"
      unfolding record_success_def upd_attempts_def using a(1) by (simp add: upd_where_def)
    moreover have "a_task ?a = t" "a_success ?a = Some True" using a(2,3) by simp_all
    ultimately show ?thesis unfolding task_done_def by blast
  qed
  then show ?thesis by (simp add: other_chain_work_def keeps_done_def record_success_def)
qed

text \<open>A chain of two steps: started, its first step done, its second.\<close>

definition report_db :: "id \<Rightarrow> id \<Rightarrow> time \<Rightarrow> db \<Rightarrow> db res" where
  "report_db t a now d = (let d = record_success a d in
     rbind (route_workflow_completion demo_world now None d (the (get_task t d)) (the (get_attempt a d)) d)
       (\<lambda>(_, d). Inr d))"

definition chain_db0 :: db where
  "chain_db0 = ok_db (rbind (new_chain (\<lambda>_. None) 1 no_hooks None None None empty_db) (\<lambda>(_, d). Inr d))"

definition chain_db1 :: db where
  "chain_db1 = ok_db (run_chain demo_world 2 None (hd (d_chains chain_db0)) [demo_item ''app.f'', demo_item ''app.g''] chain_db0)"

definition chain_db2 :: db where
  "chain_db2 = ok_db (report_db 103 104 3 chain_db1)"

definition chain_db3 :: db where
  "chain_db3 = ok_db (report_db 105 106 4 chain_db2)"

lemma report_run:
  assumes "run_steps (chain_work demo_world) empty_db d" "\<not> isl (report_db t a now d)"
    and "list_ex (\<lambda>x. a_task x = t \<and> a_success x = Some True) (d_attempts (record_success a d))"
    and "t_id (the (get_task t (record_success a d))) = t"
  shows "run_steps (chain_work demo_world) empty_db (ok_db (report_db t a now d))"
proof -
  have r: "run_steps (chain_work demo_world) empty_db (record_success a d)"
    by (rule run_step [OF assms(1) work_other [OF record_success_other]])
  have t: "task_done t (record_success a d)"
    using assms(3) unfolding task_done_def list_ex_iff .
  have "report_db t a now d = Inr (ok_db (report_db t a now d))" by (rule ok_dbI [OF assms(2)])
  then have "\<exists>h. route_workflow_completion demo_world now None (record_success a d)
      (the (get_task t (record_success a d))) (the (get_attempt a (record_success a d))) (record_success a d) =
      Inr (h, ok_db (report_db t a now d))"
    by (cases "route_workflow_completion demo_world now None (record_success a d)
      (the (get_task t (record_success a d))) (the (get_attempt a (record_success a d))) (record_success a d)")
      (auto simp: report_db_def Let_def ok_db_def)
  then obtain h where h: "route_workflow_completion demo_world now None (record_success a d)
      (the (get_task t (record_success a d))) (the (get_attempt a (record_success a d))) (record_success a d) =
      Inr (h, ok_db (report_db t a now d))" ..
  show ?thesis
    by (rule run_step [OF r work_complete [OF earlier_view_refl _ h]]) (simp add: t assms(4))
qed

lemma chain_runs:
  "run_steps (chain_work demo_world) empty_db chain_db1" "run_steps (chain_work demo_world) empty_db chain_db2"
  "run_steps (chain_work demo_world) empty_db chain_db3"
proof -
  have "\<not> isl (new_chain (\<lambda>_. None) 1 no_hooks None None None empty_db)" by code_simp
  then obtain i where "new_chain (\<lambda>_. None) 1 no_hooks None None None empty_db = Inr (i, chain_db0)"
    by (cases "new_chain (\<lambda>_. None) 1 no_hooks None None None empty_db") (auto simp: chain_db0_def ok_db_def)
  note r0 = run_step [OF run_refl [of "chain_work demo_world" empty_db] work_new [OF this]]
  have ex: "get_chain (c_id (hd (d_chains chain_db0))) chain_db0 \<noteq> None" by code_simp
  have "\<not> isl (run_chain demo_world 2 None (hd (d_chains chain_db0)) [demo_item ''app.f'', demo_item ''app.g''] chain_db0)"
    by code_simp
  then have "run_chain demo_world 2 None (hd (d_chains chain_db0)) [demo_item ''app.f'', demo_item ''app.g''] chain_db0 =
      Inr chain_db1" unfolding chain_db1_def by (rule ok_dbI)
  note r1 = run_step [OF r0 work_run [OF ex this]]
  show "run_steps (chain_work demo_world) empty_db chain_db1" by (rule r1)
  show r2: "run_steps (chain_work demo_world) empty_db chain_db2"
    unfolding chain_db2_def by (rule report_run [OF r1]) code_simp+
  show "run_steps (chain_work demo_world) empty_db chain_db3"
    unfolding chain_db3_def by (rule report_run [OF r2]) code_simp+
qed

section \<open>Order, completeness, redelivery\<close>



text \<open>
  A chain that succeeded ran all of its steps: there is at least one, and every one of them is
  bound to a task with a successful attempt.
\<close>

theorem succeeded_chain_ran_every_step:
  assumes "run_steps (chain_work w) empty_db d" "c \<in> set (d_chains d)" "c_status c = WSucceeded"
  shows "(\<exists>s \<in> set (d_steps d). s_chain s = c_id c) \<and>
    filter (\<lambda>s. s_chain s = c_id c \<and> \<not> step_done s d) (d_steps d) = []"
proof -
  have "chain_ok c (d_steps d) d" using reachable_chain_inv [OF assms(1)] assms(2) by (simp add: chain_inv_def)
  then show ?thesis using assms(3) unfolding chain_ok_def filter_empty_conv by blast
qed

theorem succeeded_chain_ran_every_step_witness:
  "filter (\<lambda>s. s_chain s = 100 \<and> \<not> step_done s chain_db3) (d_steps chain_db3) = []"
proof -
  let ?c = "hd (d_chains chain_db3)"
  have "d_chains chain_db3 \<noteq> []" by code_simp
  then have mem: "?c \<in> set (d_chains chain_db3)" by simp
  have st: "c_status ?c = WSucceeded" by code_simp
  have "c_id ?c = 100" by code_simp
  then show ?thesis using succeeded_chain_ran_every_step [OF chain_runs(3) mem st] by simp
qed

lemma settled_again:
  assumes "get_chain i d = Some c" "c_settled_at c \<noteq> None \<or> terminal_wf (c_status c)" "distinct (map c_id (d_chains d))"
  shows "settle_chain now i s d = (None, d)"
  using settle_chain_cases [OF _ assms(1,3), of now s] assms(2)
  by (cases "settle_chain now i s d") auto

lemma complete_chain_again:
  assumes inv: "chain_inv d" and run: "complete_chain w now i b d = Inr d'"
  shows "complete_chain w now' i b d' = Inr d'"
proof -
  obtain c where c: "get_chain i d = Some c"
    using run by (cases "get_chain i d") (simp_all add: complete_chain_def)
  have ci: "c_id c = i" using chain_row [OF inv c] by simp
  have dst: "distinct (map c_id (d_chains d))" using inv by (simp add: chain_inv_def)
  define st where "st = (if b then WSucceeded else WFailed)"
  obtain x e where x: "settle_chain now i st d = (x, e)" by fastforce
  from settle_chain_cases [OF x c dst] show ?thesis
  proof (elim disjE conjE)
    assume h: "x = None" "e = d" "c_settled_at c \<noteq> None"
    then show ?thesis using settled_again [OF c _ dst] run c x
      by (auto simp: complete_chain_def st_def split: if_splits)
  next
    assume h: "x = None" "e = d" "terminal_wf (c_status c)"
    then show ?thesis using settled_again [OF c _ dst] run c x
      by (auto simp: complete_chain_def st_def split: if_splits)
  next
    assume h: "c_settled_at c = None" "\<not> terminal_wf (c_status c)" "x = Some (settled_chain now st c)"
      "e = emit (WorkflowSettled ChainWf i st) (upd_chain i (settled_chain now st) d)"
    then have "c_status c \<noteq> WCancelled" by (auto simp: terminal_wf_def)
    then have d': "d_chains d' = upd_where (\<lambda>c. c_id c = i) (settled_chain now st) (d_chains d)"
      using run c x h(3,4) by (auto simp: complete_chain_def st_def)
    have "get_chain i d' = Some (settled_chain now st c)"
      using c ci by (simp add: d' get_chain_def get_by_upd_where settled_chain_def)
    moreover have "distinct (map c_id (d_chains d'))" using dst by (simp add: d' map_upd_where settled_chain_def)
    ultimately show ?thesis using settled_again [of i d' "settled_chain now st c"]
      by (simp add: complete_chain_def settled_chain_def st_def)
  qed
qed

lemma get_chain_upd:
  "get_chain i d = Some c \<Longrightarrow> c_id c = i \<Longrightarrow> (\<And>c. c_id (F c) = c_id c) \<Longrightarrow>
    d_chains d' = upd_where (\<lambda>c. c_id c = i) F (d_chains d) \<Longrightarrow> get_chain i d' = Some (F c)"
  by (simp add: get_chain_def get_by_upd_where)

lemma chain_step_success_again:
  assumes inv: "chain_inv d" and run: "chain_step_success w now trace s d = Inr d'"
  shows "chain_step_success w now' trace' s d' = Inr d'"
proof -
  obtain c where c: "get_chain (s_chain s) d = Some c"
    using run by (cases "get_chain (s_chain s) d") (simp_all add: chain_step_success_def)
  note row = chain_row [OF inv c]
  from run c show ?thesis
  proof (cases rule: chain_step_success_cases)
    case 1 then show ?thesis using c by (auto simp: chain_step_success_def)
  next
    case 2
    show ?thesis
    proof (cases "c_status c = WCancelled")
      case True
      then show ?thesis using run c by (simp add: chain_step_success_def)
    next
      case False
      then have "complete_chain w now (s_chain s) True d = Inr d'"
        using 2 c row(2) by (simp add: complete_chain_def)
      note again = complete_chain_again [OF inv this, of now']
      then obtain c' where c': "get_chain (s_chain s) d' = Some c'"
        by (cases "get_chain (s_chain s) d'") (simp_all add: complete_chain_def)
      have "c_id c' = s_chain s" using get_by_SomeD [of c_id "s_chain s"] c' by (auto simp: get_chain_def)
      moreover have steps: "d_steps d' = d_steps d"
      proof -
        obtain x e where x: "settle_chain now (c_id c) WSucceeded d = (x, e)" by fastforce
        then have "d_steps e = d_steps d" by (auto simp: settle_chain_def Let_def split: if_splits)
        then show ?thesis using 2(3) x by (auto split: option.splits)
      qed
      ultimately show ?thesis using again c' 2(2) row(2)
        by (auto simp: chain_step_success_def complete_chain_def step_at_def split: if_splits)
    qed
  next
    case (3 n)
    have "get_chain (s_chain s) d' = Some (c\<lparr>c_index := s_index n, c_status := WWaiting, c_updated := now\<rparr>)"
      by (rule get_chain_upd [OF c row(2)]) (simp_all add: 3(4) row(2))
    then show ?thesis using step_at_Some [OF 3(2)] by (simp add: chain_step_success_def)
  next
    case (4 n)
    have "get_chain (s_chain s) d' = Some (c\<lparr>c_index := s_index n, c_updated := now\<rparr>)"
      by (rule get_chain_upd [OF c row(2)]) (simp_all add: queue_chain_step_Inr(1) [OF 4(4)] row(2))
    then show ?thesis using step_at_Some [OF 4(2)] by (simp add: chain_step_success_def)
  qed
qed

lemma complete_chain_tasks: "complete_chain w now i b d = Inr d' \<Longrightarrow> d_tasks d' = d_tasks d"
  by (auto simp: complete_chain_def settle_chain_def dispatch_chain_hook_def Let_def
      split: option.splits if_splits)

lemma handle_chain_step_again:
  assumes inv: "chain_inv d" and run: "handle_chain_step w now trace s a d = Inr d'"
  shows "handle_chain_step w now' trace' s a d' = Inr d'"
proof -
  obtain c where c: "get_chain (s_chain s) d = Some c"
    using assms(2) by (cases "get_chain (s_chain s) d") (simp_all add: handle_chain_step_def)
  consider "d' = d" | "a_success a = Some True" "chain_step_success w now trace s d = Inr d'"
    | "a_success a \<noteq> Some True" "dead_task (a_task a) d = Inr True" "complete_chain w now (s_chain s) False d = Inr d'"
    using assms(2) c by (auto simp: handle_chain_step_def split: if_splits elim!: rbindE)
  then show ?thesis
  proof cases
    case 1
    then show ?thesis using assms(2) c
      by (auto simp: handle_chain_step_def split: if_splits elim!: rbindE
          intro: chain_step_success_again [OF inv] complete_chain_again [OF inv])
  next
    case 2
    note again = chain_step_success_again [OF inv 2(2), of now' trace']
    have "get_chain (s_chain s) d' \<noteq> None"
    proof
      assume "get_chain (s_chain s) d' = None"
      then show False using again by (simp add: chain_step_success_def)
    qed
    then show ?thesis using 2(1) again by (auto simp: handle_chain_step_def)
  next
    case 3
    note again = complete_chain_again [OF inv 3(3), of now']
    have ex: "get_chain (s_chain s) d' \<noteq> None"
    proof
      assume "get_chain (s_chain s) d' = None"
      then show False using again by (simp add: complete_chain_def)
    qed
    have "dead_task (a_task a) d' = Inr True"
      using 3(2) complete_chain_tasks [OF 3(3)] by (simp add: dead_task_def get_task_def)
    then show ?thesis using again 3(1) ex by (auto simp: handle_chain_step_def)
  qed
qed

text \<open>
  A chain step's completion is counted once. In every reachable database, a completion that
  has been handled can be delivered again, at any later time and for a success as for a dead step,
  and leaves the database as it is: the chain does not move twice, no task is created twice and
  nothing is announced twice.
\<close>

theorem chain_completion_once:
  assumes "run_steps (chain_work w) empty_db d" "handle_chain_step w now trace s a d = Inr d'"
  shows "handle_chain_step w now' trace' s a d' = Inr d'"
  by (rule handle_chain_step_again [OF reachable_chain_inv [OF assms(1)] assms(2)])

text \<open>The first completion of the demonstration chain, as it is about to be handled.\<close>

definition first_done :: db where
  "first_done = record_success 104 chain_db1"

definition first_step :: step_row where
  "first_step = hd (d_steps first_done)"

definition first_step_attempt :: attempt_row where
  "first_step_attempt = the (get_attempt 104 first_done)"

lemma first_done_run: "run_steps (chain_work demo_world) empty_db first_done"
  unfolding first_done_def by (rule run_step [OF chain_runs(1) work_other [OF record_success_other]])

theorem chain_completion_once_witness:
  "\<exists>d'. handle_chain_step demo_world 3 None first_step first_step_attempt first_done = Inr d' \<and>
     handle_chain_step demo_world 9 None first_step first_step_attempt d' = Inr d'"
proof -
  have "\<not> isl (handle_chain_step demo_world 3 None first_step first_step_attempt first_done)" by code_simp
  note h = ok_dbI [OF this]
  show ?thesis using h chain_completion_once [OF first_done_run h, of 9 None] by blast
qed

lemma queue_chain_step_msg:
  assumes "queue_chain_step w now trace c s d = Inr d'"
  shows "length (d_queue d') = Suc (length (d_queue d))"
proof -
  obtain i q e where e: "create_workflow_task w now trace (s_func s) (s_args s) (s_kwargs s) (s_options s) None
      (chain_labels c) d = Inr (i, q, e)"
    and d': "d' = upd_steps (\<lambda>x. s_id x = s_id s) (\<lambda>x. x\<lparr>s_task := Some i\<rparr>) e"
    using assms by (auto simp: queue_chain_step_def elim!: rbindE)
  from e obtain t m where c: "create_and_enqueue w now trace t m d = Inr (i, q, e)"
    unfolding create_workflow_task_def Let_def by (elim rbindE) (auto split: prod.splits)
  obtain t' a where "e = d\<lparr>d_tasks := d_tasks d @ [t'], d_attempts := d_attempts d @ [a],
      d_queue := d_queue d @ [(q, m)], d_next := Suc (Suc (d_next d))\<rparr>"
    by (rule create_and_enqueue_Inr [OF c])
  then show ?thesis by (simp add: d')
qed

lemma step_at_rebound:
  assumes "steps_ok (d_steps d)" "step_at i k d = Some n"
    and "d_steps d' = map (\<lambda>x. if s_id x = s_id n then x\<lparr>s_task := t\<rparr> else x) (d_steps d)"
  shows "step_at i k d' = Some (n\<lparr>s_task := t\<rparr>)"
proof -
  have n: "n \<in> set (d_steps d)" "s_chain n = i" "s_index n = k" using step_at_Some [OF assms(2)] by simp_all
  have "find P (map f xs) = map_option f (find (P \<circ> f) xs)" for P :: "step_row \<Rightarrow> bool" and f :: "step_row \<Rightarrow> step_row" and xs
    by (induction xs) auto
  then have "step_at i k d' = map_option (\<lambda>x. if s_id x = s_id n then x\<lparr>s_task := t\<rparr> else x) (step_at i k d)"
    unfolding step_at_def assms(3) by (simp add: comp_def if_distrib [of s_chain] if_distrib [of s_index] cong: if_cong)
  then show ?thesis using assms(2) by simp
qed

text \<open>
  A success moves the chain on. When the step at the position of a running chain reports
  success, the chain settles as succeeded if there is no next step, stops to wait if the next step
  is gated (nothing is queued), and else takes the next position with exactly one task created,
  enqueued and bound to it.
\<close>

theorem chain_advances:
  assumes "run_steps (chain_work w) empty_db d" "get_chain (s_chain s) d = Some c" "c_status c = WRunning"
    and "c_settled_at c = None" "s_index s = c_index c" "a_success a = Some True"
    and "handle_chain_step w now trace s a d = Inr d'"
  shows "\<exists>c'. get_chain (s_chain s) d' = Some c' \<and>
    (case step_at (s_chain s) (c_index c + 1) d of
       None \<Rightarrow> c_status c' = WSucceeded \<and> c_settled_at c' = Some now
     | Some n \<Rightarrow> c_index c' = c_index c + 1 \<and>
         (if s_gate n then c_status c' = WWaiting \<and> d_steps d' = d_steps d \<and> d_queue d' = d_queue d
          else c_status c' = WRunning \<and> length (d_queue d') = Suc (length (d_queue d)) \<and>
            step_at (s_chain s) (c_index c + 1) d' = Some (n\<lparr>s_task := Some (d_next d)\<rparr>)))"
proof -
  have inv: "chain_inv d" by (rule reachable_chain_inv [OF assms(1)])
  note row = chain_row [OF inv assms(2)]
  have "chain_step_success w now trace s d = Inr d'"
    using assms(2,3,6,7) by (simp add: handle_chain_step_def)
  from this assms(2) show ?thesis
  proof (cases rule: chain_step_success_cases)
    case 1 then show ?thesis using assms(3,5) by simp
  next
    case 2
    obtain x e where x: "settle_chain now (s_chain s) WSucceeded d = (x, e)" by fastforce
    have "distinct (map c_id (d_chains d))" using inv by (simp add: chain_inv_def)
    from settle_chain_cases [OF x assms(2) this]
    have "d_chains d' = upd_where (\<lambda>c. c_id c = s_chain s) (settled_chain now WSucceeded) (d_chains d)"
      using 2(3) assms(3,4) by (auto simp: row(2) x terminal_wf_def)
    then have "get_chain (s_chain s) d' = Some (settled_chain now WSucceeded c)"
      by (intro get_chain_upd [OF assms(2) row(2)]) (simp add: settled_chain_def, assumption)
    then show ?thesis using 2(1,2) row(2) by (simp add: settled_chain_def)
  next
    case (3 n)
    have "get_chain (s_chain s) d' = Some (c\<lparr>c_index := s_index n, c_status := WWaiting, c_updated := now\<rparr>)"
      by (rule get_chain_upd [OF assms(2) row(2)]) (simp_all add: 3(4) row(2))
    then show ?thesis using 3 step_at_Some [OF 3(2)] row(2) by (simp add: upd_chain_def)
  next
    case (4 n)
    note q = queue_chain_step_Inr [OF 4(4)] queue_chain_step_msg [OF 4(4)]
    have "get_chain (s_chain s) d' = Some (c\<lparr>c_index := s_index n, c_updated := now\<rparr>)"
      by (rule get_chain_upd [OF assms(2) row(2)]) (simp_all add: q(1) row(2))
    moreover have "step_at (s_chain s) (c_index c + 1) d' = Some (n\<lparr>s_task := Some (d_next d)\<rparr>)"
      using step_at_rebound [of d "s_chain s" "c_index c + 1" n d' "Some (d_next d)"] 4(1,2) row(2) q(3) inv
      by (simp add: chain_inv_def)
    ultimately show ?thesis using 4 step_at_Some [OF 4(2)] row(2) assms(3) q(4) by (simp add: upd_chain_def)
  qed
qed

theorem chain_advances_witness:
  "\<exists>d' c'. handle_chain_step demo_world 3 None first_step first_step_attempt first_done = Inr d' \<and>
     get_chain (s_chain first_step) d' = Some c' \<and> c_index c' = 1 \<and> c_status c' = WRunning"
proof -
  let ?c = "the (get_chain (s_chain first_step) first_done)"
  let ?n = "the (step_at (s_chain first_step) (c_index ?c + 1) first_done)"
  have "get_chain (s_chain first_step) first_done \<noteq> None" by code_simp
  then have c: "get_chain (s_chain first_step) first_done = Some ?c" by simp
  have st: "c_status ?c = WRunning" "c_settled_at ?c = None" "s_index first_step = c_index ?c"
    "a_success first_step_attempt = Some True" "\<not> s_gate ?n" "c_index ?c = 0"
    by code_simp+
  have "step_at (s_chain first_step) (c_index ?c + 1) first_done \<noteq> None" by code_simp
  then obtain n where n: "step_at (s_chain first_step) (c_index ?c + 1) first_done = Some n" by blast
  have gate: "\<not> s_gate n" using st(5) unfolding n option.sel .
  have "\<not> isl (handle_chain_step demo_world 3 None first_step first_step_attempt first_done)" by code_simp
  then obtain d' where h: "handle_chain_step demo_world 3 None first_step first_step_attempt first_done = Inr d'"
    using ok_dbI by blast
  from chain_advances [OF first_done_run c st(1-4) h, unfolded n option.case] obtain c' where
    "get_chain (s_chain first_step) d' = Some c'" "c_index c' = c_index ?c + 1" "c_status c' = WRunning"
    unfolding if_not_P [OF gate] by blast
  then show ?thesis using h st(6) by auto
qed

end
