(* ===== verification/Qraft_Handler.thy ===== *)
theory Qraft_Handler
  imports Qraft_ChainRun
begin

text \<open>
  The completion path: \<^verbatim>\<open>qraft_hook_handler\<close> of
  \<^verbatim>\<open>qraft/hooks.py\<close> and the sweeps of \<^verbatim>\<open>qraft/reaper.py\<close>.
  \<^item> Neither is one transaction. \<open>resolve_completion\<close> is the transaction that settles an attempt,
    \<open>route\<close> the work after its commit; what the rest of the system commits in between is an
    argument (\<open>env\<close>). A function that may fail between two commits returns its result or error
    together with the database.
  \<^item> \<open>v\<close> is the database at the time the handler read the attempt with the chain step joined.
  \<^item> \<open>queued\<close> is what \<^verbatim>\<open>_queued_q2_task_ids\<close> reads from the broker's table, None when
    it cannot tell.
\<close>

section \<open>Operations over several transactions\<close>

type_synonym 'a run = "'a res \<times> db"

definition then_run :: "'a run \<Rightarrow> ('a \<Rightarrow> db \<Rightarrow> 'b run) \<Rightarrow> 'b run" where
  "then_run x f = (case x of (Inl e, d) \<Rightarrow> (Inl e, d) | (Inr a, d) \<Rightarrow> f a d)"

definition commit :: "db \<Rightarrow> ('a \<times> db) res \<Rightarrow> 'a run" where
  "commit d r = (case r of Inl e \<Rightarrow> (Inl e, d) | Inr (a, d') \<Rightarrow> (Inr a, d'))"

section \<open>Resolving an attempt\<close>

definition resolve_attempt :: "world \<Rightarrow> time \<Rightarrow> q2_row \<Rightarrow> db \<Rightarrow> (id option \<times> db) res" where
  "resolve_attempt w now q d =
     (case find (\<lambda>a. a_q2 a = Some (q_id q)) (d_attempts d) of
        Some a \<Rightarrow> Inr (Some (a_id a), d)
      | None \<Rightarrow> attempt_from_marker w now (q_name q) (q_id q) d)"

definition owning_workflow_cancelled :: "db \<Rightarrow> task_row \<Rightarrow> db \<Rightarrow> bool" where
  "owning_workflow_cancelled v t d =
     (if t_graph_node t \<noteq> None
      then (case Option.bind (t_graph_id t) (\<lambda>g. get_graph g d) of
          Some r \<Rightarrow> g_status r = GCancelled | None \<Rightarrow> False)
      else (case find (\<lambda>s. s_task s = Some (t_id t)) (d_steps v) of
          Some s \<Rightarrow> (case get_chain (s_chain s) d of Some c \<Rightarrow> c_status c = WCancelled | None \<Rightarrow> False)
        | None \<Rightarrow>
            (case Option.bind (if t_iter t \<noteq> None then t_iter t else t_batch t) (\<lambda>i. get_par i d) of
               Some p \<Rightarrow> p_status p = WCancelled | None \<Rightarrow> False)))"

definition mark_resolved :: "bool \<Rightarrow> time \<Rightarrow> string option \<Rightarrow> attempt_row \<Rightarrow> attempt_row" where
  "mark_resolved s t exc a = a\<lparr>a_success := Some s, a_completed := Some t, a_exc := exc\<rparr>"

definition mark_routed :: "id \<Rightarrow> db \<Rightarrow> db" where
  "mark_routed i d = upd_attempts (\<lambda>x. a_id x = i) (\<lambda>x. x\<lparr>a_routed := True\<rparr>) d"

text \<open>
  The retry and what it leaves: \<open>settle_retry\<close> is the tail that the handler and the reaper share,
  from the retry decision to the announcement. It returns the task as it then is.
\<close>

definition settle_retry ::
  "world \<Rightarrow> rat \<Rightarrow> time \<Rightarrow> bool \<Rightarrow> task_row \<Rightarrow> attempt_row \<Rightarrow> string option \<Rightarrow> db \<Rightarrow> (bool \<times> db) res" where
  "settle_retry w u now allowed t a result d =
     (if \<not> allowed then Inr (False, d)
      else rbind (handle_task_retry w u now t a result d) (\<lambda>(retry, d).
        Inr (retry, if retry then mark_routed (a_id a) d else d)))"

definition resolve_completion ::
  "world \<Rightarrow> rat \<Rightarrow> time \<Rightarrow> q2_row \<Rightarrow> attempt_row \<Rightarrow> db \<Rightarrow> db \<Rightarrow>
   ((task_row \<times> attempt_row \<times> bool) option \<times> db) res" where
  "resolve_completion w u now q a v d =
     (case get_task (a_task a) d of
        None \<Rightarrow> Inl DoesNotExist
      | Some t \<Rightarrow>
          (let exc = (if q_success q then None else extract_exception_class (q_result q));
               f = mark_resolved (q_success q) (q_stopped q) exc;
               P = (\<lambda>x. a_id x = a_id a \<and> a_success x = None) in
           if hits P (d_attempts d) = 0 then Inr (None, d)
           else
             (let st = set_task_status now (if q_success q then TSucceeded else TFailed);
                  d = upd_tasks (\<lambda>x. t_id x = t_id t) st (upd_attempts P f d) in
              rbind (settle_retry w u now (\<not> q_success q \<and> \<not> owning_workflow_cancelled v t d)
                       (st t) (f a) (q_result q) d) (\<lambda>(retry, d).
              case get_task (t_id t) d of
                None \<Rightarrow> Inl DoesNotExist
              | Some t \<Rightarrow>
                  Inr (Some (t, f a, retry),
                    announce_resolution (f a) t (if q_success q then Succeeded else Failed)
                      (\<not> retry) d)))))"

section \<open>Routing\<close>

text \<open>What follows the commit of a resolution that no retry absorbed.\<close>

definition route ::
  "world \<Rightarrow> time \<Rightarrow> string option \<Rightarrow> db \<Rightarrow> task_row \<Rightarrow> attempt_row \<Rightarrow> bool \<Rightarrow> db \<Rightarrow> db res" where
  "route w now trace v t a s d =
     (if t_graph_node t \<noteq> None
      then rbind (handle_node_completion w now t d) (\<lambda>d. Inr (dispatch_hooks w t a s d))
      else rbind (route_workflow_completion w now trace v t a d) (\<lambda>(handled, d).
        Inr (if handled then d else dispatch_hooks w t a s d)))"

definition route_and_mark ::
  "world \<Rightarrow> time \<Rightarrow> string option \<Rightarrow> db \<Rightarrow> task_row \<Rightarrow> attempt_row \<Rightarrow> bool \<Rightarrow> db \<Rightarrow> unit run" where
  "route_and_mark w now trace v t a s d =
     commit d (rbind (route w now trace v t a s d) (\<lambda>d. Inr ((), mark_routed (a_id a) d)))"

definition qraft_hook_handler ::
  "world \<Rightarrow> rat \<Rightarrow> time \<Rightarrow> string option \<Rightarrow> (db \<Rightarrow> db) \<Rightarrow> (db \<Rightarrow> db) \<Rightarrow> q2_row \<Rightarrow> db \<Rightarrow> unit run" where
  "qraft_hook_handler w u now trace env env' q d =
     then_run (commit d (resolve_attempt w now q d)) (\<lambda>i d.
     case Option.bind i (\<lambda>i. get_attempt i d) of
       None \<Rightarrow> (Inr (), d)
     | Some a \<Rightarrow>
         then_run (commit (env d) (resolve_completion w u now q a d (env d))) (\<lambda>res d'.
         case res of
           None \<Rightarrow> (Inr (), d')
         | Some (t, a, retry) \<Rightarrow>
             if retry then (Inr (), d')
             else route_and_mark w now trace d t a (q_success q) (env' d')))"

section \<open>The reaper's sweeps\<close>

definition heartbeat_grace :: "world \<Rightarrow> secs" where
  "heartbeat_grace w = max (3 * w_heartbeat_interval w) (w_min_grace w)"

definition grace_or :: "world \<Rightarrow> secs option \<Rightarrow> secs" where
  "grace_or w g = (case g of Some x \<Rightarrow> x | None \<Rightarrow> heartbeat_grace w)"

definition before :: "time option \<Rightarrow> time \<Rightarrow> bool" where
  "before t cutoff = (case t of Some x \<Rightarrow> x < cutoff | None \<Rightarrow> False)"

definition rearm_stuck_claims :: "world \<Rightarrow> time \<Rightarrow> secs option \<Rightarrow> db \<Rightarrow> nat \<times> db" where
  "rearm_stuck_claims w now g d =
     (let P = (\<lambda>a. a_state a = Queued \<and> a_q2 a = None \<and> a_success a = None \<and>
                before (a_claimed_at a) (now - grace_or w g)) in
      (hits P (d_attempts d),
       upd_attempts P (\<lambda>a. a\<lparr>a_state := Scheduled, a_claimed_at := None\<rparr>) d))"

definition task_running :: "db \<Rightarrow> attempt_row \<Rightarrow> bool" where
  "task_running d a \<longleftrightarrow> (case get_task (a_task a) d of Some t \<Rightarrow> t_status t = TRunning | None \<Rightarrow> False)"

definition unresolved_q2 :: "db \<Rightarrow> q2id list" where
  "unresolved_q2 d = map (\<lambda>a. the (a_q2 a)) (filter (\<lambda>a. a_success a = None \<and> task_running d a \<and>
     a_state a = Queued \<and> a_q2 a \<noteq> None) (d_attempts d))"

fun each :: "('a \<Rightarrow> db \<Rightarrow> bool run) \<Rightarrow> 'a list \<Rightarrow> db \<Rightarrow> nat run" where
  "each f [] d = (Inr 0, d)"
| "each f (x # xs) d =
     then_run (f x d) (\<lambda>b d.
     then_run (each f xs d) (\<lambda>n d. (Inr (if b then Suc n else n), d)))"

definition did :: "unit run \<Rightarrow> bool run" where
  "did x = then_run x (\<lambda>_ d. (Inr True, d))"

definition reconcile_finished ::
  "world \<Rightarrow> rat \<Rightarrow> time \<Rightarrow> string option \<Rightarrow> secs option \<Rightarrow> db \<Rightarrow> nat run" where
  "reconcile_finished w u now trace g d =
     each (\<lambda>q d. did (qraft_hook_handler w u now trace id id q d))
       (filter (\<lambda>q. q_id q \<in> set (unresolved_q2 d) \<and> q_stopped q < now - grace_or w g) (d_q2 d)) d"

definition replay_unrouted :: "world \<Rightarrow> time \<Rightarrow> string option \<Rightarrow> secs option \<Rightarrow> db \<Rightarrow> nat run" where
  "replay_unrouted w now trace g v =
     each (\<lambda>a d. case get_task (a_task a) v of
               None \<Rightarrow> (Inr False, d)
             | Some t \<Rightarrow> did (route_and_mark w now trace v t a (a_success a = Some True) d))
       (filter (\<lambda>a. a_success a \<noteq> None \<and> \<not> a_routed a \<and> before (a_completed a) (now - grace_or w g))
          (d_attempts v)) v"

text \<open>\<open>moved a\<close> is when the attempt last advanced, \<open>v\<close> the rows as the sweep read them.\<close>

definition moved :: "attempt_row \<Rightarrow> time option" where
  "moved a = (case a_advanced_at a of Some t \<Rightarrow> Some t | None \<Rightarrow> a_started a)"

definition stall_candidate :: "world \<Rightarrow> time \<Rightarrow> secs option \<Rightarrow> db \<Rightarrow> attempt_row \<Rightarrow> bool" where
  "stall_candidate w now g d a \<longleftrightarrow>
     a_success a = None \<and> a_stall_at a = None \<and> a_started a \<noteq> None \<and>
     (case a_heartbeat a of Some h \<Rightarrow> now - grace_or w g \<le> h | None \<Rightarrow> False) \<and> task_running d a \<and>
     (case get_task (a_task a) d of None \<Rightarrow> False
      | Some t \<Rightarrow> (case (t_stall_after t, moved a) of
            (Some s, Some m) \<Rightarrow> s \<le> now - m | _ \<Rightarrow> False))"

definition flag_stall :: "time \<Rightarrow> attempt_row \<Rightarrow> db \<Rightarrow> bool run" where
  "flag_stall now a d =
     (let P = (\<lambda>x. a_id x = a_id a \<and> a_stall_at x = None \<and> a_success x = None \<and> task_running d x) in
      if hits P (d_attempts d) = 0 then (Inr False, d)
      else (Inr True, emit (StallSuspected (a_id a))
              (upd_attempts P (\<lambda>x. x\<lparr>a_stall_at := Some now\<rparr>) d)))"

definition flag_stalls :: "world \<Rightarrow> time \<Rightarrow> secs option \<Rightarrow> db \<Rightarrow> nat run" where
  "flag_stalls w now g d = each (flag_stall now) (filter (stall_candidate w now g d) (d_attempts d)) d"

section \<open>Reaping\<close>

text \<open>
  The transaction of \<^verbatim>\<open>_reap_one\<close>. Its result: nothing to do, the output was
  committed (the node completes after the commit), or the failure was recorded and a retry
  absorbed it or not.
\<close>

datatype reaped =
    NotReaped
  | Committed task_row attempt_row
  | Absorbed
  | Routable task_row attempt_row

definition resolve_committed :: "time \<Rightarrow> attempt_row \<Rightarrow> task_row \<Rightarrow> db \<Rightarrow> reaped \<times> db" where
  "resolve_committed now a t d =
     (let f = mark_resolved True now None; st = set_task_status now TSucceeded in
      (Committed (st t) (f a),
       mark_routed (a_id a) (upd_tasks (\<lambda>x. t_id x = t_id t) st
         (upd_attempts (\<lambda>x. a_id x = a_id a) f d))))"

definition reap_exception :: "attempt_row \<Rightarrow> string" where
  "reap_exception a = (if a_returned_at a \<noteq> None then ''ResultLost'' else ''OrphanedTask'')"

definition reap_failure ::
  "world \<Rightarrow> rat \<Rightarrow> time \<Rightarrow> attempt_row \<Rightarrow> task_row \<Rightarrow> db \<Rightarrow> (reaped \<times> db) res" where
  "reap_failure w u now a t d =
     (let f = mark_resolved False now (Some (reap_exception a));
          d = upd_attempts (\<lambda>x. a_id x = a_id a) f d in
      rbind (settle_retry w u now (\<not> owning_workflow_cancelled d t d) t (f a) None d) (\<lambda>(retry, d).
      let d = (if retry then d
               else upd_tasks (\<lambda>x. t_id x = t_id t \<and> t_status x = TRunning)
                      (set_task_status now TFailed) d) in
      case get_task (t_id t) d of
        None \<Rightarrow> Inl DoesNotExist
      | Some t \<Rightarrow>
          Inr (if retry then Absorbed else Routable t (f a),
            announce_resolution (f a) t Orphaned (\<not> retry) d)))"

definition reap_transaction ::
  "world \<Rightarrow> rat \<Rightarrow> time \<Rightarrow> time \<Rightarrow> id \<Rightarrow> db \<Rightarrow> (reaped \<times> db) res" where
  "reap_transaction w u now cutoff i d =
     (case get_attempt i d of
        None \<Rightarrow> Inr (NotReaped, d)
      | Some a \<Rightarrow>
          (case get_task (a_task a) d of
             None \<Rightarrow> Inl DoesNotExist
           | Some t \<Rightarrow>
               if a_success a \<noteq> None \<or> t_status t \<noteq> TRunning then Inr (NotReaped, d)
               else if a_heartbeat a \<noteq> None \<and> \<not> before (a_heartbeat a) cutoff then Inr (NotReaped, d)
               else if exists_where (\<lambda>q. a_q2 a = Some (q_id q)) (d_q2 d) then Inr (NotReaped, d)
               else if a_committed_at a \<noteq> None then Inr (resolve_committed now a t d)
               else reap_failure w u now a t d))"

definition reap_one ::
  "world \<Rightarrow> rat \<Rightarrow> time \<Rightarrow> string option \<Rightarrow> (db \<Rightarrow> db) \<Rightarrow> time \<Rightarrow> id \<Rightarrow> db \<Rightarrow> bool run" where
  "reap_one w u now trace env cutoff i d =
     then_run (commit d (reap_transaction w u now cutoff i d)) (\<lambda>r d.
     case r of
       NotReaped \<Rightarrow> (Inr False, d)
     | Absorbed \<Rightarrow> (Inr True, d)
     | Committed t a \<Rightarrow> did (commit (env d) (rbind (handle_node_completion w now t (env d)) (\<lambda>d. Inr ((), d))))
     | Routable t a \<Rightarrow> did (route_and_mark w now trace (env d) t a False (env d)))"

definition orphaned :: "world \<Rightarrow> secs option \<Rightarrow> time \<Rightarrow> q2id list option \<Rightarrow> db \<Rightarrow> id list" where
  "orphaned w stale now queued d =
     (let cutoff = now - heartbeat_grace w;
          stale_cutoff = now - (case stale of Some s \<Rightarrow> s | None \<Rightarrow> w_stale_after w);
          open_rows = filter (\<lambda>a. a_success a = None \<and> task_running d a \<and> a_state a = Queued \<and>
            a_q2 a \<noteq> None \<and> \<not> exists_where (\<lambda>q. a_q2 a = Some (q_id q)) (d_q2 d)) (d_attempts d);
          never = filter (\<lambda>a. a_heartbeat a = None \<and>
            (if a_claimed_at a = None then a_created a < stale_cutoff
             else before (a_claimed_at a) stale_cutoff)) open_rows in
      map a_id (filter (\<lambda>a. before (a_heartbeat a) cutoff) open_rows) @
      (case queued of
         None \<Rightarrow> []
       | Some qs \<Rightarrow> map a_id (filter (\<lambda>a. the (a_q2 a) \<notin> set qs) never)))"

definition reap_orphans ::
  "world \<Rightarrow> rat \<Rightarrow> time \<Rightarrow> string option \<Rightarrow> secs option \<Rightarrow> q2id list option \<Rightarrow> db \<Rightarrow> nat run" where
  "reap_orphans w u now trace stale queued d =
     (let g = Some (heartbeat_grace w); cutoff = now - heartbeat_grace w in
      then_run (reconcile_finished w u now trace g d) (\<lambda>_ d.
      then_run (replay_unrouted w now trace g d) (\<lambda>_ d.
      let d = snd (flag_overdue w now d) in
      then_run (commit d (replay_settled_hooks w now (heartbeat_grace w) d)) (\<lambda>_ d.
      then_run (each (\<lambda>i d. reap_one w u now trace id cutoff i d) (orphaned w stale now queued d) d) (\<lambda>n d.
      then_run (flag_stalls w now g d) (\<lambda>_ d. (Inr n, d)))))))"

end
