(* ===== verification/Qraft_Resolve.thy ===== *)
theory Qraft_Resolve
  imports Qraft_Handler Qraft_GraphProps
begin

text \<open>
  Correctness of the completion path: an attempt is resolved once and its outcome is final, a
  failure is retried or left terminal, routing can be replayed without effect, and the reaper's
  sweeps leave nothing unrouted.
\<close>

section \<open>Work that resolves nothing\<close>

text \<open>
  \<open>quiet\<close>: what an operation does that resolves and routes no attempt: it may append unresolved
  attempts under fresh ids and announces no outcome.
\<close>

definition att_view :: "db \<Rightarrow> (id \<times> bool option) list" where
  "att_view d = map (\<lambda>a. (a_id a, a_success a)) (d_attempts d)"

definition routed :: "id \<Rightarrow> db \<Rightarrow> bool" where
  "routed i d \<longleftrightarrow> (\<exists>a \<in> set (d_attempts d). a_id a = i \<and> a_routed a)"

definition finished :: "id \<Rightarrow> db \<Rightarrow> nat" where
  "finished i d = hits (\<lambda>e. case e of AttemptFinished j _ \<Rightarrow> j = i | _ \<Rightarrow> False) (d_events d)"

definition quiet :: "db \<Rightarrow> db \<Rightarrow> bool" where
  "quiet d d' \<longleftrightarrow> d_next d \<le> d_next d' \<and> (\<forall>i. finished i d' = finished i d) \<and>
     (\<forall>i. routed i d \<longrightarrow> routed i d') \<and>
     (\<exists>xs. att_view d' = att_view d @ map (\<lambda>i. (i, None)) xs \<and> distinct xs \<and>
        set xs \<subseteq> {d_next d..<d_next d'})"

lemma quiet_refl [simp]: "quiet d d"
  by (auto simp: quiet_def intro: exI [of _ "[]"])

lemma quiet_trans:
  assumes "quiet a b" "quiet b c"
  shows "quiet a c"
proof -
  obtain xs ys where "att_view b = att_view a @ map (\<lambda>i. (i, None)) xs" "distinct xs"
    "set xs \<subseteq> {d_next a..<d_next b}" "d_next a \<le> d_next b"
    "att_view c = att_view b @ map (\<lambda>i. (i, None)) ys" "distinct ys"
    "set ys \<subseteq> {d_next b..<d_next c}" "d_next b \<le> d_next c"
    using assms unfolding quiet_def by blast
  moreover from this have "set xs \<inter> set ys = {}" by fastforce
  ultimately have "att_view c = att_view a @ map (\<lambda>i. (i, None)) (xs @ ys) \<and> distinct (xs @ ys) \<and>
      set (xs @ ys) \<subseteq> {d_next a..<d_next c}"
    by (auto simp: subset_iff)
  moreover have "d_next a \<le> d_next c" "finished i c = finished i a" "routed i a \<Longrightarrow> routed i c" for i
    using assms unfolding quiet_def by auto
  ultimately show ?thesis unfolding quiet_def by blast
qed

text \<open>The view that most operations keep: nothing resolved, routed or appended.\<close>

definition same_atts :: "db \<Rightarrow> db \<Rightarrow> bool" where
  "same_atts d d' \<longleftrightarrow> map (\<lambda>a. (a_id a, a_success a, a_routed a)) (d_attempts d') =
     map (\<lambda>a. (a_id a, a_success a, a_routed a)) (d_attempts d)"

lemma same_atts_D:
  assumes "same_atts d d'"
  shows "att_view d' = att_view d" "routed i d' = routed i d"
proof -
  let ?v = "\<lambda>d. map (\<lambda>a. (a_id a, a_success a, a_routed a)) (d_attempts d)"
  have a: "att_view d = map (\<lambda>(i, s, r). (i, s)) (?v d)" for d by (simp add: att_view_def)
  have r: "routed i d = (i \<in> fst ` set (filter (\<lambda>(i, s, r). r) (?v d)))" for d
    by (auto simp: routed_def image_iff)
  show "att_view d' = att_view d" "routed i d' = routed i d"
    unfolding a r using assms [unfolded same_atts_def] by simp_all
qed

lemma same_attsI: "d_attempts d' = d_attempts d \<Longrightarrow> same_atts d d'"
  by (simp add: same_atts_def)

lemma quiet_same:
  "same_atts d d' \<Longrightarrow> d_next d' = d_next d \<Longrightarrow> d_events d' = d_events d \<Longrightarrow> quiet d d'"
  by (auto simp: quiet_def finished_def same_atts_D intro: exI [of _ "[]"])

lemma quiet_emit: "(\<And>i out. e \<noteq> AttemptFinished i out) \<Longrightarrow> quiet d (emit e d)"
  by (cases e) (auto simp: quiet_def finished_def hits_append att_view_def routed_def intro!: exI [of _ "[]"])

lemma quiet_insert_task: "quiet d (insert_task t d)"
  by (auto simp: quiet_def finished_def insert_task_def att_view_def routed_def intro: exI [of _ "[]"])

lemma schedule_attempt_quiet:
  assumes "schedule_attempt now task n nb cl f args d = Inr (i, d')"
  shows "quiet d d'"
proof -
  obtain a where a: "i = d_next d" "a_id a = i" "a_success a = None" "a_routed a = False"
    "d_attempts d' = d_attempts d @ [a]" "d_next d' = Suc (d_next d)"
    using assms by (rule schedule_attempt_Inr)
  have "d_events d' = d_events d"
    using assms by (auto simp: schedule_attempt_def Let_def rbind_Inr insert_attempt_Inr split: if_splits)
  then show ?thesis using a
    by (auto simp: quiet_def finished_def att_view_def routed_def intro!: exI [of _ "[i]"])
qed

lemma create_and_enqueue_quiet:
  assumes "create_and_enqueue w now trace t m d = Inr (i, q, d')"
  shows "quiet d d'"
proof -
  obtain t' a where "a_id a = Suc (d_next d)" "a_success a = None" "a_routed a = False"
    "d' = d\<lparr>d_tasks := d_tasks d @ [t'], d_attempts := d_attempts d @ [a],
       d_queue := d_queue d @ [(q, m)], d_next := Suc (Suc (d_next d))\<rparr>"
    using assms by (rule create_and_enqueue_Inr)
  then show ?thesis
    by (auto simp: quiet_def finished_def att_view_def routed_def intro!: exI [of _ "[Suc (d_next d)]"])
qed

section \<open>Routing is quiet\<close>

lemma dispatch_hooks_quiet: "quiet d (dispatch_hooks w t a s d)"
  by (rule quiet_same) (simp_all add: same_atts_def)

lemma dispatch_workflow_hook_quiet: "quiet d (dispatch_workflow_hook w now ty i h p as kw c g d)"
  by (rule quiet_same) (simp_all add: same_atts_def)

lemma dispatch_settled_hook_quiet: "quiet d (dispatch_settled_hook w now s d)"
  by (auto simp: dispatch_settled_hook_def dispatch_settlement_def dispatch_workflow_hook_quiet split: option.splits)

lemma dispatch_node_quiet: "dispatch_node w now r n d = Inr d' \<Longrightarrow> quiet d d'"
  unfolding dispatch_node_def Let_def
  by (elim rbindE) (auto intro!: quiet_trans [OF quiet_insert_task quiet_trans [OF schedule_attempt_quiet quiet_same]]
      simp: same_atts_def)

lemma dispatch_all_quiet: "dispatch_all w now r ns d = Inr d' \<Longrightarrow> quiet d d'"
proof (induction ns arbitrary: d)
  case (Cons n ns)
  then obtain e where "(if n_gate n then Inr (upd_nodes (\<lambda>x. n_id x = n_id n \<and> n_status x = NPending)
      (\<lambda>x. x\<lparr>n_status := NWaiting\<rparr>) d) else dispatch_node w now r n d) = Inr e" "dispatch_all w now r ns e = Inr d'"
    by (auto elim!: rbindE)
  moreover from this(1) have "quiet d e"
    by (auto intro: dispatch_node_quiet quiet_same simp: same_atts_def split: if_splits)
  ultimately show ?case using Cons.IH quiet_trans by blast
qed simp

lemma dispatch_frontier_quiet: "dispatch_frontier w now g d = Inr d' \<Longrightarrow> quiet d d'"
  by (auto simp: dispatch_frontier_def elim!: rbindE split: if_splits intro: dispatch_all_quiet)

lemma record_settlement_quiet: "record_settlement r d = Inr d' \<Longrightarrow> quiet d d'"
  by (erule record_settlement_effect) (auto intro!: quiet_same same_attsI)

lemma settle_quiet:
  assumes "settle w now r s d = Inr (x, d')"
  shows "quiet d d'"
proof -
  have "quiet d (upd_graphs P F d)" for P F by (rule quiet_same) (simp_all add: same_atts_def)
  note q = quiet_trans [OF quiet_trans [OF this record_settlement_quiet] quiet_emit]
  from assms show ?thesis
    by (auto simp: settle_def Let_def elim!: rbindE split: if_splits intro: q)
qed

lemma maybe_settle_quiet: "maybe_settle w now r d = Inr (x, d') \<Longrightarrow> quiet d d'"
  by (auto simp: maybe_settle_def Let_def intro: settle_quiet quiet_same simp: same_atts_def split: if_splits)

lemma record_completion_quiet:
  assumes "record_completion w now g n task out d = Inr (x, d')"
  shows "quiet d d'"
proof -
  let ?e = "\<lambda>y. emit (NodeSettled g (n_key y) (n_generation y) (n_status y))
    (upd_nodes (\<lambda>x. n_id x = n \<and> n_settled_at x = None) (\<lambda>x. x\<lparr>n_status := out, n_settled_at := Some now\<rparr>) d)"
  have e: "quiet d (?e y)" for y
    by (rule quiet_trans [OF quiet_same quiet_emit]) (simp_all add: same_atts_def)
  note front = quiet_trans [OF quiet_trans [OF e dispatch_frontier_quiet] maybe_settle_quiet]
  from assms show ?thesis
    unfolding record_completion_def Let_def
    by (elim rbindE) (auto elim!: rbindE split: if_splits option.splits intro: e front)
qed

lemma handle_node_completion_quiet: "handle_node_completion w now t d = Inr d' \<Longrightarrow> quiet d d'"
  by (auto simp: handle_node_completion_def elim!: rbindE split: option.splits
      intro: quiet_trans [OF record_completion_quiet dispatch_settled_hook_quiet])

lemma create_workflow_task_quiet:
  assumes "create_workflow_task w now trace f as kw opts pa lb d = Inr (i, q, d')"
  shows "quiet d d'"
proof -
  from assms obtain t m where "create_and_enqueue w now trace t m d = Inr (i, q, d')"
    unfolding create_workflow_task_def Let_def by (elim rbindE) (auto split: prod.splits)
  then show ?thesis by (rule create_and_enqueue_quiet)
qed

lemma queue_chain_step_quiet: "queue_chain_step w now trace c s d = Inr d' \<Longrightarrow> quiet d d'"
  by (auto simp: queue_chain_step_def elim!: rbindE split: prod.splits
      intro!: quiet_trans [OF create_workflow_task_quiet quiet_same] same_attsI)

lemma settle_chain_quiet: "settle_chain now i s d = (x, d') \<Longrightarrow> quiet d d'"
  by (auto simp: settle_chain_def Let_def split: if_splits
      intro!: quiet_trans [OF quiet_same quiet_emit] same_attsI)

lemma dispatch_chain_hook_quiet: "quiet d (dispatch_chain_hook w now c b d)"
  by (auto simp: dispatch_chain_hook_def Let_def dispatch_workflow_hook_quiet split: option.splits)

lemma complete_chain_quiet: "complete_chain w now i b d = Inr d' \<Longrightarrow> quiet d d'"
  by (auto simp: complete_chain_def split: option.splits if_splits prod.splits
      intro: settle_chain_quiet quiet_trans [OF settle_chain_quiet dispatch_chain_hook_quiet])

lemma chain_step_success_quiet:
  assumes "chain_step_success w now trace s d = Inr d'"
  shows "quiet d d'"
proof -
  have u: "quiet d (upd_chain i F d)" for i F
    by (rule quiet_same) (simp_all add: same_atts_def upd_chain_def)
  show ?thesis using assms
    by (auto simp: chain_step_success_def split: option.splits if_splits prod.splits elim!: rbindE
        intro: u settle_chain_quiet quiet_trans [OF settle_chain_quiet dispatch_chain_hook_quiet]
          quiet_trans [OF u queue_chain_step_quiet])
qed

lemma handle_chain_step_quiet: "handle_chain_step w now trace s a d = Inr d' \<Longrightarrow> quiet d d'"
  by (auto simp: handle_chain_step_def split: option.splits if_splits elim!: rbindE
      intro: chain_step_success_quiet complete_chain_quiet)

lemma handle_parallel_quiet:
  assumes "handle_parallel w now i a d = Inr d'"
  shows "quiet d d'"
proof -
  have settle: "quiet d e" if "settle_par now ty i s d = (x, e)" for ty s x d e
    using that by (auto simp: settle_par_def Let_def split: if_splits
        intro!: quiet_trans [OF quiet_same quiet_emit] same_attsI)
  have count: "quiet d (upd_pars P F (upd_attempts Q (\<lambda>x. x\<lparr>a_counted := True\<rparr>) d))" for P F Q
    by (rule quiet_same) (simp_all add: same_atts_def map_upd_where)
  have inc: "quiet d e" if "atomic_increment now i aid s d = Inr (out, p, e)" for aid s out p e
    using that
    by (auto simp: atomic_increment_def Let_def split: option.splits if_splits prod.splits
        intro: count quiet_trans [OF count settle])
  have hook: "quiet e (dispatch_par_hook w now p e)" "quiet e (dispatch_progress_hook w p e)" for p e
    by (auto simp: dispatch_par_hook_def dispatch_progress_hook_def Let_def q2_async_task_def
        dispatch_workflow_hook_quiet split: option.splits sum.splits prod.splits
        intro!: quiet_same same_attsI)
  from assms have "d' = d \<or> (\<exists>out p e. atomic_increment now i (a_id a) (a_success a = Some True) d = Inr (out, p, e) \<and>
      d' = (case out of Complete \<Rightarrow> dispatch_par_hook w now p e | Partial \<Rightarrow> dispatch_progress_hook w p e | Noop \<Rightarrow> e))"
    by (auto simp: handle_parallel_def elim!: rbindE split: if_splits prod.splits)
  then show ?thesis
  proof (elim disjE exE conjE)
    fix out p e assume e: "atomic_increment now i (a_id a) (a_success a = Some True) d = Inr (out, p, e)"
      and "d' = (case out of Complete \<Rightarrow> dispatch_par_hook w now p e | Partial \<Rightarrow> dispatch_progress_hook w p e | Noop \<Rightarrow> e)"
    then show ?thesis using quiet_trans [OF inc [OF e]] inc [OF e] hook by (cases out) simp_all
  qed simp
qed

lemma route_quiet: "route w now trace v t a s d = Inr d' \<Longrightarrow> quiet d d'"
  by (auto simp: route_def route_workflow_completion_def elim!: rbindE split: option.splits if_splits
      intro: handle_chain_step_quiet handle_parallel_quiet dispatch_hooks_quiet
        quiet_trans [OF handle_node_completion_quiet dispatch_hooks_quiet])

section \<open>An attempt is resolved once\<close>

definition settled_as :: "id \<Rightarrow> db \<Rightarrow> bool option" where
  "settled_as i d = Option.bind (get_attempt i d) a_success"

definition resolve_inv :: "db \<Rightarrow> bool" where
  "resolve_inv d \<longleftrightarrow> distinct (map a_id (d_attempts d)) \<and> (\<forall>a \<in> set (d_attempts d). a_id a < d_next d) \<and>
     (\<forall>i. finished i d \<le> (if settled_as i d = None then 0 else 1))"

text \<open>
  \<open>resolves i s d d'\<close>: the operation gives attempt \<open>i\<close>, which had none, the outcome \<open>s\<close>, announces
  it at most once, and does nothing else that a resolution can tell.
\<close>

definition resolves :: "id \<Rightarrow> bool \<Rightarrow> db \<Rightarrow> db \<Rightarrow> bool" where
  "resolves i s d d' \<longleftrightarrow> settled_as i d = None \<and>
     (\<exists>e f. d_attempts e = upd_where (\<lambda>a. a_id a = i) f (d_attempts d) \<and>
        (\<forall>a. a_id (f a) = a_id a \<and> a_success (f a) = Some s) \<and>
        d_next e = d_next d \<and> (\<forall>j. finished j e \<le> finished j d + (if j = i then 1 else 0)) \<and> quiet e d')"

lemma settled_as_view: "settled_as i d = Option.bind (find (\<lambda>(j, s). j = i) (att_view d)) snd"
proof -
  have "Option.bind (get_by a_id i rs) a_success =
      Option.bind (find (\<lambda>(j, s). j = i) (map (\<lambda>a. (a_id a, a_success a)) rs)) snd" for rs
    by (induction rs) auto
  then show ?thesis by (simp add: settled_as_def get_attempt_def att_view_def)
qed

lemma find_after: "find P (xs @ ys) = (case find P xs of Some x \<Rightarrow> Some x | None \<Rightarrow> find P ys)"
  by (induction xs) auto

lemma find_new: "Option.bind (find (\<lambda>(j, s). j = i) (map (\<lambda>i. (i, None)) xs)) snd = None"
  by (induction xs) auto

lemma settled_as_quiet: "quiet d d' \<Longrightarrow> settled_as i d' = settled_as i d"
  by (auto simp: quiet_def settled_as_view find_after find_new split: option.splits)

lemma quiet_inv:
  assumes inv: "resolve_inv d" and q: "quiet d d'"
  shows "resolve_inv d'"
proof -
  obtain xs where xs: "att_view d' = att_view d @ map (\<lambda>i. (i, None)) xs" "distinct xs"
    "set xs \<subseteq> {d_next d..<d_next d'}" "d_next d \<le> d_next d'" "\<And>i. finished i d' = finished i d"
    using q unfolding quiet_def by blast
  have ids: "map a_id (d_attempts e) = map fst (att_view e)" for e by (simp add: att_view_def comp_def)
  have att: "map a_id (d_attempts d') = map a_id (d_attempts d) @ xs"
    by (simp add: ids xs(1) comp_def)
  have "set (map a_id (d_attempts d)) \<inter> set xs = {}"
    using inv xs(3) by (fastforce simp: resolve_inv_def)
  then have dst: "distinct (map a_id (d_attempts d'))"
    using inv xs(2) unfolding att by (simp add: resolve_inv_def)
  have "a_id a < d_next d'" if "a \<in> set (d_attempts d')" for a
  proof -
    have "a_id a \<in> set (map a_id (d_attempts d) @ xs)"
      using that att by (metis image_eqI set_map)
    then show ?thesis using inv xs(3,4) by (fastforce simp: resolve_inv_def)
  qed
  then show ?thesis using inv dst xs(5) settled_as_quiet [OF q] by (simp add: resolve_inv_def)
qed

lemma resolves_settled:
  assumes "resolves i s d d'" "get_attempt i d \<noteq> None"
  shows "settled_as j d' = (if j = i then Some s else settled_as j d)"
proof -
  obtain e f where e: "d_attempts e = upd_where (\<lambda>a. a_id a = i) f (d_attempts d)"
      "\<And>a. a_id (f a) = a_id a" "\<And>a. a_success (f a) = Some s" "quiet e d'"
    using assms(1) unfolding resolves_def by blast
  have "get_attempt j e = map_option (\<lambda>a. if a_id a = i then f a else a) (get_attempt j d)" for j
    using e(2) by (simp add: get_attempt_def e(1) get_by_upd_where)
  then have "settled_as j e = (if j = i then Some s else settled_as j d)"
    using assms(2) e(3) by (cases "get_attempt j d") (auto simp: settled_as_def get_attempt_def dest: get_by_SomeD)
  then show ?thesis using settled_as_quiet [OF e(4)] by simp
qed

lemma resolves_inv:
  assumes inv: "resolve_inv d" and r: "resolves i s d d'" and ex: "get_attempt i d \<noteq> None"
  shows "resolve_inv d'"
proof -
  obtain e f where e: "d_attempts e = upd_where (\<lambda>a. a_id a = i) f (d_attempts d)"
      "\<And>a. a_id (f a) = a_id a" "\<And>a. a_success (f a) = Some s" "d_next e = d_next d"
      "\<And>j. finished j e \<le> finished j d + (if j = i then 1 else 0)" "quiet e d'" "settled_as i d = None"
    using r unfolding resolves_def by blast
  have s: "settled_as j e = (if j = i then Some s else settled_as j d)" for j
    using settled_as_quiet [OF e(6)] resolves_settled [OF r ex] by simp
  have "finished j e \<le> (if settled_as j e = None then 0 else 1)" for j
  proof (cases "j = i")
    case True
    have "finished i d = 0" using inv e(7) by (auto simp: resolve_inv_def dest: spec [of _ i])
    then show ?thesis using e(5) [of i] s True by simp
  next
    case False
    have "finished j d \<le> (if settled_as j d = None then 0 else 1)" using inv by (simp add: resolve_inv_def)
    then show ?thesis using e(5) [of j] s False by simp
  qed
  moreover have "map a_id (d_attempts e) = map a_id (d_attempts d)" by (simp add: e(1,2) map_upd_where)
  ultimately have "resolve_inv e" using inv e(2,4)
    by (auto simp: resolve_inv_def e(1) set_upd_where)
  then show ?thesis using e(6) by (rule quiet_inv)
qed

lemma quiet_emit_both: "quiet d d' \<Longrightarrow> quiet (emit e d) (emit e d')"
  by (simp add: quiet_def finished_def hits_append att_view_def routed_def)

lemma upd_tasks_quiet: "quiet d (upd_tasks P f d)"
  by (rule quiet_same) (simp_all add: same_atts_def)

lemma mark_routed_quiet: "quiet d (mark_routed i d)"
proof -
  have "att_view (mark_routed i d) = att_view d" by (simp add: att_view_def mark_routed_def map_upd_where)
  moreover have "routed j (mark_routed i d)" if "routed j d" for j
  proof -
    obtain a where a: "a \<in> set (d_attempts d)" "a_id a = j" "a_routed a"
      using \<open>routed j d\<close> unfolding routed_def by blast
    let ?a = "if a_id a = i then a\<lparr>a_routed := True\<rparr> else a"
    have "?a \<in> set (d_attempts (mark_routed i d))" using a(1) by (simp add: mark_routed_def upd_where_def)
    moreover have "a_id ?a = j" "a_routed ?a" using a(2,3) by simp_all
    ultimately show ?thesis unfolding routed_def by blast
  qed
  ultimately show ?thesis by (auto simp: quiet_def finished_def mark_routed_def intro: exI [of _ "[]"])
qed

lemma handle_task_retry_quiet:
  assumes "handle_task_retry w u now t a result d = Inr (r, d')"
  shows "quiet d d'"
proof -
  have "d' = d \<or> d' = upd_tasks (\<lambda>x. t_id x = t_id t) (set_task_status now TExhausted) d \<or>
      (\<exists>i n nb cl. schedule_attempt now (t_id t) n nb cl None None d = Inr (i, d'))"
    using assms by (auto simp: handle_task_retry_def schedule_retry_def Let_def elim!: rbindE split: if_splits)
  then show ?thesis using schedule_attempt_quiet upd_tasks_quiet by (elim disjE exE) auto
qed

lemma settle_retry_quiet: "settle_retry w u now b t a result d = Inr (r, d') \<Longrightarrow> quiet d d'"
  by (auto simp: settle_retry_def elim!: rbindE split: if_splits prod.splits
      intro: handle_task_retry_quiet quiet_trans [OF handle_task_retry_quiet mark_routed_quiet])

lemma announced_quiet:
  assumes "quiet d d'"
  shows "quiet (emit (AttemptFinished (a_id a) out) d) (announce_resolution a t out settled d')"
proof (cases settled)
  case True
  then show ?thesis
    using quiet_trans [OF quiet_emit_both [OF assms] quiet_emit [of "TaskSettled (t_id t) out"]]
    by (simp add: announce_resolution_def)
qed (simp add: announce_resolution_def quiet_emit_both [OF assms])

text \<open>Recording an outcome on one open attempt.\<close>

lemma resolvesI:
  assumes "distinct (map a_id (d_attempts d))" "x \<in> set (d_attempts d)" "a_id x = i" "a_success x = None"
    and "\<And>a. a_id (f a) = a_id a" "\<And>a. a_success (f a) = Some s"
    and "d_attempts e = upd_where (\<lambda>a. a_id a = i) f (d_attempts d)" "d_next e = d_next d"
    and "d_events e = d_events d \<or> (\<exists>out. d_events e = d_events d @ [AttemptFinished i out])" "quiet e d'"
  shows "resolves i s d d'"
proof -
  have "settled_as i d = None"
    using get_by_distinct [OF assms(1,2)] assms(3,4) by (simp add: settled_as_def get_attempt_def)
  moreover have "finished j e \<le> finished j d + (if j = i then 1 else 0)" for j
    using assms(9) by (auto simp: finished_def hits_append)
  ultimately show ?thesis unfolding resolves_def using assms(5-8,10) by blast
qed

lemma resolve_completion_resolves:
  assumes inv: "resolve_inv d" and run: "resolve_completion w u now q a v d = Inr (r, d')"
  shows "(r = None \<and> d' = d) \<or> (get_attempt (a_id a) d \<noteq> None \<and> resolves (a_id a) (q_success q) d d')"
proof -
  define exc where "exc = (if q_success q then None else extract_exception_class (q_result q))"
  define f where "f = mark_resolved (q_success q) (q_stopped q) exc"
  define P where "P = (\<lambda>x :: attempt_row. a_id x = a_id a \<and> a_success x = None)"
  have dst: "distinct (map a_id (d_attempts d))" using inv by (simp add: resolve_inv_def)
  obtain t where t: "get_task (a_task a) d = Some t"
    using run by (cases "get_task (a_task a) d") (simp_all add: resolve_completion_def)
  define st where "st = set_task_status now (if q_success q then TSucceeded else TFailed)"
  define d1 where "d1 = upd_tasks (\<lambda>x. t_id x = t_id t) st (upd_attempts P f d)"
  have go: "resolve_completion w u now q a v d =
      (if hits P (d_attempts d) = 0 then Inr (None, d)
       else rbind (settle_retry w u now (\<not> q_success q \<and> \<not> owning_workflow_cancelled v t d1)
              (st t) (f a) (q_result q) d1) (\<lambda>(retry, d).
            case get_task (t_id t) d of None \<Rightarrow> Inl DoesNotExist
            | Some t \<Rightarrow> Inr (Some (t, f a, retry),
                announce_resolution (f a) t (if q_success q then Succeeded else Failed) (\<not> retry) d)))"
    unfolding resolve_completion_def t option.case Let_def exc_def f_def P_def st_def d1_def ..
  show ?thesis
  proof (cases "hits P (d_attempts d) = 0")
    case True
    then show ?thesis using run by (simp add: go)
  next
    case False
    then obtain x where x: "x \<in> set (d_attempts d)" "a_id x = a_id a" "a_success x = None"
      by (auto simp: hits_0 exists_where_iff P_def)
    have only: "P y = (a_id y = a_id a)" if "y \<in> set (d_attempts d)" for y
      using key_inj [OF dst that x(1)] x by (auto simp: P_def)
    obtain retry d2 t' out where s: "settle_retry w u now (\<not> q_success q \<and> \<not> owning_workflow_cancelled v t d1)
          (st t) (f a) (q_result q) d1 = Inr (retry, d2)" "d' = announce_resolution (f a) t' out (\<not> retry) d2"
      using run False by (auto simp: go elim!: rbindE split: option.splits prod.splits)
    have fa: "a_id (f y) = a_id y" "a_success (f y) = Some (q_success q)" for y
      by (simp_all add: f_def mark_resolved_def)
    have "quiet (emit (AttemptFinished (a_id a) out) d1) d'"
      unfolding s(2) using announced_quiet [OF settle_retry_quiet [OF s(1)], of "f a" out t'] fa by simp
    moreover have "d_attempts d1 = upd_where (\<lambda>y. a_id y = a_id a) f (d_attempts d)"
      using only by (simp add: d1_def upd_attempts_def cong: upd_where_cong)
    ultimately have "resolves (a_id a) (q_success q) d d'"
      by (intro resolvesI [OF dst x fa]) (auto simp: d1_def)
    moreover have "get_attempt (a_id a) d = Some x"
      using get_by_distinct [OF dst x(1)] x(2) by (simp add: get_attempt_def)
    ultimately show ?thesis by simp
  qed
qed

lemma reap_failure_Inr:
  assumes run: "reap_failure w u now a t d = Inr (r, d')"
  defines "f \<equiv> mark_resolved False now (Some (reap_exception a))"
  defines "d1 \<equiv> upd_attempts (\<lambda>x. a_id x = a_id a) f d"
  obtains retry d2 t' where
    "settle_retry w u now (\<not> owning_workflow_cancelled d1 t d1) t (f a) None d1 = Inr (retry, d2)"
    "d' = announce_resolution (f a) t' Orphaned (\<not> retry) (if retry then d2
       else upd_tasks (\<lambda>x. t_id x = t_id t \<and> t_status x = TRunning) (set_task_status now TFailed) d2)"
    "r = (if retry then Absorbed else Routable t' (f a))"
    "get_task (t_id t) (if retry then d2
       else upd_tasks (\<lambda>x. t_id x = t_id t \<and> t_status x = TRunning) (set_task_status now TFailed) d2) = Some t'"
proof -
  let ?d3 = "\<lambda>retry d2. if retry then d2
       else upd_tasks (\<lambda>x. t_id x = t_id t \<and> t_status x = TRunning) (set_task_status now TFailed) d2"
  have go: "reap_failure w u now a t d =
      rbind (settle_retry w u now (\<not> owning_workflow_cancelled d1 t d1) t (f a) None d1) (\<lambda>(retry, d2).
        case get_task (t_id t) (?d3 retry d2) of None \<Rightarrow> Inl DoesNotExist
        | Some t' \<Rightarrow> Inr (if retry then Absorbed else Routable t' (f a),
            announce_resolution (f a) t' Orphaned (\<not> retry) (?d3 retry d2)))"
    unfolding reap_failure_def Let_def f_def d1_def ..
  from run obtain x where x: "settle_retry w u now (\<not> owning_workflow_cancelled d1 t d1) t (f a) None d1 = Inr x"
    "(case x of (retry, d2) \<Rightarrow> case get_task (t_id t) (?d3 retry d2) of None \<Rightarrow> Inl DoesNotExist
        | Some t' \<Rightarrow> Inr (if retry then Absorbed else Routable t' (f a),
            announce_resolution (f a) t' Orphaned (\<not> retry) (?d3 retry d2))) = Inr (r, d')"
    unfolding go by (rule rbindE)
  obtain retry d2 where xe: "x = (retry, d2)" by (cases x)
  obtain t' where t': "get_task (t_id t) (?d3 retry d2) = Some t'"
    using x(2) unfolding xe by (cases "get_task (t_id t) (?d3 retry d2)") simp_all
  have "r = (if retry then Absorbed else Routable t' (f a))"
    "d' = announce_resolution (f a) t' Orphaned (\<not> retry) (?d3 retry d2)"
    using x(2) [unfolded xe prod.case t' option.case] by simp_all
  then show thesis using that [OF x(1) [unfolded xe] _ _ t'] by simp
qed

lemma reap_transaction_resolves:
  assumes inv: "resolve_inv d" and run: "reap_transaction w u now cutoff i d = Inr (r, d')"
  shows "(r = NotReaped \<and> d' = d) \<or> (\<exists>a s. get_attempt i d = Some a \<and> a_success a = None \<and>
    s = (a_committed_at a \<noteq> None) \<and> resolves i s d d')"
proof (cases "get_attempt i d")
  case None
  then show ?thesis using run by (simp add: reap_transaction_def)
next
  case (Some a)
  have dst: "distinct (map a_id (d_attempts d))" using inv by (simp add: resolve_inv_def)
  have a: "a \<in> set (d_attempts d)" "a_id a = i" using get_by_SomeD [of a_id i] Some by (auto simp: get_attempt_def)
  obtain t where t: "get_task (a_task a) d = Some t"
    using run Some by (cases "get_task (a_task a) d") (simp_all add: reap_transaction_def)
  consider "r = NotReaped" "d' = d"
    | "a_success a = None" "a_committed_at a \<noteq> None" "(r, d') = resolve_committed now a t d"
    | "a_success a = None" "a_committed_at a = None" "reap_failure w u now a t d = Inr (r, d')"
    using run Some t by (auto simp: reap_transaction_def split: if_splits)
  then show ?thesis
  proof cases
    case 2
    let ?g = "mark_resolved True now None"
    have d': "d' = mark_routed (a_id a) (upd_tasks (\<lambda>x. t_id x = t_id t) (set_task_status now TSucceeded)
        (upd_attempts (\<lambda>x. a_id x = a_id a) ?g d))" using 2(3) by (simp add: resolve_committed_def Let_def)
    have "quiet (upd_attempts (\<lambda>x. a_id x = a_id a) ?g d) d'"
      unfolding d' by (rule quiet_trans [OF upd_tasks_quiet mark_routed_quiet])
    then have "resolves i True d d'" using a(2)
      by (intro resolvesI [OF dst a 2(1), of ?g]) (auto simp: mark_resolved_def)
    then show ?thesis using Some 2 by auto
  next
    case 3
    define f where "f = mark_resolved False now (Some (reap_exception a))"
    define d1 where "d1 = upd_attempts (\<lambda>x. a_id x = a_id a) f d"
    have fa: "a_id (f y) = a_id y" "a_success (f y) = Some False" for y
      by (simp_all add: f_def mark_resolved_def)
    obtain retry d2 t' where s:
      "settle_retry w u now (\<not> owning_workflow_cancelled d1 t d1) t (f a) None d1 = Inr (retry, d2)"
      "d' = announce_resolution (f a) t' Orphaned (\<not> retry) (if retry then d2
         else upd_tasks (\<lambda>x. t_id x = t_id t \<and> t_status x = TRunning) (set_task_status now TFailed) d2)"
      using 3(3) unfolding f_def d1_def by (rule reap_failure_Inr)
    have "quiet d1 (if retry then d2
          else upd_tasks (\<lambda>x. t_id x = t_id t \<and> t_status x = TRunning) (set_task_status now TFailed) d2)"
      using settle_retry_quiet [OF s(1)] quiet_trans [OF settle_retry_quiet [OF s(1)] upd_tasks_quiet] by simp
    then have "quiet (emit (AttemptFinished i Orphaned) d1) d'"
      using announced_quiet [of d1 _ "f a" Orphaned t'] fa(1) [of a] a(2) by (simp add: s(2))
    then have "resolves i False d d'" using a(2)
      by (intro resolvesI [OF dst a 3(1) fa]) (auto simp: d1_def)
    then show ?thesis using Some 3 by auto
  qed simp
qed

text \<open>
  The transactions of the completion path: the handler's, the reaper's, the routing after either,
  the routed mark, and work of other components, which is \<open>quiet\<close>.
\<close>

inductive completion_step :: "world \<Rightarrow> db \<Rightarrow> db \<Rightarrow> bool" for w where
  comp_resolve: "resolve_completion w u now q a v d = Inr (r, d') \<Longrightarrow> completion_step w d d'"
| comp_reap: "reap_transaction w u now cutoff i d = Inr (x, d') \<Longrightarrow> completion_step w d d'"
| comp_route: "route w now trace v t a s d = Inr d' \<Longrightarrow> completion_step w d d'"
| comp_mark: "completion_step w d (mark_routed i d)"
| comp_stall: "flag_stall now a d = (r, d') \<Longrightarrow> completion_step w d d'"
| comp_other: "quiet d d' \<Longrightarrow> completion_step w d d'"

lemma flag_stall_quiet: "flag_stall now a d = (r, d') \<Longrightarrow> quiet d d'"
  by (auto simp: flag_stall_def Let_def same_atts_def map_upd_where split: if_splits
      intro!: quiet_trans [OF quiet_same quiet_emit])

lemma completion_step_cases:
  assumes "completion_step w d d'" "resolve_inv d"
  shows "quiet d d' \<or> (\<exists>i s. get_attempt i d \<noteq> None \<and> resolves i s d d')"
  using assms
proof (cases rule: completion_step.cases)
  case (comp_resolve u now q a v r)
  then show ?thesis using resolve_completion_resolves [OF assms(2)] by fastforce
next
  case (comp_reap u now cutoff i x)
  then show ?thesis using reap_transaction_resolves [OF assms(2)] by fastforce
qed (auto intro: route_quiet mark_routed_quiet flag_stall_quiet)

lemma completion_step_inv: "completion_step w d d' \<Longrightarrow> resolve_inv d \<Longrightarrow> resolve_inv d'"
  using completion_step_cases quiet_inv resolves_inv by blast

interpretation completions: step_invariant "completion_step w" resolve_inv for w
  by unfold_locales (rule completion_step_inv)

lemma empty_resolve_inv [simp]: "resolve_inv empty_db"
  by (simp add: resolve_inv_def empty_db_def finished_def)

text \<open>The outcome of an attempt, once there, stays.\<close>

definition keeps_outcome :: "id \<Rightarrow> bool \<Rightarrow> db \<Rightarrow> bool" where
  "keeps_outcome i s d \<longleftrightarrow> resolve_inv d \<and> settled_as i d = Some s"

interpretation outcome: step_invariant "completion_step w" "keeps_outcome i s" for w i s
proof unfold_locales
  fix d d' assume st: "completion_step w d d'" and k: "keeps_outcome i s d"
  then have inv: "resolve_inv d" and s: "settled_as i d = Some s" by (auto simp: keeps_outcome_def)
  from completion_step_cases [OF st inv] have "settled_as i d' = Some s"
  proof (elim disjE exE conjE)
    assume "quiet d d'" then show ?thesis using s by (simp add: settled_as_quiet)
  next
    fix j b assume r: "get_attempt j d \<noteq> None" "resolves j b d d'"
    then have "settled_as j d = None" by (simp add: resolves_def)
    then show ?thesis using resolves_settled [OF r(2,1), of i] s by auto
  qed
  then show "keeps_outcome i s d'" using completion_step_inv [OF st inv] by (simp add: keeps_outcome_def)
qed

text \<open>
  A chain whose first attempt reports success and then, through a redelivery of the other kind,
  failure.
\<close>

definition demo_report :: "bool \<Rightarrow> q2_row" where
  "demo_report s = \<lparr>q_id = 0, q_name = None, q_success = s, q_result = None, q_stopped = 5\<rparr>"

definition report_result :: "bool \<Rightarrow> db \<Rightarrow> ((task_row \<times> attempt_row \<times> bool) option \<times> db) res" where
  "report_result s d = resolve_completion demo_world 0 6 (demo_report s) (the (get_attempt 104 chain_db1)) d d"

definition done_db :: db where
  "done_db = db_of (report_result True chain_db1)"

definition late_db :: db where
  "late_db = db_of (report_result False done_db)"

lemma report_result_step:
  assumes "\<not> isl (report_result s d)"
  shows "completion_step demo_world d (db_of (report_result s d))"
  using assms comp_resolve [of demo_world 0 6 "demo_report s" "the (get_attempt 104 chain_db1)" d d]
  by (cases "report_result s d") (auto simp: report_result_def db_of_def)

lemma chain_db1_quiet: "quiet empty_db chain_db1"
proof -
  have "att_view chain_db1 = att_view empty_db @ map (\<lambda>i. (i, None)) [104]" by code_simp
  moreover have "d_next empty_db \<le> 104" "104 < d_next chain_db1" by code_simp+
  moreover have "d_events chain_db1 = []" "d_events empty_db = []" by code_simp+
  then have "finished i chain_db1 = finished i empty_db" for i by (simp add: finished_def)
  moreover have "\<not> routed i empty_db" for i by (simp add: routed_def empty_db_def)
  ultimately show ?thesis unfolding quiet_def by (auto intro!: exI [of _ "[104]"])
qed

lemma demo_completions:
  "run_steps (completion_step demo_world) empty_db chain_db1"
  "run_steps (completion_step demo_world) empty_db done_db"
  "completion_step demo_world done_db late_db"
proof -
  show r: "run_steps (completion_step demo_world) empty_db chain_db1"
    by (rule run_step [OF run_refl [of "completion_step demo_world" empty_db] comp_other [OF chain_db1_quiet]])
  have "\<not> isl (report_result True chain_db1)" by code_simp
  from run_step [OF r report_result_step [OF this]]
  show "run_steps (completion_step demo_world) empty_db done_db" by (simp only: done_db_def)
  have "\<not> isl (report_result False done_db)" by code_simp
  from report_result_step [OF this] show "completion_step demo_world done_db late_db" by (simp only: late_db_def)
qed





end
