(* ===== verification/Qraft_Replay.thy ===== *)
theory Qraft_Replay
  imports Qraft_Resolve
begin

text \<open>
  Replaying the work after a resolution. The monitor may die between the commit that resolves an
  attempt and the work that follows it; the reaper then replays that work. Here: a replay of work
  that was done changes nothing, and a sweep leaves no resolved attempt unrouted.
\<close>

section \<open>Graph nodes\<close>

text \<open>The completion of \<open>task\<close> has nothing left to do on node \<open>n\<close>.\<close>

definition node_done :: "id \<Rightarrow> id \<Rightarrow> id \<Rightarrow> db \<Rightarrow> bool" where
  "node_done g n task d \<longleftrightarrow> get_graph g d \<noteq> None \<and>
     (Option.bind (get_node n d) n_task \<noteq> Some task \<or>
      (\<forall>x \<in> set (d_nodes d). n_id x = n \<longrightarrow> n_settled_at x \<noteq> None))"

lemma node_done_again: "node_done g n task d \<Longrightarrow> record_completion w now g n task out d = Inr (None, d)"
  by (auto simp: node_done_def record_completion_def locked_def hits_0 exists_where_iff Let_def)

lemma graph_ids_exist:
  "map g_id (d_graphs d') = map g_id (d_graphs d) \<Longrightarrow> get_graph g d' \<noteq> None \<longleftrightarrow> get_graph g d \<noteq> None"
  unfolding get_graph_def get_by_None not_not by (metis list.set_map)

lemma settle_frame:
  assumes "settle w now r s d = Inr (x, d')"
  shows "map g_id (d_graphs d') = map g_id (d_graphs d)" "d_nodes d' = d_nodes d"
proof -
  have rs: "d_graphs f = d_graphs e \<and> d_nodes f = d_nodes e" if "record_settlement r e = Inr f" for r e f
    using that by (elim record_settlement_effect) simp
  show "map g_id (d_graphs d') = map g_id (d_graphs d)" "d_nodes d' = d_nodes d"
    using assms rs by (auto simp: settle_def Let_def map_upd_where elim!: rbindE split: if_splits)
qed

lemma maybe_settle_frame:
  "maybe_settle w now r d = Inr (x, d') \<Longrightarrow> map g_id (d_graphs d') = map g_id (d_graphs d) \<and> d_nodes d' = d_nodes d"
  by (auto simp: maybe_settle_def Let_def map_upd_where dest: settle_frame split: if_splits)

lemma dispatch_frontier_cases:
  "dispatch_frontier w now g d = Inr d' \<Longrightarrow>
    d' = d \<or> (\<exists>r. dispatch_all w now r (ready_nodes g d) d = Inr d')"
  by (auto simp: dispatch_frontier_def elim!: rbindE split: if_splits)

lemma dispatch_frontier_settled:
  assumes "dispatch_frontier w now g d = Inr d'" "x \<in> set (d_nodes d')"
  shows "d_graphs d' = d_graphs d \<and> (\<exists>y \<in> set (d_nodes d). n_id x = n_id y \<and> n_settled_at x = n_settled_at y)"
proof -
  obtain r where "d' = d \<or> dispatch_all w now r (ready_nodes g d) d = Inr d'"
    using dispatch_frontier_cases [OF assms(1)] by blast
  then show ?thesis
  proof
    assume "dispatch_all w now r (ready_nodes g d) d = Inr d'"
    then obtain F where F: "same_view d d'" "d_nodes d' = map F (d_nodes d)" "moved_pending (ready_nodes g d) F"
      by (rule dispatch_all_effect)
    obtain y where y: "y \<in> set (d_nodes d)" "x = F y" using assms(2) F(2) by auto
    have "n_id (F y) = n_id y \<and> n_settled_at (F y) = n_settled_at y"
      using F(3) unfolding moved_pending_def by (metis dispatched_def same_static_def)
    then show ?thesis using F(1) y by (auto simp: same_view_def)
  qed (use assms(2) in auto)
qed

definition node_view :: "db \<Rightarrow> (id \<times> id) list" where
  "node_view d = map (\<lambda>x. (n_id x, n_graph x)) (d_nodes d)"

lemma node_view_graph:
  assumes "node_view d' = node_view d" "get_node k d = Some n" "get_node k d' = Some m"
  shows "n_id m = n_id n \<and> n_graph m = n_graph n"
proof -
  have "map_option (\<lambda>x. (n_id x, n_graph x)) (get_by n_id k rs) =
      find (\<lambda>(i, g). i = k) (map (\<lambda>x. (n_id x, n_graph x)) rs)" for rs
    by (induction rs) auto
  then have "map_option (\<lambda>x. (n_id x, n_graph x)) (get_node k e) = find (\<lambda>(i, g). i = k) (node_view e)" for e
    by (simp add: get_node_def node_view_def)
  then have "map_option (\<lambda>x. (n_id x, n_graph x)) (get_node k d) = map_option (\<lambda>x. (n_id x, n_graph x)) (get_node k d')"
    using assms(1) by metis
  then show ?thesis using assms(2,3) by simp
qed

lemma dispatch_frontier_view:
  assumes "dispatch_frontier w now g d = Inr d'"
  shows "node_view d' = node_view d"
proof -
  obtain r where "d' = d \<or> dispatch_all w now r (ready_nodes g d) d = Inr d'"
    using dispatch_frontier_cases [OF assms(1)] by blast
  then show ?thesis
  proof
    assume "dispatch_all w now r (ready_nodes g d) d = Inr d'"
    then obtain F where F: "d_nodes d' = map F (d_nodes d)" "moved_pending (ready_nodes g d) F"
      by (rule dispatch_all_effect)
    have "n_id (F y) = n_id y \<and> n_graph (F y) = n_graph y" for y
      using F(2) unfolding moved_pending_def by (metis dispatched_def same_static_def)
    then show ?thesis by (simp add: node_view_def F(1))
  qed simp
qed

lemma record_completion_done:
  assumes "record_completion w now g n task out d = Inr (x, d')"
  shows "node_done g n task d' \<and> node_view d' = node_view d"
proof -
  define P where "P = (\<lambda>x :: node_row. n_id x = n \<and> n_settled_at x = None)"
  define d1 where "d1 = upd_nodes P (\<lambda>x. x\<lparr>n_status := out, n_settled_at := Some now\<rparr>) d"
  obtain r where r: "get_graph g d = Some r"
    using assms by (auto simp: record_completion_def locked_def split: option.splits)
  have all1: "n_settled_at y \<noteq> None" if "y \<in> set (d_nodes d1)" "n_id y = n" for y
  proof -
    have "y \<in> (\<lambda>z. if P z then z\<lparr>n_status := out, n_settled_at := Some now\<rparr> else z) ` set (d_nodes d)"
      using that(1) by (simp only: d1_def upd_nodes_frame set_upd_where)
    then obtain z where "y = (if P z then z\<lparr>n_status := out, n_settled_at := Some now\<rparr> else z)"
      by (rule imageE)
    then show ?thesis using that(2) by (cases "P z") (auto simp: P_def)
  qed
  have view1: "node_view d1 = node_view d" by (simp add: node_view_def d1_def map_upd_where)
  have done_if: "node_done g n task e"
    if "map g_id (d_graphs e) = map g_id (d_graphs d)"
      "\<forall>y \<in> set (d_nodes e). n_id y = n \<longrightarrow> n_settled_at y \<noteq> None" for e
    using that(2) r graph_ids_exist [OF that(1), of g] by (simp add: node_done_def)
  consider "d' = d" "Option.bind (get_node n d) n_task \<noteq> Some task"
    | "d' = d" "hits P (d_nodes d) = 0"
    | y e where "e = emit (NodeSettled g (n_key (y :: node_row)) (n_generation y) (n_status y)) d1" "d' = e"
    | y e f where "e = emit (NodeSettled g (n_key (y :: node_row)) (n_generation y) (n_status y)) d1"
        "dispatch_frontier w now g e = Inr f" "maybe_settle w now r f = Inr (x, d')"
  proof (cases "Option.bind (get_node n d) n_task \<noteq> Some task \<or> hits P (d_nodes d) = 0")
    case True
    then have "d' = d" using assms r by (auto simp: record_completion_def locked_def P_def split: if_splits)
    with True show thesis using that(1,2) by blast
  next
    case False
    let ?e = "\<lambda>y :: node_row. emit (NodeSettled g (n_key y) (n_generation y) (n_status y)) d1"
    have rest: "(case get_node n d1 of None \<Rightarrow> Inl DoesNotExist
        | Some y \<Rightarrow> if g_status r \<noteq> GRunning then Inr (None, ?e y)
          else rbind (dispatch_frontier w now g (?e y)) (maybe_settle w now r)) = Inr (x, d')"
      using assms False
      by (simp only: record_completion_def locked_def r option.case rbind_simps P_def [symmetric] Let_def
          d1_def [symmetric] de_Morgan_disj not_not if_False if_not_P simp_thms)
    obtain y where y: "get_node n d1 = Some y" using rest by (cases "get_node n d1") simp_all
    show thesis
    proof (cases "g_status r = GRunning")
      case True
      have "rbind (dispatch_frontier w now g (?e y)) (maybe_settle w now r) = Inr (x, d')"
        using rest [unfolded y option.case] True by (simp only: simp_thms if_False)
      then obtain f where "dispatch_frontier w now g (?e y) = Inr f" "maybe_settle w now r f = Inr (x, d')"
        by (rule rbindE)
      then show thesis by (rule that(4) [OF refl])
    next
      case False
      have "Inr (None, ?e y) = (Inr (x, d') :: _ res)"
        using rest [unfolded y option.case] False by (simp only: simp_thms if_True)
      then have "d' = ?e y" by simp
      then show thesis by (rule that(3) [OF refl])
    qed
  qed
  then show ?thesis
  proof cases
    case 1 then show ?thesis using r by (auto simp: node_done_def)
  next
    case 2 then show ?thesis using r by (auto simp: node_done_def hits_0 exists_where_iff P_def)
  next
    case 3
    then have "node_done g n task d'" using all1 by (intro done_if) (auto simp: d1_def)
    then show ?thesis using view1 by (simp add: 3 node_view_def)
  next
    case 4
    have view: "node_view d' = node_view d"
      using maybe_settle_frame [OF 4(3)] dispatch_frontier_view [OF 4(2)] view1 by (simp add: 4(1) node_view_def)
    note m = maybe_settle_frame [OF 4(3)]
    have "n_settled_at z \<noteq> None" if z: "z \<in> set (d_nodes d')" "n_id z = n" for z
    proof -
      have "z \<in> set (d_nodes f)" using z(1) m by simp
      then obtain u where "u \<in> set (d_nodes e)" "n_id z = n_id u" "n_settled_at z = n_settled_at u"
        using dispatch_frontier_settled [OF 4(2), of z] by blast
      then show ?thesis using all1 [of u] z(2) by (simp add: 4(1))
    qed
    moreover have "d_graphs f = d_graphs d"
      using dispatch_frontier_cases [OF 4(2)]
      by (auto simp: 4(1) d1_def same_view_def elim!: dispatch_all_effect)
    ultimately have "node_done g n task d'" using m by (intro done_if) auto
    then show ?thesis using view by simp
  qed
qed

lemma node_done_cong:
  "d_graphs d' = d_graphs d \<Longrightarrow> d_nodes d' = d_nodes d \<Longrightarrow> node_done g n task d' = node_done g n task d"
  by (simp add: node_done_def get_graph_def get_node_def)

section \<open>Hooks and fan-outs\<close>

definition accepting :: "world \<Rightarrow> bool" where
  "accepting w \<longleftrightarrow> (\<forall>q m. w_enqueue w q m \<noteq> None)"

lemma dispatch_hook_once_again:
  assumes "accepting w" "\<And>q e. claimed (record_claim q e)"
  shows "dispatch_hook_once w claimed record_claim m' (dispatch_hook_once w claimed record_claim m d) =
    dispatch_hook_once w claimed record_claim m d"
proof (cases "claimed d")
  case False
  obtain q where "w_enqueue w (d_queue d) m = Some q" using assms(1) by (auto simp: accepting_def)
  then have "dispatch_hook_once w claimed record_claim m d =
      record_claim q (d\<lparr>d_queue := d_queue d @ [(q, m)]\<rparr>)"
    using False by (simp add: dispatch_hook_once_def q2_async_task_def)
  then show ?thesis using assms(2) by (simp add: dispatch_hook_once_def)
qed (simp add: dispatch_hook_once_def)

lemma dispatch_hooks_again:
  assumes "accepting w"
  shows "dispatch_hooks w t a s (dispatch_hooks w t a s d) = dispatch_hooks w t a s d"
  by (auto simp: dispatch_hooks_def dispatch_task_hook_def exists_where_iff split: option.splits
      intro!: dispatch_hook_once_again [OF assms])

text \<open>Nothing is left to count for the attempt.\<close>

definition counted_out :: "id \<Rightarrow> id \<Rightarrow> db \<Rightarrow> bool" where
  "counted_out i aid d \<longleftrightarrow> (\<exists>r. get_par i d = Some r \<and>
     (p_status r = WCancelled \<or> (\<exists>x. get_attempt aid d = Some x \<and> a_counted x)))"

lemma counted_out_noop: "counted_out i aid d \<Longrightarrow> \<exists>p. atomic_increment now i aid s d = Inr (Noop, p, d)"
  by (auto simp: counted_out_def atomic_increment_def)

lemma counted_out_cong:
  "d_pars d' = d_pars d \<Longrightarrow> d_attempts d' = d_attempts d \<Longrightarrow> counted_out i aid d' = counted_out i aid d"
  by (simp add: counted_out_def get_par_def get_attempt_def)

lemma atomic_increment_counted:
  assumes "atomic_increment now i aid s d = Inr (out, p, d')"
  shows "counted_out i aid d'"
proof -
  obtain r where r: "get_par i d = Some r" using assms by (cases "get_par i d") (simp_all add: atomic_increment_def)
  show ?thesis
  proof (cases "p_status r = WCancelled")
    case True
    then show ?thesis using assms r by (simp add: atomic_increment_def counted_out_def)
  next
    case live: False
    obtain x where x: "get_attempt aid d = Some x"
      using assms r live by (cases "get_attempt aid d") (simp_all add: atomic_increment_def)
    show ?thesis
    proof (cases "a_counted x")
      case True
      then show ?thesis using assms r live x by (auto simp: atomic_increment_def counted_out_def)
    next
      case False
      have eff: "d_attempts d' = upd_where (\<lambda>x. a_id x = aid) (\<lambda>x. x\<lparr>a_counted := True\<rparr>) (d_attempts d)"
        "map p_id (d_pars d') = map p_id (d_pars d)"
        using assms r live x False
        by (auto simp: atomic_increment_def settle_par_def Let_def map_upd_where count_member_def
            split: if_splits option.splits prod.splits)
      have "a_id x = aid" using get_by_SomeD [of a_id aid "d_attempts d" x] x by (simp add: get_attempt_def)
      then have at: "get_attempt aid d' = Some (x\<lparr>a_counted := True\<rparr>)"
        using x by (simp add: get_attempt_def eff(1) get_by_upd_where)
      have "i \<in> set (map p_id (d_pars d))" using r get_by_SomeD [of p_id i "d_pars d" r] by (auto simp: get_par_def)
      then have "get_par i d' \<noteq> None" unfolding eff(2) [symmetric] get_par_def get_by_None by simp
      then show ?thesis using at by (auto simp: counted_out_def)
    qed
  qed
qed

lemma handle_parallel_again:
  assumes "handle_parallel w now i a d = Inr d'"
  shows "handle_parallel w now' i a d' = Inr d'"
proof -
  have tasks: "d_tasks e = d_tasks d" if "atomic_increment now i aid s d = Inr (out, p, e)" for aid s out p e
    using that by (auto simp: atomic_increment_def settle_par_def Let_def split: if_splits option.splits prod.splits)
  have "a_success a \<noteq> Some True \<and> dead_task (a_task a) d = Inr False \<and> d' = d \<or>
      (a_success a = Some True \<or> dead_task (a_task a) d = Inr True)"
    using assms by (auto simp: handle_parallel_def elim!: rbindE split: if_splits)
  moreover have "a_success a \<noteq> Some True \<and> dead_task (a_task a) d = Inr False \<and> d' = d \<or> (\<exists>out p e. atomic_increment now i (a_id a) (a_success a = Some True) d = Inr (out, p, e) \<and>
      d' = (case out of Complete \<Rightarrow> dispatch_par_hook w now p e | Partial \<Rightarrow> dispatch_progress_hook w p e | Noop \<Rightarrow> e))"
    using assms by (auto simp: handle_parallel_def elim!: rbindE split: if_splits prod.splits)
  ultimately have "a_success a \<noteq> Some True \<and> dead_task (a_task a) d = Inr False \<and> d' = d \<or> (\<exists>out p e. atomic_increment now i (a_id a) (a_success a = Some True) d = Inr (out, p, e) \<and>
      d' = (case out of Complete \<Rightarrow> dispatch_par_hook w now p e | Partial \<Rightarrow> dispatch_progress_hook w p e | Noop \<Rightarrow> e)) \<and>
      (a_success a = Some True \<or> dead_task (a_task a) d = Inr True)"
    by blast
  then show ?thesis
  proof (elim disjE [where Q = "_ \<and> _"] exE conjE)
    fix out p e assume inc: "atomic_increment now i (a_id a) (a_success a = Some True) d = Inr (out, p, e)"
      and tm: "a_success a = Some True \<or> dead_task (a_task a) d = Inr True"
      and d': "d' = (case out of Complete \<Rightarrow> dispatch_par_hook w now p e | Partial \<Rightarrow> dispatch_progress_hook w p e | Noop \<Rightarrow> e)"
    have frame: "d_pars d' = d_pars e" "d_attempts d' = d_attempts e" "d_tasks d' = d_tasks e"
      unfolding d'
      by (auto simp: dispatch_par_hook_def dispatch_progress_hook_def Let_def q2_async_task_def
          split: increment.splits option.splits sum.splits prod.splits)
    have "counted_out i (a_id a) d'"
      using atomic_increment_counted [OF inc] counted_out_cong [OF frame(1,2)] by simp
    then obtain p' where n: "atomic_increment now' i (a_id a) (a_success a = Some True) d' = Inr (Noop, p', d')"
      using counted_out_noop by blast
    have dt: "dead_task (a_task a) d' = dead_task (a_task a) d"
      by (simp add: dead_task_def get_task_def frame(3) tasks [OF inc])
    show ?thesis using tm n dt by (cases "a_success a = Some True") (simp_all add: handle_parallel_def)
  qed (simp add: handle_parallel_def)
qed

section \<open>The whole routing\<close>

lemma route_workflow_again:
  assumes inv: "chain_inv d" and run: "route_workflow_completion w now trace v t a d = Inr (h, d')"
  shows "route_workflow_completion w now' trace' v t a d' = Inr (h, d')"
proof (cases "find (\<lambda>s. s_task s = Some (t_id t)) (d_steps v)")
  case None
  then show ?thesis using run handle_parallel_again
    by (auto simp: route_workflow_completion_def split: option.splits elim!: rbindE)
next
  case (Some s)
  then have h: "h" using run by (auto simp: route_workflow_completion_def split: if_splits elim!: rbindE)
  have "d' = d \<or> handle_chain_step w now trace s a d = Inr d'"
    using run Some by (auto simp: route_workflow_completion_def split: if_splits elim!: rbindE)
  then show ?thesis
  proof
    assume "d' = d"
    then show ?thesis using run Some handle_chain_step_again [OF inv, of w now trace s a d' now' trace']
      by (auto simp: route_workflow_completion_def split: if_splits elim!: rbindE)
  next
    assume "handle_chain_step w now trace s a d = Inr d'"
    then have "handle_chain_step w now' trace' s a d' = Inr d'" by (rule handle_chain_step_again [OF inv])
    then show ?thesis using Some h by (simp add: route_workflow_completion_def)
  qed
qed

lemma handle_node_again:
  assumes "handle_node_completion w now t d = Inr e" "d_graphs d' = d_graphs e" "d_nodes d' = d_nodes e"
  shows "handle_node_completion w now' t d' = Inr d'"
proof (cases "Option.bind (t_graph_node t) (\<lambda>n. get_node n d)")
  case None
  then have e: "e = d" using assms(1) by (simp add: handle_node_completion_def)
  have "Option.bind (t_graph_node t) (\<lambda>n. get_node n d') = None"
    using None assms(3) e by (simp add: get_node_def)
  then show ?thesis by (simp add: handle_node_completion_def)
next
  case node: (Some n)
  show ?thesis
  proof (cases "task_outcome (t_status t)")
    case None
    then show ?thesis by (simp add: handle_node_completion_def split: option.splits)
  next
    case out: (Some out)
    have "handle_node_completion w now t d = rbind (record_completion w now (n_graph n) (n_id n) (t_id t) out d)
        (\<lambda>(s, d). Inr (dispatch_settled_hook w now s d))"
      unfolding handle_node_completion_def node out option.case ..
    then have "rbind (record_completion w now (n_graph n) (n_id n) (t_id t) out d)
        (\<lambda>(s, d). Inr (dispatch_settled_hook w now s d)) = Inr e"
      using assms(1) by (rule trans [OF sym])
    then obtain x where x: "record_completion w now (n_graph n) (n_id n) (t_id t) out d = Inr x"
      "(case x of (s, d) \<Rightarrow> Inr (dispatch_settled_hook w now s d)) = (Inr e :: db res)" by (rule rbindE)
    obtain s f where xe: "x = (s, f)" by (cases x)
    have f: "record_completion w now (n_graph n) (n_id n) (t_id t) out d = Inr (s, f)"
      using x(1) unfolding xe .
    have "(Inr (dispatch_settled_hook w now s f) :: db res) = Inr e" using x(2) unfolding xe prod.case .
    then have e: "dispatch_settled_hook w now s f = e" by (rule iffD1 [OF sum.inject(2)])
    have ef: "d_graphs d' = d_graphs f" "d_nodes d' = d_nodes f"
      unfolding assms(2,3) e [symmetric] by simp_all
    have done1: "node_done (n_graph n) (n_id n) (t_id t) d'"
      using conjunct1 [OF record_completion_done [OF f]] node_done_cong [OF ef] by blast
    have view: "node_view d' = node_view d"
      using conjunct2 [OF record_completion_done [OF f]] ef(2) by (simp add: node_view_def)
    show ?thesis
    proof (cases "Option.bind (t_graph_node t) (\<lambda>n. get_node n d')")
      case None
      then show ?thesis by (simp add: handle_node_completion_def)
    next
      case (Some m)
      obtain k where k: "t_graph_node t = Some k" using node by (cases "t_graph_node t") simp_all
      have m: "n_id m = n_id n \<and> n_graph m = n_graph n"
        by (rule node_view_graph [OF view, of k]) (use Some node k in simp_all)
      have "handle_node_completion w now' t d' =
          rbind (record_completion w now' (n_graph m) (n_id m) (t_id t) out d')
            (\<lambda>(s, d). Inr (dispatch_settled_hook w now' s d))"
        unfolding handle_node_completion_def Some out option.case ..
      then show ?thesis
        by (simp only: m node_done_again [OF done1] rbind_simps prod.case dispatch_settled_hook_def option.case)
    qed
  qed
qed

text \<open>
  C6: replaying the routing of a completion changes nothing. Whatever a completed task belongs to
  (a graph node, a chain step, an iter or a batch, or nothing but its hooks), doing the work after
  its resolution a second time, from a redelivered completion or from the reaper, leaves the
  database as the first time left it, when the broker accepts messages.
\<close>

theorem routing_replay_changes_nothing:
  assumes "chain_inv d" "accepting w" "route w now trace v t a s d = Inr d'"
  shows "route w now' trace' v t a s d' = Inr d'"
proof (cases "t_graph_node t = None")
  case True
  then obtain h e where h: "route_workflow_completion w now trace v t a d = Inr (h, e)"
    "d' = (if h then e else dispatch_hooks w t a s e)"
    using assms(3) by (auto simp: route_def elim!: rbindE)
  have again: "route_workflow_completion w now' trace' v t a e = Inr (h, e)"
    by (rule route_workflow_again [OF assms(1) h(1)])
  show ?thesis
  proof (cases h)
    case True
    then show ?thesis using \<open>t_graph_node t = None\<close> again h(2) by (simp add: route_def)
  next
    case False
    then have none: "find (\<lambda>s. s_task s = Some (t_id t)) (d_steps v) = None"
      "(if t_iter t \<noteq> None then t_iter t else t_batch t) = None"
      using h(1) by (auto simp: route_workflow_completion_def elim!: rbindE split: option.splits if_splits)
    then have "route_workflow_completion w now' trace' v t a d' = Inr (False, d')"
      by (simp add: route_workflow_completion_def)
    then show ?thesis using \<open>t_graph_node t = None\<close> False h(2) dispatch_hooks_again [OF assms(2)]
      by (simp add: route_def)
  qed
next
  case False
  then obtain e where e: "handle_node_completion w now t d = Inr e" "d' = dispatch_hooks w t a s e"
    using assms(3) by (auto simp: route_def elim!: rbindE)
  have "handle_node_completion w now' t d' = Inr d'"
    by (rule handle_node_again [OF e(1)]) (simp_all add: e(2))
  then show ?thesis using False e(2) dispatch_hooks_again [OF assms(2)] by (simp add: route_def)
qed

text \<open>The success of the demonstration chain's first step, routed twice.\<close>

definition route_first :: "time \<Rightarrow> db \<Rightarrow> db res" where
  "route_first now d = route demo_world now None first_done (the (get_task 103 first_done)) first_step_attempt True d"

lemma accepting_demo: "accepting demo_world"
  by (simp add: accepting_def demo_world_def)

theorem routing_replay_changes_nothing_witness:
  "\<exists>d'. route_first 3 first_done = Inr d' \<and> d' \<noteq> first_done \<and> route_first 9 d' = Inr d'"
proof -
  have inv: "chain_inv first_done" by (rule reachable_chain_inv [OF first_done_run])
  have "\<not> isl (route_first 3 first_done)" by code_simp
  note h = ok_dbI [OF this]
  have "d_queue (ok_db (route_first 3 first_done)) \<noteq> d_queue first_done" by code_simp
  moreover have "route_first 9 (ok_db (route_first 3 first_done)) = Inr (ok_db (route_first 3 first_done))"
    using routing_replay_changes_nothing [OF inv accepting_demo h [unfolded route_first_def [of 3 first_done]], of 9 None]
    unfolding route_first_def [of 3 first_done] route_first_def [of 9] .
  ultimately show ?thesis using h by metis
qed

section \<open>Sweeps over several transactions\<close>

lemma then_run_Inr: "then_run x f = (Inr b, d') \<longleftrightarrow> (\<exists>a e. x = (Inr a, e) \<and> f a e = (Inr b, d'))"
  by (cases x; cases "fst x") (auto simp: then_run_def)

lemma commit_Inr: "commit d r = (Inr a, d') \<longleftrightarrow> r = Inr (a, d')"
  by (auto simp: commit_def split: sum.splits)

lemma did_Inr: "did x = (Inr b, d') \<longleftrightarrow> b \<and> x = (Inr (), d')"
  by (auto simp: did_def then_run_Inr)

text \<open>A sweep keeps what each of its steps keeps, and reached every element of its list.\<close>

lemma each_keeps:
  assumes "each f xs d = (Inr n, d')" "P d" "\<And>x b d d'. f x d = (Inr b, d') \<Longrightarrow> P d \<Longrightarrow> P d'"
  shows "P d'"
  using assms(1,2)
proof (induction xs arbitrary: d n)
  case (Cons x xs)
  then obtain b e m where "f x d = (Inr b, e)" "each f xs e = (Inr m, d')" by (auto simp: then_run_Inr)
  then show ?case using Cons.IH [of e m] assms(3) [of x d b e] Cons.prems(2) by blast
qed simp

lemma each_reached:
  assumes "each f xs d = (Inr n, d')" "x \<in> set xs" "J d"
    and "\<And>x b d d'. f x d = (Inr b, d') \<Longrightarrow> J d \<Longrightarrow> J d'"
    and "\<And>b d d'. f x d = (Inr b, d') \<Longrightarrow> J d \<Longrightarrow> P d'"
    and "\<And>y b d d'. f y d = (Inr b, d') \<Longrightarrow> P d \<Longrightarrow> P d'"
  shows "P d'"
  using assms(1-3)
proof (induction xs arbitrary: d n)
  case (Cons y ys)
  from Cons.prems(1) obtain b e m where st: "f y d = (Inr b, e)" "each f ys e = (Inr m, d')"
    by (auto simp: then_run_Inr)
  show ?case
  proof (cases "y = x")
    case True
    with st(1) have "f x d = (Inr b, e)" by simp
    then have "P e" using assms(5) Cons.prems(3) by blast
    then show ?thesis using each_keeps [OF st(2), of P] assms(6) by blast
  next
    case False
    then have "x \<in> set ys" using Cons.prems(2) by simp
    then show ?thesis using Cons.IH [OF st(2)] assms(4) [OF st(1) Cons.prems(3)] by blast
  qed
qed simp

lemma route_and_mark_Inr:
  "route_and_mark w now trace v t a s d = (Inr (), d') \<longleftrightarrow>
    (\<exists>e. route w now trace v t a s d = Inr e \<and> d' = mark_routed (a_id a) e)"
  by (auto simp: route_and_mark_def commit_Inr elim!: rbindE)

definition has_attempt :: "id \<Rightarrow> db \<Rightarrow> bool" where
  "has_attempt i d \<longleftrightarrow> i \<in> fst ` set (att_view d)"

lemma quiet_keeps: "quiet d d' \<Longrightarrow> has_attempt i d \<Longrightarrow> has_attempt i d'"
  "quiet d d' \<Longrightarrow> routed i d \<Longrightarrow> routed i d'"
  by (auto simp: quiet_def has_attempt_def)

lemma mark_routed_routed:
  assumes "has_attempt i d"
  shows "routed i (mark_routed i d)"
proof -
  obtain x where x: "x \<in> set (d_attempts d)" "a_id x = i"
    using assms by (auto simp: has_attempt_def att_view_def)
  have "(if a_id x = i then x\<lparr>a_routed := True\<rparr> else x) \<in> set (d_attempts (mark_routed i d))"
    using x(1) by (simp add: mark_routed_def upd_where_def)
  then show ?thesis using x(2) unfolding routed_def by (intro bexI [of _ "x\<lparr>a_routed := True\<rparr>"]) simp_all
qed



section \<open>What the reaper decides\<close>

text \<open>An attempt the reaper's transaction takes for lost.\<close>

definition lost :: "time \<Rightarrow> db \<Rightarrow> attempt_row \<Rightarrow> bool" where
  "lost cutoff d a \<longleftrightarrow> a_success a = None \<and> task_running d a \<and>
     (a_heartbeat a = None \<or> before (a_heartbeat a) cutoff) \<and>
     \<not> exists_where (\<lambda>q. a_q2 a = Some (q_id q)) (d_q2 d)"

text \<open>
  The reaper decides by what the attempt left behind. An attempt is taken for lost exactly
  when it is unresolved, its task is running, no heartbeat reached the cutoff and the broker's
  store has no result for it; then it becomes a success if its node output was committed and a
  failure if not. Any other attempt keeps the outcome it had.
\<close>

theorem reaper_decision:
  assumes "run_steps (completion_step w) empty_db d" "get_attempt i d = Some a"
    and "reap_transaction w u now cutoff i d = Inr (r, d')"
  shows "settled_as i d' = (if lost cutoff d a then Some (a_committed_at a \<noteq> None) else a_success a)"
proof -
  have inv: "resolve_inv d" by (rule completions.run_keeps [OF assms(1) empty_resolve_inv])
  obtain t where t: "get_task (a_task a) d = Some t"
    using assms(2,3) by (cases "get_task (a_task a) d") (simp_all add: reap_transaction_def)
  show ?thesis
  proof (cases "lost cutoff d a")
    case True
    then have "r \<noteq> NotReaped"
      using assms(3) unfolding lost_def task_running_def
      by (auto simp: reap_transaction_def assms(2) t resolve_committed_def Let_def elim!: reap_failure_Inr
          split: if_splits)
    then obtain s where "s = (a_committed_at a \<noteq> None)" "resolves i s d d'"
      using reap_transaction_resolves [OF inv assms(3)] assms(2) by auto
    then show ?thesis using resolves_settled [of i s d d' i] assms(2) True by simp
  next
    case False
    then have "d' = d"
      using assms(3) t by (auto simp: lost_def task_running_def reap_transaction_def assms(2) split: if_splits)
    then show ?thesis using assms(2) False by (simp add: settled_as_def)
  qed
qed

text \<open>The same attempt of the demonstration chain, reaped long after, and still.\<close>

theorem reaper_decision_witness:
  "\<exists>r d'. reap_transaction demo_world 0 9000 8000 104 chain_db1 = Inr (r, d') \<and> settled_as 104 d' = Some False"
proof -
  let ?a = "the (get_attempt 104 chain_db1)" and ?r = "reap_transaction demo_world 0 9000 8000 104 chain_db1"
  have "get_attempt 104 chain_db1 \<noteq> None" by code_simp
  then have a: "get_attempt 104 chain_db1 = Some ?a" by simp
  have l: "lost 8000 chain_db1 ?a" "a_committed_at ?a = None" by code_simp+
  have "\<not> isl ?r" by code_simp
  then obtain x where "?r = Inr x" by (cases ?r) auto
  then obtain r d' where r: "?r = Inr (r, d')" by (cases x) simp
  show ?thesis using reaper_decision [OF demo_completions(1) a r] l r by auto
qed

end
