(* ===== verification/Qraft_Context.thy ===== *)
theory Qraft_Context
  imports Qraft_Usage Qraft_Lease
begin

text \<open>
  What a task function sees of the attempt that executes it (\<^verbatim>\<open>qraft/context.py\<close>):
  the ids of the attempt, its usage record, the budgets of its graph and its progress report.
  \<^item> \<open>ctx\<close> holds the context variables of one executing thread.
  \<^item> Usage, budgets and progress are each written by one SQL statement on PostgreSQL and by a
    locked read and write elsewhere; \<open>pg\<close> says which, and the two are shown to agree.
\<close>

section \<open>The executing attempt\<close>

record bound_ids =
  bi_task :: id
  bi_attempt :: id
  bi_number :: nat
  bi_func :: string
  bi_graph :: "id option"
  bi_node :: "string option"
  bi_generation :: "nat option"
  bi_subject_type :: "string option"
  bi_subject_id :: "string option"

record ctx =
  cx_q2 :: "q2id option"
  cx_bound :: "bound_ids option"
  cx_claim :: "(q2id \<times> verdict \<times> time) option"

definition context_pre_execute :: "q2id option \<Rightarrow> ctx \<Rightarrow> ctx" where
  "context_pre_execute q cx = cx\<lparr>cx_q2 := q, cx_bound := None\<rparr>"

definition clear_context :: "ctx \<Rightarrow> ctx" where
  "clear_context cx = cx\<lparr>cx_q2 := None, cx_bound := None, cx_claim := None\<rparr>"

definition current_attempt :: "ctx \<Rightarrow> db \<Rightarrow> attempt_row option" where
  "current_attempt cx d =
     (case cx_q2 cx of
        None \<Rightarrow> None
      | Some q \<Rightarrow> find (\<lambda>a. a_q2 a = Some q) (d_attempts d))"

text \<open>\<open>task_node\<close>: the row behind \<^verbatim>\<open>task.graph_node\<close>.\<close>

definition task_node :: "task_row \<Rightarrow> db \<Rightarrow> node_row option" where
  "task_node t d = Option.bind (t_graph_node t) (\<lambda>n. get_node n d)"

definition bind_attempt :: "attempt_row \<Rightarrow> task_row \<Rightarrow> db \<Rightarrow> ctx \<Rightarrow> bound_ids \<times> ctx" where
  "bind_attempt a t d cx =
     (let b = \<lparr>bi_task = t_id t, bi_attempt = a_id a, bi_number = a_number a, bi_func = t_func t,
        bi_graph = t_graph_id t, bi_node = t_node t,
        bi_generation = map_option n_generation (task_node t d),
        bi_subject_type = t_subject_type t, bi_subject_id = t_subject_id t\<rparr> in
      (b, cx\<lparr>cx_bound := Some b\<rparr>))"

text \<open>None stands for the dict of Nones.\<close>

definition current_context :: "ctx \<Rightarrow> db \<Rightarrow> bound_ids option \<times> ctx" where
  "current_context cx d =
     (case cx_bound cx of
        Some b \<Rightarrow> (Some b, cx)
      | None \<Rightarrow>
          (case current_attempt cx d of
             None \<Rightarrow> (None, cx)
           | Some a \<Rightarrow>
               (case get_task (a_task a) d of
                  None \<Rightarrow> (None, cx)
                | Some t \<Rightarrow> (let (b, cx) = bind_attempt a t d cx in (Some b, cx)))))"

definition current_attempt_id :: "ctx \<Rightarrow> db \<Rightarrow> id option" where
  "current_attempt_id cx d = map_option bi_attempt (fst (current_context cx d))"

record node_identity =
  ni_graph :: id
  ni_key :: string
  ni_generation :: nat
  ni_task :: id
  ni_attempt :: id
  ni_number :: nat
  ni_subject_type :: "string option"
  ni_subject_id :: "string option"
  ni_metadata :: "pyval option"

definition current_node :: "ctx \<Rightarrow> db \<Rightarrow> node_identity option" where
  "current_node cx d =
     Option.bind (current_attempt cx d) (\<lambda>a.
     Option.bind (get_task (a_task a) d) (\<lambda>t.
     Option.bind (task_node t d) (\<lambda>n.
     Option.bind (get_graph (n_graph n) d) (\<lambda>g.
       Some \<lparr>ni_graph = g_id g, ni_key = n_key n, ni_generation = n_generation n, ni_task = t_id t,
         ni_attempt = a_id a, ni_number = a_number a, ni_subject_type = g_subject_type g,
         ni_subject_id = g_subject_id g, ni_metadata = g_metadata g\<rparr>))))"

section \<open>Recording usage\<close>

text \<open>
  \<^verbatim>\<open>_pg_usage_update\<close>: the row's value is concatenated with the sums (money keys as
  decimal text, counters as numbers), then with the fields that are neither, then with the
  entries. Every piece reads the value before the statement.
\<close>

definition pg_sum :: "dict \<Rightarrow> string \<Rightarrow> pyval \<Rightarrow> pyval option" where
  "pg_sum usage k v =
     (case (k \<in> set money_keys, money v) of
        (True, Some inc) \<Rightarrow>
          Some (PMoney ((case money (lookup usage k) of Some t \<Rightarrow> t | None \<Rightarrow> 0) + inc))
      | _ \<Rightarrow>
          if is_numeric v
          then Some (if is_numeric (lookup usage k)
                     then (case add_usage (lookup usage k) v of Inr s \<Rightarrow> s | Inl _ \<Rightarrow> v) else v)
          else None)"

definition pg_entries :: "dict \<Rightarrow> dict option \<Rightarrow> dict" where
  "pg_entries usage entry =
     (case entry of
        None \<Rightarrow> []
      | Some e \<Rightarrow> [(''entries'', PList ((case dict_get usage ''entries'' of
            None \<Rightarrow> [] | Some (PList xs) \<Rightarrow> xs | Some v \<Rightarrow> [v]) @ [PDict e]))])"

definition pg_merge :: "dict \<Rightarrow> dict \<Rightarrow> dict option \<Rightarrow> dict" where
  "pg_merge usage flds entry =
     dict_merge usage
       (map (\<lambda>(k, v). (k, the (pg_sum usage k v))) (filter (\<lambda>(k, v). pg_sum usage k v \<noteq> None) flds) @
        filter (\<lambda>(k, v). pg_sum usage k v = None) flds @ pg_entries usage entry)"

definition pg_usage_update :: "id \<Rightarrow> dict \<Rightarrow> dict option \<Rightarrow> db \<Rightarrow> db" where
  "pg_usage_update i flds entry d =
     upd_attempts (\<lambda>a. a_id a = i) (\<lambda>a. a\<lparr>a_usage := Some (pg_merge
       (case a_usage a of Some u \<Rightarrow> u | None \<Rightarrow> []) flds entry)\<rparr>) d"

definition record_usage :: "bool \<Rightarrow> world \<Rightarrow> ctx \<Rightarrow> dict \<Rightarrow> db \<Rightarrow> db res" where
  "record_usage pg w cx flds d =
     (case current_attempt cx d of
        None \<Rightarrow> Inr d
      | Some a \<Rightarrow>
          rbind (usage_entry (w_pricing w) flds) (\<lambda>entry.
          if pg then Inr (pg_usage_update (a_id a) flds entry d)
          else write_usage (a_id a) flds entry d))"

text \<open>The usage of a workflow is the sum of its tasks' sums; a subject's is that of its attempts.\<close>

fun sum_tasks :: "world \<Rightarrow> id list \<Rightarrow> db \<Rightarrow> dict option list res" where
  "sum_tasks w [] d = Inr []"
| "sum_tasks w (t # ts) d =
     rbind (aggregate_usage w t d) (\<lambda>u.
     rbind (sum_tasks w ts d) (\<lambda>us. Inr (Some u # us)))"

definition aggregate_par_usage :: "world \<Rightarrow> id \<Rightarrow> db \<Rightarrow> dict res" where
  "aggregate_par_usage w i d =
     rbind (sum_tasks w (map t_id (sort_key (\<lambda>t. - t_created t)
        (filter (\<lambda>t. t_iter t = Some i \<or> t_batch t = Some i) (d_tasks d)))) d)
       (sum_usage (w_pricing w))"

definition aggregate_chain_usage :: "world \<Rightarrow> id \<Rightarrow> db \<Rightarrow> dict res" where
  "aggregate_chain_usage w c d =
     rbind (sum_tasks w (map (the \<circ> s_task) (filter (\<lambda>s. s_chain s = c \<and> s_task s \<noteq> None)
         (sort_key s_index (d_steps d)))) d)
       (sum_usage (w_pricing w))"

definition aggregate_subject_usage :: "world \<Rightarrow> string \<Rightarrow> string \<Rightarrow> db \<Rightarrow> dict res" where
  "aggregate_subject_usage w ty i d =
     sum_usage (w_pricing w) (map a_usage (sort_key a_number (filter (\<lambda>a. case get_task (a_task a) d of
         Some t \<Rightarrow> t_subject_type t = Some ty \<and> t_subject_id t = Some i | None \<Rightarrow> False)
       (d_attempts d))))"

section \<open>Budgets\<close>

definition budget_value :: "string \<Rightarrow> graph_row \<Rightarrow> pyval option" where
  "budget_value key g = Option.bind (g_budgets g) (\<lambda>b. dict_get b key)"

definition affords :: "string \<Rightarrow> int \<Rightarrow> graph_row \<Rightarrow> bool" where
  "affords key n g = (case budget_value key g of
     None \<Rightarrow> False
   | Some v \<Rightarrow> is_numeric v \<and> (case money v of Some r \<Rightarrow> of_int n \<le> r | None \<Rightarrow> False))"

fun num_minus :: "pyval \<Rightarrow> int \<Rightarrow> pyval" where
  "num_minus (PInt i) n = PInt (i - n)"
| "num_minus (PFloat r) n = PFloat (r - of_int n)"
| "num_minus v n = v"

fun num_int :: "pyval \<Rightarrow> int" where
  "num_int (PInt i) = i"
| "num_int (PFloat r) = py_int r"
| "num_int v = 0"

definition charged :: "string \<Rightarrow> int \<Rightarrow> graph_row \<Rightarrow> graph_row" where
  "charged key n g = g\<lparr>g_budgets := map_option (\<lambda>b.
     dict_set key (num_minus (case dict_get b key of Some v \<Rightarrow> v | None \<Rightarrow> PNone) n) b) (g_budgets g)\<rparr>"

definition budget_left :: "string \<Rightarrow> graph_row \<Rightarrow> int option" where
  "budget_left key g = map_option num_int (budget_value key g)"

text \<open>One guarded statement; its RETURNING clause reads the updated row.\<close>

definition pg_consume_budget :: "id \<Rightarrow> string \<Rightarrow> int \<Rightarrow> db \<Rightarrow> int option \<times> db" where
  "pg_consume_budget g key n d =
     (let P = (\<lambda>x. g_id x = g \<and> affords key n x) in
      (Option.bind (find P (d_graphs d)) (\<lambda>x. budget_left key (charged key n x)),
       upd_graphs P (charged key n) d))"

definition locked_consume_budget :: "id \<Rightarrow> string \<Rightarrow> int \<Rightarrow> db \<Rightarrow> (int option \<times> db) res" where
  "locked_consume_budget g key n d =
     (case get_graph g d of
        None \<Rightarrow> Inl DoesNotExist
      | Some x \<Rightarrow>
          if \<not> affords key n x then Inr (None, d)
          else (let x' = charged key n x in
            Inr (budget_left key x',
              upd_graphs (\<lambda>y. g_id y = g) (\<lambda>y. y\<lparr>g_budgets := g_budgets x'\<rparr>) d)))"

definition budget_declares :: "id \<Rightarrow> string \<Rightarrow> db \<Rightarrow> bool" where
  "budget_declares g key d \<longleftrightarrow> Option.bind (get_graph g d) (budget_value key) \<noteq> None"

definition charged_graph :: "id option \<Rightarrow> ctx \<Rightarrow> db \<Rightarrow> id option \<times> ctx" where
  "charged_graph g cx d =
     (if g \<noteq> None then (g, cx)
      else (let (b, cx) = current_context cx d in (Option.bind b bi_graph, cx)))"

definition consume_budget ::
  "bool \<Rightarrow> string \<Rightarrow> int \<Rightarrow> id option \<Rightarrow> ctx \<Rightarrow> db \<Rightarrow> (int option \<times> db) res \<times> ctx" where
  "consume_budget pg key n g cx d =
     (if n \<le> 0 then (Inl (ValueError ''consume_budget''), cx)
      else (let (g, cx) = charged_graph g cx d in
        (case g of
           None \<Rightarrow> Inr (None, d)
         | Some g \<Rightarrow>
             if \<not> budget_declares g key d then Inr (None, d)
             else rbind (if pg then Inr (pg_consume_budget g key n d) else locked_consume_budget g key n d)
               (\<lambda>(left, d). if left = None then Inl BudgetExhausted else Inr (left, d)), cx)))"

definition remaining_budget :: "string \<Rightarrow> id option \<Rightarrow> ctx \<Rightarrow> db \<Rightarrow> int option \<times> ctx" where
  "remaining_budget key g cx d =
     (let (g, cx) = charged_graph g cx d in
      (Option.bind g (\<lambda>g. Option.bind (get_graph g d) (\<lambda>x. Option.bind (budget_value key x) (\<lambda>v.
         if is_numeric v then Some (num_int v) else None))), cx))"

section \<open>Progress\<close>

text \<open>The keyword arguments in \<open>extra\<close> have names of their own.\<close>

definition progress_payload :: "pyval option \<Rightarrow> pyval option \<Rightarrow> pyval option \<Rightarrow> dict \<Rightarrow> dict" where
  "progress_payload current tot message extra =
     filter (\<lambda>(k, v). v \<noteq> PNone)
       ([(''current'', default_to PNone current), (''total'', default_to PNone tot),
         (''message'', default_to PNone message)] @ extra)"

text \<open>
  \<^verbatim>\<open>advanced\<close>: a given value differs from the stored one.
\<close>

definition advanced :: "dict option \<Rightarrow> pyval option \<Rightarrow> pyval option \<Rightarrow> bool" where
  "advanced kept current tot \<longleftrightarrow>
     (let differs = (\<lambda>k v. v \<noteq> None \<and> Option.bind kept (\<lambda>p. dict_get p k) \<noteq> v) in
      differs ''current'' current \<or> differs ''total'' tot)"

definition progressed ::
  "dict \<Rightarrow> pyval option \<Rightarrow> pyval option \<Rightarrow> time \<Rightarrow> attempt_row \<Rightarrow> attempt_row" where
  "progressed payload current tot now a =
     a\<lparr>a_progress := Some (dict_merge (case a_progress a of Some p \<Rightarrow> p | None \<Rightarrow> []) payload),
       a_reported_at := Some now,
       a_advanced_at := (if advanced (a_progress a) current tot then Some now else a_advanced_at a)\<rparr>"

definition pg_progress_update ::
  "id \<Rightarrow> dict \<Rightarrow> pyval option \<Rightarrow> pyval option \<Rightarrow> time \<Rightarrow> time option \<Rightarrow> bool \<Rightarrow> db \<Rightarrow> dict option \<times> db"
where
  "pg_progress_update i payload current tot now cutoff force d =
     (let P = (\<lambda>a. a_id a = i \<and> (force \<or> (case cutoff of None \<Rightarrow> True
            | Some c \<Rightarrow> (case a_reported_at a of None \<Rightarrow> True
                | Some r \<Rightarrow> r \<le> c \<or> advanced (a_progress a) current tot))));
          f = progressed payload current tot now in
      (Option.bind (find P (d_attempts d)) (\<lambda>a. a_progress (f a)), upd_attempts P f d))"

definition locked_progress_update ::
  "id \<Rightarrow> dict \<Rightarrow> pyval option \<Rightarrow> pyval option \<Rightarrow> time \<Rightarrow> time option \<Rightarrow> bool \<Rightarrow> db \<Rightarrow>
   (dict option \<times> db) res"
where
  "locked_progress_update i payload current tot now cutoff force d =
     (case get_attempt i d of
        None \<Rightarrow> Inl DoesNotExist
      | Some a \<Rightarrow>
          if \<not> force \<and> (case (cutoff, a_reported_at a) of (Some c, Some r) \<Rightarrow> c < r | _ \<Rightarrow> False) \<and>
            \<not> advanced (a_progress a) current tot
          then Inr (None, d)
          else (let a' = progressed payload current tot now a in
            Inr (a_progress a', upd_attempts (\<lambda>x. a_id x = i)
              (\<lambda>x. x\<lparr>a_progress := a_progress a', a_reported_at := a_reported_at a',
                     a_advanced_at := a_advanced_at a'\<rparr>) d)))"

definition snapshot_progress :: "attempt_row \<Rightarrow> dict \<Rightarrow> db \<Rightarrow> db" where
  "snapshot_progress a merged d =
     upd_tasks (\<lambda>t. t_id t = a_task a \<and>
         \<not> exists_where (\<lambda>b. a_task b = t_id t \<and> a_number a < a_number b) (d_attempts d))
       (\<lambda>t. t\<lparr>t_progress := Some (dict_set ''attempt_id'' (PInt (int (a_id a))) merged)\<rparr>) d"

definition report_progress ::
  "bool \<Rightarrow> world \<Rightarrow> time \<Rightarrow> pyval option \<Rightarrow> pyval option \<Rightarrow> pyval option \<Rightarrow> bool \<Rightarrow> dict \<Rightarrow> ctx \<Rightarrow> db \<Rightarrow>
   (bool \<times> db) res"
where
  "report_progress pg w now current tot message force extra cx d =
     (case current_attempt cx d of
        None \<Rightarrow> Inr (False, d)
      | Some a \<Rightarrow>
          (let payload = progress_payload current tot message extra;
               cutoff = (if w_progress_interval w = 0 then None else Some (now - w_progress_interval w)) in
           rbind (if pg then Inr (pg_progress_update (a_id a) payload current tot now cutoff force d)
                  else locked_progress_update (a_id a) payload current tot now cutoff force d)
             (\<lambda>(merged, d). Inr (case merged of
                None \<Rightarrow> (False, d)
              | Some m \<Rightarrow> (True, snapshot_progress a m d)))))"

section \<open>The two ways to write agree\<close>

lemma keyed_find:
  assumes "get_by pk i rs = Some x"
  shows "distinct (map pk rs) \<Longrightarrow> find (\<lambda>y. pk y = i \<and> Q y) rs = (if Q x then Some x else None)"
  using assms
proof (induction rs)
  case (Cons r rs)
  show ?case
  proof (cases "pk r = i")
    case True
    then have "find (\<lambda>y. pk y = i \<and> Q y) rs = None" using Cons.prems(1) by (auto simp: find_None_iff image_iff)
    then show ?thesis using True Cons.prems(2) by simp
  qed (use Cons in simp)
qed simp

lemma keyed_upd:
  assumes "distinct (map pk rs)" "get_by pk i rs = Some x" "f x = h x"
  shows "upd_where (\<lambda>y. pk y = i \<and> Q y) f rs = (if Q x then upd_where (\<lambda>y. pk y = i) h rs else rs)"
proof -
  have "y = x" if "y \<in> set rs" "pk y = i" for y
    using get_by_SomeD [OF assms(2)] key_inj [OF assms(1) that(1), of x] that by simp
  then have y: "\<And>y. y \<in> set rs \<Longrightarrow> pk y = i \<Longrightarrow> y = x" .
  show ?thesis
  proof (cases "Q x")
    case True
    have "upd_where (\<lambda>y. pk y = i \<and> Q y) f rs = upd_where (\<lambda>y. pk y = i) h rs"
      unfolding upd_where_def by (rule map_cong [OF refl]) (use y True assms(3) in auto)
    then show ?thesis using True by simp
  next
    case False
    have "\<not> exists_where (\<lambda>y. pk y = i \<and> Q y) rs" using y False by (auto simp: exists_where_iff)
    then show ?thesis using False by (simp add: upd_where_none)
  qed
qed

lemma merge_field_other: "k' \<noteq> k \<Longrightarrow> lookup (merge_field k v u) k' = lookup u k'"
  by (auto simp: merge_field_def Let_def split: bool.splits option.splits sum.splits)

lemma numeric_add:
  assumes "is_numeric a" "is_numeric b" "\<not> is_dec a" "\<not> is_dec b"
  obtains s where "add_usage a b = Inr s" "\<not> is_dec s"
  using assms by (cases a; cases b) (simp_all add: add_usage_def)

lemma merge_field_value:
  assumes "\<not> is_dec v" "\<not> is_dec (lookup u k)"
  shows "lookup (merge_field k v u) k = (case pg_sum u k v of Some s \<Rightarrow> s | None \<Rightarrow> v)"
    and "\<not> is_dec (case pg_sum u k v of Some s \<Rightarrow> s | None \<Rightarrow> v)"
proof -
  have num: "lookup (merge_field k v u) k = (case pg_sum u k v of Some s \<Rightarrow> s | None \<Rightarrow> v) \<and>
      \<not> is_dec (case pg_sum u k v of Some s \<Rightarrow> s | None \<Rightarrow> v)"
    if "k \<notin> set money_keys \<or> money v = None"
  proof (cases "is_numeric v \<and> is_numeric (lookup u k)")
    case True
    then obtain s where "add_usage (lookup u k) v = Inr s" "\<not> is_dec s"
      using numeric_add [of "lookup u k" v] assms by blast
    then show ?thesis using True that by (cases "k \<in> set money_keys") (simp_all add: merge_field_def pg_sum_def Let_def)
  next
    case False
    then show ?thesis using that assms
      by (cases "k \<in> set money_keys"; cases "is_numeric v") (simp_all add: merge_field_def pg_sum_def Let_def)
  qed
  have mon: "lookup (merge_field k v u) k = (case pg_sum u k v of Some s \<Rightarrow> s | None \<Rightarrow> v) \<and>
      \<not> is_dec (case pg_sum u k v of Some s \<Rightarrow> s | None \<Rightarrow> v)"
    if "k \<in> set money_keys" "money v = Some r" for r
    using that by (cases "money (lookup u k)") (simp_all add: merge_field_def pg_sum_def Let_def)
  show "lookup (merge_field k v u) k = (case pg_sum u k v of Some s \<Rightarrow> s | None \<Rightarrow> v)"
    and "\<not> is_dec (case pg_sum u k v of Some s \<Rightarrow> s | None \<Rightarrow> v)"
    using num mon by (cases "money v"; blast)+
qed

lemma pg_sum_cong: "lookup u k = lookup u' k \<Longrightarrow> pg_sum u k v = pg_sum u' k v"
  unfolding pg_sum_def by (simp only:)

text \<open>The value of a key after the fields are merged, in either way.\<close>

definition merged_value :: "dict \<Rightarrow> dict \<Rightarrow> string \<Rightarrow> pyval" where
  "merged_value u flds k = (case map_of flds k of
     None \<Rightarrow> lookup u k
   | Some v \<Rightarrow> (case pg_sum u k v of Some s \<Rightarrow> s | None \<Rightarrow> v))"

lemma fold_merge_field:
  assumes "distinct (map fst flds)" "list_all (\<lambda>(k, v). \<not> is_dec v) flds" "\<And>k. \<not> is_dec (lookup u k)"
  shows "lookup (fold (\<lambda>(k, v). merge_field k v) flds u) k = merged_value u flds k"
  using assms
proof (induction flds arbitrary: u)
  case (Cons x flds)
  obtain j v where x: "x = (j, v)" by (cases x)
  have v: "\<not> is_dec v" using Cons.prems(2) x by simp
  have nd: "\<not> is_dec (lookup (merge_field j v u) k)" for k
    using merge_field_value [OF v Cons.prems(3) [of j]] merge_field_other [of k j v u] Cons.prems(3)
    by (cases "k = j") auto
  have IH: "lookup (fold (\<lambda>(k, v). merge_field k v) flds (merge_field j v u)) k =
      merged_value (merge_field j v u) flds k"
    by (rule Cons.IH) (use Cons.prems nd in auto)
  show ?case
  proof (cases "k = j")
    case True
    then have "map_of flds k = None" using Cons.prems(1) x by (simp add: map_of_eq_None_iff)
    then show ?thesis using IH True x merge_field_value(1) [OF v Cons.prems(3) [of j]]
      by (simp add: merged_value_def)
  next
    case False
    have m: "lookup (merge_field j v u) k = lookup u k" by (rule merge_field_other [OF False])
    show ?thesis using IH x False
      by (cases "map_of flds k") (simp_all add: merged_value_def m pg_sum_cong [OF m])
  qed
qed (simp add: merged_value_def)

lemma map_of_rev_distinct: "distinct (map fst xs) \<Longrightarrow> map_of (rev xs) = map_of xs"
proof
  fix k assume d: "distinct (map fst xs)"
  show "map_of (rev xs) k = map_of xs k"
  proof (cases "map_of xs k")
    case None
    then have "map_of (rev xs) k = None" by (simp add: map_of_eq_None_iff)
    then show ?thesis using None by simp
  next
    case (Some v)
    then have "(k, v) \<in> set (rev xs)" by (simp add: map_of_SomeD)
    then show ?thesis using Some d by (simp add: map_of_is_SomeI rev_map [symmetric])
  qed
qed

lemma pg_merge_fields:
  assumes "distinct (map fst flds)"
  shows "lookup (pg_merge u flds None) k = merged_value u flds k"
proof -
  define P where "P = (\<lambda>x :: string \<times> pyval. pg_sum u (fst x) (snd x) \<noteq> None)"
  define A where "A = map (\<lambda>x. (fst x, the (pg_sum u (fst x) (snd x)))) (filter P flds)"
  define B where "B = filter (\<lambda>x. \<not> P x) flds"
  have merge: "pg_merge u flds None = dict_merge u (A @ B)"
    by (simp add: pg_merge_def pg_entries_def A_def B_def P_def split_def)
  have uniq: "x = y" if "x \<in> set flds" "y \<in> set flds" "fst x = fst y" for x y
    using key_inj [OF assms that] .
  have keys: "map fst A = map fst (filter P flds)" by (simp add: A_def comp_def)
  have "fst ` set (filter P flds) \<inter> fst ` set B = {}" unfolding B_def using uniq by fastforce
  then have d: "distinct (map fst (A @ B))"
    using assms keys by (simp add: B_def distinct_map_filter list.set_map [symmetric] del: list.set_map)
  have "map_of (A @ B) k = map_option (\<lambda>v. case pg_sum u k v of Some s \<Rightarrow> s | None \<Rightarrow> v) (map_of flds k)"
  proof (cases "map_of flds k")
    case None
    then have "k \<notin> fst ` set flds" by (simp add: map_of_eq_None_iff)
    moreover have "fst ` set (A @ B) \<subseteq> fst ` set flds" by (force simp: A_def B_def)
    ultimately have "k \<notin> fst ` set (A @ B)" by blast
    then have "map_of (A @ B) k = None" unfolding map_of_eq_None_iff .
    then show ?thesis using None by simp
  next
    case (Some v)
    then have v: "(k, v) \<in> set flds" by (rule map_of_SomeD)
    have "(k, case pg_sum u k v of Some s \<Rightarrow> s | None \<Rightarrow> v) \<in> set (A @ B)"
    proof (cases "pg_sum u k v")
      case None
      then show ?thesis using v by (simp add: B_def P_def)
    next
      case s: (Some s)
      then have "(k, v) \<in> set (filter P flds)" using v by (simp add: P_def)
      then have "(\<lambda>x. (fst x, the (pg_sum u (fst x) (snd x)))) (k, v) \<in> set A"
        unfolding A_def set_map by (rule imageI)
      then show ?thesis using s by simp
    qed
    from map_of_is_SomeI [OF d this] show ?thesis using Some by simp
  qed
  then have "dict_get (pg_merge u flds None) k =
      (case map_of flds k of None \<Rightarrow> dict_get u k | Some v \<Rightarrow> Some (case pg_sum u k v of Some s \<Rightarrow> s | None \<Rightarrow> v))"
    unfolding merge dict_get_merge map_of_rev_distinct [OF d] by (simp split: option.splits)
  then show ?thesis by (simp add: lookup_def merged_value_def split: option.splits)
qed

lemma kept_number: "\<not> is_dec v \<Longrightarrow> stored v = v"
  by (cases v) auto

lemma dict_merge_snoc: "dict_merge a (b @ [(j, v)]) = dict_set j v (dict_merge a b)"
  by (induction a b rule: dict_merge.induct) simp_all

lemma pg_merge_entry:
  assumes "as_list (lookup u ''entries'') = Inr es" "dict_get u ''entries'' \<in> {None} \<union> (Some \<circ> PList) ` UNIV"
  shows "pg_merge u flds (Some e) = dict_set ''entries'' (PList (es @ [PDict e])) (pg_merge u flds None)"
proof -
  have pge: "pg_entries u (Some e) = [(''entries'', PList (es @ [PDict e]))]"
    using assms by (auto simp: pg_entries_def as_list_def lookup_def split: if_splits)
  have pm: "pg_merge u flds en = dict_merge u
      ((map (\<lambda>(k, v). (k, the (pg_sum u k v))) (filter (\<lambda>(k, v). pg_sum u k v \<noteq> None) flds) @
        filter (\<lambda>(k, v). pg_sum u k v = None) flds) @ pg_entries u en)" for en
    by (simp add: pg_merge_def)
  show ?thesis unfolding pm pge by (simp add: dict_merge_snoc pg_entries_def del: append_assoc)
qed



section \<open>A budget is never overspent\<close>

lemma budget_paths_agree:
  assumes "distinct (map g_id (d_graphs d))" "get_graph g d = Some x"
  shows "locked_consume_budget g key n d = Inr (pg_consume_budget g key n d)"
proof -
  have x: "get_by g_id g (d_graphs d) = Some x" using assms(2) by (simp add: get_graph_def)
  have f: "find (\<lambda>y. g_id y = g \<and> affords key n y) (d_graphs d) = (if affords key n x then Some x else None)"
    by (rule keyed_find [OF x assms(1)])
  have u: "upd_where (\<lambda>y. g_id y = g \<and> affords key n y) (charged key n) (d_graphs d) =
      (if affords key n x then upd_where (\<lambda>y. g_id y = g)
        (\<lambda>y. y\<lparr>g_budgets := g_budgets (charged key n x)\<rparr>) (d_graphs d) else d_graphs d)"
    by (rule keyed_upd [OF assms(1) x]) (simp add: charged_def)
  show ?thesis
    by (simp add: locked_consume_budget_def pg_consume_budget_def assms(2) f u upd_graphs_def Let_def)
qed

text \<open>Calls of \<open>consume_budget\<close> and what those accepted spent of one key of one graph.\<close>

type_synonym spending = "bool \<times> string \<times> int \<times> id option \<times> ctx"

fun spend_all :: "id \<Rightarrow> string \<Rightarrow> spending list \<Rightarrow> db \<Rightarrow> int \<times> db" where
  "spend_all g key [] d = (0, d)"
| "spend_all g key ((pg, k, n, i, cx) # cs) d =
     (case fst (consume_budget pg k n i cx d) of
        Inl e \<Rightarrow> spend_all g key cs d
      | Inr (left, d') \<Rightarrow>
          (let (s, d'') = spend_all g key cs d' in
           (if left \<noteq> None \<and> k = key \<and> fst (charged_graph i cx d) = Some g then n + s else s, d'')))"

definition budget_is :: "id \<Rightarrow> string \<Rightarrow> int \<Rightarrow> db \<Rightarrow> bool" where
  "budget_is g key b d \<longleftrightarrow> distinct (map g_id (d_graphs d)) \<and>
     Option.bind (get_graph g d) (budget_value key) = Some (PInt b)"

lemma consume_budget_Inr:
  assumes "fst (consume_budget pg k n i cx d) = Inr (left, d')" "distinct (map g_id (d_graphs d))"
  shows "(left = None \<and> d' = d) \<or> (\<exists>g x. 0 < n \<and> left \<noteq> None \<and> fst (charged_graph i cx d) = Some g \<and>
    get_graph g d = Some x \<and> affords k n x \<and>
    d' = upd_graphs (\<lambda>y. g_id y = g) (\<lambda>y. y\<lparr>g_budgets := g_budgets (charged k n x)\<rparr>) d)"
proof -
  obtain gi cx' where c: "charged_graph i cx d = (gi, cx')" by fastforce
  show ?thesis
  proof (cases "0 < n \<and> (\<exists>g. gi = Some g \<and> budget_declares g k d)")
    case False
    then show ?thesis using assms(1) by (auto simp: consume_budget_def c split: option.splits if_splits)
  next
    case True
    then obtain g where n: "0 < n" and gi: "gi = Some g" and gd: "budget_declares g k d" by blast
    from gd obtain x where x: "get_graph g d = Some x"
      by (cases "get_graph g d") (simp_all add: budget_declares_def)
    note g = n gi gd x
    have "rbind (locked_consume_budget g k n d) (\<lambda>(left, d). if left = None then Inl BudgetExhausted else Inr (left, d)) =
        Inr (left, d')"
      using assms(1) g budget_paths_agree [OF assms(2) g(4), of k n]
      by (simp add: consume_budget_def c split: if_splits)
    then show ?thesis using g
      by (auto simp: locked_consume_budget_def c Let_def split: if_splits)
  qed
qed

lemma budget_step:
  assumes "budget_is g key b d" "0 \<le> b" "fst (consume_budget pg k n i cx d) = Inr (left, d')"
  defines "s \<equiv> if left \<noteq> None \<and> k = key \<and> fst (charged_graph i cx d) = Some g then n else 0"
  shows "budget_is g key (b - s) d' \<and> 0 \<le> b - s"
proof -
  have dst: "distinct (map g_id (d_graphs d))" using assms(1) by (simp add: budget_is_def)
  from consume_budget_Inr [OF assms(3) dst] show ?thesis
  proof (elim disjE exE conjE)
    assume "left = None" "d' = d"
    then show ?thesis using assms(1,2) by (simp add: s_def)
  next
    fix h x assume h: "0 < n" "left \<noteq> None" "fst (charged_graph i cx d) = Some h" "get_graph h d = Some x"
      "affords k n x" "d' = upd_graphs (\<lambda>y. g_id y = h) (\<lambda>y. y\<lparr>g_budgets := g_budgets (charged k n x)\<rparr>) d"
    have dst': "distinct (map g_id (d_graphs d'))" using dst by (simp add: h(6) map_upd_where)
    have get: "get_graph g d' = map_option (\<lambda>y. if g_id y = h then y\<lparr>g_budgets := g_budgets (charged k n x)\<rparr> else y)
        (get_graph g d)"
      by (simp add: get_graph_def h(6) get_by_upd_where)
    obtain y where y: "get_graph g d = Some y" "budget_value key y = Some (PInt b)"
      using assms(1) by (auto simp: budget_is_def bind_eq_Some_conv)
    have gy: "g_id y = g" using get_by_SomeD [of g_id g "d_graphs d" y] y(1) by (simp add: get_graph_def)
    show ?thesis
    proof (cases "h = g")
      case False
      then show ?thesis using get y gy dst' assms(2) h(3) by (simp add: s_def budget_is_def)
    next
      case True
      then have xy: "x = y" using h(4) y(1) by simp
      obtain bs where bs: "g_budgets y = Some bs" "dict_get bs key = Some (PInt b)"
        using y(2) by (auto simp: budget_value_def bind_eq_Some_conv)
      show ?thesis
      proof (cases "k = key")
        case False
        then show ?thesis using get y gy dst' assms(2) True bs xy
          by (simp add: s_def budget_is_def budget_value_def charged_def)
      next
        case k: True
        have "n \<le> b" using h(5) y(2) k xy by (simp add: affords_def)
        then show ?thesis using get y gy dst' True bs xy k h(2,3)
          by (simp add: s_def budget_is_def budget_value_def charged_def)
      qed
    qed
  qed
qed

text \<open>
  C25: a budget is never overspent. However many workers spend from a graph's budget, in whatever
  order and on whichever database, the accepted amounts never exceed what was declared, and the
  stored value is exactly what they left of it.
\<close>

theorem budget_never_overspent:
  assumes "budget_is g key b d" "0 \<le> b" "spend_all g key cs d = (s, d')"
  shows "s \<le> b \<and> budget_is g key (b - s) d'"
  using assms
proof (induction cs arbitrary: d b s d')
  case (Cons c cs)
  obtain pg k n i cx where c: "c = (pg, k, n, i, cx)" by (cases c) auto
  show ?case
  proof (cases "fst (consume_budget pg k n i cx d)")
    case (Inl e)
    then show ?thesis using Cons c by simp
  next
    case (Inr r)
    obtain left e where r: "r = (left, e)" by (cases r)
    obtain u f where u: "spend_all g key cs e = (u, f)" by fastforce
    define v where "v = (if left \<noteq> None \<and> k = key \<and> fst (charged_graph i cx d) = Some g then n else 0)"
    have st: "budget_is g key (b - v) e" "0 \<le> b - v"
      using budget_step [OF Cons.prems(1,2) Inr [unfolded r]] unfolding v_def by simp_all
    have "s = v + u" "d' = f" using Cons.prems(3) by (auto simp: c Inr r u v_def split: if_splits)
    moreover have "u \<le> b - v \<and> budget_is g key (b - v - u) f" by (rule Cons.IH [OF st u])
    ultimately show ?thesis by (simp add: algebra_simps)
  qed
qed simp

text \<open>A graph that declares five requests, and workers that try to make seven.\<close>

definition budget_graph :: graph_row where
  "budget_graph = \<lparr>g_id = 7, g_kind = None, g_revision = None, g_metadata = None, g_previous = None,
     g_status = GRunning, g_generation = 1, g_cluster = None, g_started = 0, g_settled_at = None,
     g_resumed_at = None, g_overdue_at = None, g_on_settled = None, g_on_settled_kwargs = [],
     g_budgets = Some [(''requests'', PInt 5)], g_summary = None, g_request_key = None,
     g_plan_hash = None, g_subject_type = None, g_subject_id = None, g_created = 0, g_updated = 0\<rparr>"

definition no_ctx :: ctx where
  "no_ctx = \<lparr>cx_q2 = None, cx_bound = None, cx_claim = None\<rparr>"

definition budget_db :: db where
  "budget_db = empty_db\<lparr>d_graphs := [budget_graph]\<rparr>"

definition demo_spending :: "spending list" where
  "demo_spending = [(True, ''requests'', 3, Some 7, no_ctx), (False, ''requests'', 3, Some 7, no_ctx),
     (False, ''requests'', 1, Some 7, no_ctx)]"

theorem budget_never_overspent_witness:
  "fst (spend_all 7 ''requests'' demo_spending budget_db) = 4 \<and>
     budget_is 7 ''requests'' 1 (snd (spend_all 7 ''requests'' demo_spending budget_db))"
proof -
  let ?r = "spend_all 7 ''requests'' demo_spending budget_db"
  have "budget_is 7 ''requests'' 5 budget_db" by code_simp
  from budget_never_overspent [OF this _ prod.collapse [symmetric]]
  have "budget_is 7 ''requests'' (5 - fst ?r) (snd ?r)" by simp
  moreover have "fst ?r = 4" by code_simp
  ultimately show ?thesis by simp
qed

section \<open>Progress reports\<close>

lemma progress_paths_agree:
  assumes "distinct (map a_id (d_attempts d))" "get_attempt i d = Some a"
  shows "locked_progress_update i payload current tot now cutoff force d =
    Inr (pg_progress_update i payload current tot now cutoff force d)"
proof -
  define Q where "Q = (\<lambda>a :: attempt_row. force \<or> (case cutoff of None \<Rightarrow> True
    | Some c \<Rightarrow> (case a_reported_at a of None \<Rightarrow> True
        | Some r \<Rightarrow> r \<le> c \<or> advanced (a_progress a) current tot)))"
  define f where "f = progressed payload current tot now"
  have a: "get_by a_id i (d_attempts d) = Some a" using assms(2) by (simp add: get_attempt_def)
  have u: "upd_where (\<lambda>y. a_id y = i \<and> Q y) f (d_attempts d) =
      (if Q a then upd_where (\<lambda>y. a_id y = i) (\<lambda>x. x\<lparr>a_progress := a_progress (f a),
         a_reported_at := a_reported_at (f a), a_advanced_at := a_advanced_at (f a)\<rparr>) (d_attempts d)
       else d_attempts d)"
    by (rule keyed_upd [OF assms(1) a]) (simp add: f_def progressed_def)
  have q: "(\<not> force \<and> (case (cutoff, a_reported_at a) of (Some c, Some r) \<Rightarrow> c < r | _ \<Rightarrow> False) \<and>
      \<not> advanced (a_progress a) current tot) \<longleftrightarrow> \<not> Q a"
    by (auto simp: Q_def not_le split: option.splits)
  have "pg_progress_update i payload current tot now cutoff force d =
      (Option.bind (find (\<lambda>y. a_id y = i \<and> Q y) (d_attempts d)) (\<lambda>a. a_progress (f a)),
       upd_attempts (\<lambda>y. a_id y = i \<and> Q y) f d)"
    unfolding pg_progress_update_def Let_def Q_def f_def ..
  then have "pg_progress_update i payload current tot now cutoff force d =
      (Option.bind (if Q a then Some a else None) (\<lambda>a. a_progress (f a)),
       d\<lparr>d_attempts := upd_where (\<lambda>y. a_id y = i \<and> Q y) f (d_attempts d)\<rparr>)"
    unfolding keyed_find [OF a assms(1)] upd_attempts_def .
  moreover have "locked_progress_update i payload current tot now cutoff force d =
      (if \<not> Q a then Inr (None, d)
       else Inr (a_progress (f a), upd_attempts (\<lambda>x. a_id x = i) (\<lambda>x. x\<lparr>a_progress := a_progress (f a),
         a_reported_at := a_reported_at (f a), a_advanced_at := a_advanced_at (f a)\<rparr>) d))"
    unfolding locked_progress_update_def assms(2) option.case q f_def [symmetric] Let_def ..
  ultimately show ?thesis by (cases "Q a") (simp_all add: u upd_attempts_def)
qed

lemma report_progress_effect:
  assumes "report_progress pg w now current tot message force extra cx d = Inr (r, d')" "current_attempt cx d = Some a"
  obtains m e where "d' = e \<or> d' = snapshot_progress a m e" "d_tasks e = d_tasks d"
    "map (\<lambda>b. (a_task b, a_number b)) (d_attempts e) = map (\<lambda>b. (a_task b, a_number b)) (d_attempts d)"
proof -
  obtain payload cutoff x where x: "(if pg then Inr (pg_progress_update (a_id a) payload current tot now cutoff force d)
      else locked_progress_update (a_id a) payload current tot now cutoff force d) = Inr x"
    "(case x of (merged, d) \<Rightarrow> Inr (case merged of None \<Rightarrow> (False, d) | Some m \<Rightarrow> (True, snapshot_progress a m d))) =
      (Inr (r, d') :: _ res)"
    using assms(1) unfolding report_progress_def assms(2) option.case Let_def by (rule rbindE)
  obtain mo e where xe: "x = (mo, e)" by (cases x)
  have "d_tasks e = d_tasks d \<and>
      map (\<lambda>b. (a_task b, a_number b)) (d_attempts e) = map (\<lambda>b. (a_task b, a_number b)) (d_attempts d)"
    using x(1) unfolding xe
    by (auto simp: pg_progress_update_def locked_progress_update_def Let_def map_upd_where progressed_def
        split: if_splits option.splits)
  moreover have "d' = e \<or> d' = snapshot_progress a (the mo) e"
    using x(2) unfolding xe by (auto split: option.splits)
  ultimately show thesis using that by blast
qed

lemma snapshot_progress_changes:
  assumes "get_task i (snapshot_progress a m e) \<noteq> get_task i e"
  shows "a_task a = i \<and> \<not> exists_where (\<lambda>b. a_task b = i \<and> a_number a < a_number b) (d_attempts e)"
proof (rule ccontr)
  assume n: "\<not> ?thesis"
  define P where "P = (\<lambda>t :: task_row. t_id t = a_task a \<and>
      \<not> exists_where (\<lambda>b. a_task b = t_id t \<and> a_number a < a_number b) (d_attempts e))"
  define f where "f = (\<lambda>t :: task_row. t\<lparr>t_progress := Some (dict_set ''attempt_id'' (PInt (int (a_id a))) m)\<rparr>)"
  have rows: "d_tasks (snapshot_progress a m e) = upd_where P f (d_tasks e)"
    unfolding snapshot_progress_def P_def f_def by simp
  have idf: "t_id (f t) = t_id t" for t by (simp add: f_def)
  have "get_task i (snapshot_progress a m e) = map_option (\<lambda>t. if P t then f t else t) (get_task i e)"
    unfolding get_task_def rows by (rule get_by_upd_where) (rule idf)
  moreover have "\<not> P t" if "get_task i e = Some t" for t
  proof -
    have "t_id t = i" using that get_by_SomeD [of t_id i "d_tasks e" t] unfolding get_task_def by blast
    then show ?thesis using n by (auto simp: P_def)
  qed
  ultimately show False using assms by (cases "get_task i e") simp_all
qed

lemma newer_attempt_rows:
  "exists_where (\<lambda>b. a_task b = i \<and> n < a_number b) rs \<longleftrightarrow>
    (\<exists>k. (i, k) \<in> set (map (\<lambda>b. (a_task b, a_number b)) rs) \<and> n < k)"
  by (auto simp: exists_where_iff)

text \<open>
  C27: progress is reported for the latest attempt only. Whatever a report changes of any task's
  progress, the reporting attempt belongs to that task and no newer attempt of it exists: a stalled
  attempt that wakes up cannot overwrite what its successor reported.
\<close>

theorem progress_only_from_latest:
  assumes "report_progress pg w now current tot message force extra cx d = Inr (r, d')"
    and "get_task i d' \<noteq> get_task i d"
  shows "\<exists>a. current_attempt cx d = Some a \<and> a_task a = i \<and>
    filter (\<lambda>b. a_task b = i \<and> a_number a < a_number b) (d_attempts d) = []"
proof (cases "current_attempt cx d")
  case None
  then show ?thesis using assms by (simp add: report_progress_def)
next
  case (Some a)
  from assms(1) Some obtain m e where e: "d' = e \<or> d' = snapshot_progress a m e" "d_tasks e = d_tasks d"
    "map (\<lambda>b. (a_task b, a_number b)) (d_attempts e) = map (\<lambda>b. (a_task b, a_number b)) (d_attempts d)"
    by (rule report_progress_effect)
  have get: "get_task i e = get_task i d" using e(2) by (simp add: get_task_def)
  then have "d' = snapshot_progress a m e" using e(1) assms(2) by auto
  then have "get_task i (snapshot_progress a m e) \<noteq> get_task i e" using get assms(2) by simp
  from snapshot_progress_changes [OF this] have "a_task a = i"
    "\<not> exists_where (\<lambda>b. a_task b = i \<and> a_number a < a_number b) (d_attempts d)"
    unfolding newer_attempt_rows e(3) by blast+
  then show ?thesis using Some by (auto simp: filter_empty_conv exists_where_iff)
qed

text \<open>A task at its second attempt, and reports from both.\<close>

definition progress_db :: db where
  "progress_db = empty_db\<lparr>d_tasks := [demo_task 1], d_attempts :=
     [(blank_attempt 10 1 1 0)\<lparr>a_q2 := Some 50\<rparr>, (blank_attempt 11 1 2 5)\<lparr>a_q2 := Some 51\<rparr>]\<rparr>"

definition ctx_of :: "q2id \<Rightarrow> ctx" where
  "ctx_of q = context_pre_execute (Some q) no_ctx"

theorem progress_only_from_latest_witness:
  "\<exists>r d'. report_progress True demo_world 7 (Some (PInt 1)) None None False [] (ctx_of 51) progress_db = Inr (r, d') \<and>
     get_task 1 d' \<noteq> get_task 1 progress_db \<and> map_option a_number (current_attempt (ctx_of 51) progress_db) = Some 2"
proof -
  let ?r = "report_progress True demo_world 7 (Some (PInt 1)) None None False [] (ctx_of 51) progress_db"
  have "\<not> isl ?r" by code_simp
  then obtain x where "?r = Inr x" by (cases ?r) auto
  then obtain r d' where r: "?r = Inr (r, d')" by (cases x) simp
  have "map_option t_progress (get_task 1 (snd (projr ?r))) \<noteq> map_option t_progress (get_task 1 progress_db)"
    by code_simp
  then have ch: "get_task 1 d' \<noteq> get_task 1 progress_db" using r by auto
  obtain a where a: "current_attempt (ctx_of 51) progress_db = Some a"
    using progress_only_from_latest [OF r ch] by blast
  have "map_option a_number (current_attempt (ctx_of 51) progress_db) = Some 2" by code_simp
  then show ?thesis using r ch by blast
qed

text \<open>
  Reports of one attempt that all carry the same numbers.
\<close>

fun narrate :: "world \<Rightarrow> pyval option \<Rightarrow> pyval option \<Rightarrow> ctx \<Rightarrow>
  (bool \<times> time \<times> pyval option \<times> bool \<times> dict) list \<Rightarrow> db \<Rightarrow> db res" where
  "narrate w current tot cx [] d = Inr d"
| "narrate w current tot cx ((pg, now, message, force, extra) # rs) d =
     rbind (report_progress pg w now current tot message force extra cx d) (\<lambda>(r, d).
     narrate w current tot cx rs d)"

definition plain_extra :: "dict \<Rightarrow> bool" where
  "plain_extra extra \<longleftrightarrow> ''current'' \<notin> fst ` set extra \<and> ''total'' \<notin> fst ` set extra"

lemma payload_get:
  assumes "k \<notin> fst ` set extra"
  shows "map_of (rev (progress_payload current tot message extra)) k =
    map_of (rev (progress_payload current tot message [])) k"
proof -
  let ?P = "\<lambda>(k :: string, v). v \<noteq> PNone"
  have "fst ` set (rev (filter ?P extra)) \<subseteq> fst ` set extra" by auto
  then have none: "map_of (rev (filter ?P extra)) k = None"
    unfolding map_of_eq_None_iff using assms by blast
  have split: "progress_payload current tot message extra =
      progress_payload current tot message [] @ filter ?P extra"
    by (simp add: progress_payload_def)
  show ?thesis unfolding split rev_append map_of_append using none by (simp add: map_add_def)
qed

lemma payload_numbers:
  assumes "plain_extra extra"
  shows "current = Some v \<Longrightarrow> v \<noteq> PNone \<Longrightarrow>
      dict_get (dict_merge p (progress_payload current tot message extra)) ''current'' = Some v"
    and "tot = Some v \<Longrightarrow> v \<noteq> PNone \<Longrightarrow>
      dict_get (dict_merge p (progress_payload current tot message extra)) ''total'' = Some v"
proof -
  have k: "''current'' \<notin> fst ` set extra" "''total'' \<notin> fst ` set extra"
    using assms by (simp_all add: plain_extra_def)
  show "dict_get (dict_merge p (progress_payload current tot message extra)) ''current'' = Some v"
    if "current = Some v" "v \<noteq> PNone"
    unfolding dict_get_merge payload_get [OF k(1)] using that
    by (cases tot; cases message) (simp_all add: progress_payload_def default_to_def)
  show "dict_get (dict_merge p (progress_payload current tot message extra)) ''total'' = Some v"
    if "tot = Some v" "v \<noteq> PNone"
    unfolding dict_get_merge payload_get [OF k(2)] using that
    by (cases current; cases message) (simp_all add: progress_payload_def default_to_def)
qed

text \<open>One report with the numbers already reported does not move the advance.\<close>

lemma report_effect:
  assumes "report_progress pg w now current tot message force extra cx d = Inr (r, d')"
    and "distinct (map a_id (d_attempts d))" "current_attempt cx d = Some a"
  shows "d_attempts d' = upd_where (\<lambda>x. a_id x = a_id a)
      (if r then progressed (progress_payload current tot message extra) current tot now else id) (d_attempts d)"
    and "\<not> force \<and> \<not> advanced (a_progress a) current tot \<or> r"
proof -
  have mem: "a \<in> set (d_attempts d)"
    using assms(3) by (auto simp: current_attempt_def find_Some_iff split: option.splits)
  have ga: "get_attempt (a_id a) d = Some a"
    using get_by_distinct [OF assms(2) mem] by (simp add: get_attempt_def)
  define cutoff where "cutoff = (if w_progress_interval w = 0 then None else Some (now - w_progress_interval w))"
  define f where "f = progressed (progress_payload current tot message extra) current tot now"
  define h where "h = (\<lambda>x :: attempt_row. x\<lparr>a_progress := a_progress (f a), a_reported_at := a_reported_at (f a),
      a_advanced_at := a_advanced_at (f a)\<rparr>)"
  let ?skip = "\<not> force \<and> (case (cutoff, a_reported_at a) of (Some c, Some r) \<Rightarrow> c < r | _ \<Rightarrow> False) \<and>
      \<not> advanced (a_progress a) current tot"
  let ?l = "locked_progress_update (a_id a) (progress_payload current tot message extra) current tot now cutoff force d"
  have l: "?l = (if ?skip then Inr (None, d) else Inr (a_progress (f a), upd_attempts (\<lambda>x. a_id x = a_id a) h d))"
    unfolding locked_progress_update_def ga option.case f_def h_def Let_def ..
  have "rbind ?l (\<lambda>(merged, d). Inr (case merged of None \<Rightarrow> (False, d) | Some m \<Rightarrow> (True, snapshot_progress a m d))) =
      Inr (r, d')"
    using assms(1) progress_paths_agree [OF assms(2) ga]
    unfolding report_progress_def assms(3) option.case Let_def cutoff_def by (cases pg) simp_all
  moreover have "a_progress (f a) \<noteq> None" by (simp add: f_def progressed_def)
  ultimately have cases: "(?skip \<and> r = False \<and> d_attempts d' = d_attempts d) \<or>
      (\<not> ?skip \<and> r = True \<and> d_attempts d' = upd_where (\<lambda>x. a_id x = a_id a) h (d_attempts d))"
    unfolding l by (cases ?skip) (auto simp: snapshot_progress_def split: option.splits)
  have fh: "upd_where (\<lambda>x. a_id x = a_id a) h (d_attempts d) = upd_where (\<lambda>x. a_id x = a_id a) f (d_attempts d)"
  proof -
    have "h x = f x" if "x \<in> set (d_attempts d)" "a_id x = a_id a" for x
      using key_inj [OF assms(2) that(1) mem that(2)] by (simp add: h_def f_def progressed_def)
    then show ?thesis by (simp add: upd_where_def)
  qed
  have idu: "upd_where P id rs = rs" for P and rs :: "attempt_row list" by (induction rs) simp_all
  show "d_attempts d' = upd_where (\<lambda>x. a_id x = a_id a)
      (if r then progressed (progress_payload current tot message extra) current tot now else id) (d_attempts d)"
    using cases fh idu unfolding f_def [symmetric] by auto
  show "\<not> force \<and> \<not> advanced (a_progress a) current tot \<or> r" using cases by blast
qed

text \<open>\<open>standing i t\<close>: attempt \<open>i\<close>, delivered as \<open>q\<close>, last advanced at \<open>t\<close> and has reported these numbers.\<close>

definition standing :: "pyval option \<Rightarrow> pyval option \<Rightarrow> q2id \<Rightarrow> time option \<Rightarrow> db \<Rightarrow> bool" where
  "standing current tot q t d \<longleftrightarrow> distinct (map a_id (d_attempts d)) \<and>
     (\<exists>a. find (\<lambda>a. a_q2 a = Some q) (d_attempts d) = Some a \<and> a_advanced_at a = t \<and>
        \<not> advanced (a_progress a) current tot)"

lemma report_standing:
  assumes "report_progress pg w now current tot message force extra cx d = Inr (r, d')"
    and "distinct (map a_id (d_attempts d))" "cx_q2 cx = Some q" "current_attempt cx d = Some a"
    and "plain_extra extra" "current \<noteq> Some PNone" "tot \<noteq> Some PNone"
  shows "standing current tot q (if advanced (a_progress a) current tot then Some now else a_advanced_at a) d'"
proof -
  let ?F = "if r then progressed (progress_payload current tot message extra) current tot now else id"
  let ?G = "\<lambda>x. if a_id x = a_id a then ?F x else x"
  note e = report_effect [OF assms(1,2,4)]
  have fa: "find (\<lambda>a. a_q2 a = Some q) (d_attempts d) = Some a"
    using assms(3,4) by (simp add: current_attempt_def)
  have keep: "a_id (?G x) = a_id x" "a_q2 (?G x) = a_q2 x" for x by (simp_all add: progressed_def)
  have "find P (map f xs) = map_option f (find (P \<circ> f) xs)" for P :: "attempt_row \<Rightarrow> bool" and f :: "attempt_row \<Rightarrow> attempt_row" and xs
    by (induction xs) auto
  then have "find (\<lambda>a. a_q2 a = Some q) (d_attempts d') = Some (?G a)"
    unfolding e(1) upd_where_def using fa keep(2) by (simp add: comp_def)
  moreover have "distinct (map a_id (d_attempts d'))"
    unfolding e(1) using assms(2) by (simp add: map_upd_where progressed_def)
  moreover have "a_advanced_at (?G a) = (if advanced (a_progress a) current tot then Some now else a_advanced_at a)"
    using e(2) by (auto simp: progressed_def)
  moreover have "\<not> advanced (a_progress (?G a)) current tot"
  proof (cases r)
    case True
    note p = payload_numbers(1) [OF assms(5) refl] payload_numbers(2) [OF assms(5) refl]
    show ?thesis using True assms(6,7)
      by (cases current; cases tot) (simp_all add: advanced_def progressed_def Let_def p)
  qed (use e(2) in simp)
  ultimately show ?thesis unfolding standing_def by blast
qed

text \<open>
  A task that narrates its own hang is seen as hanging. Once an attempt has reported its
  numbers, however often it reports the same ones again, with whatever messages, forced or not, the
  instant of its last advance stays what it was, so the stall check still fires.
\<close>

theorem repeated_reports_do_not_advance:
  assumes "standing current tot q t d" "cx_q2 cx = Some q" "narrate w current tot cx rs d = Inr d'"
    and "list_all (\<lambda>(_, _, _, _, extra). plain_extra extra) rs" "current \<noteq> Some PNone" "tot \<noteq> Some PNone"
  shows "standing current tot q t d'"
  using assms(1,3,4)
proof (induction rs arbitrary: d)
  case (Cons x rs)
  obtain pg now message force extra where x: "x = (pg, now, message, force, extra)" by (cases x) auto
  obtain a where a: "distinct (map a_id (d_attempts d))" "find (\<lambda>a. a_q2 a = Some q) (d_attempts d) = Some a"
    "a_advanced_at a = t" "\<not> advanced (a_progress a) current tot"
    using Cons.prems(1) by (auto simp: standing_def)
  have ca: "current_attempt cx d = Some a" using a(2) assms(2) by (simp add: current_attempt_def)
  obtain r e where e: "report_progress pg w now current tot message force extra cx d = Inr (r, e)"
    "narrate w current tot cx rs e = Inr d'"
    using Cons.prems(2) by (auto simp: x elim!: rbindE)
  have "standing current tot q t e"
    using report_standing [OF e(1) a(1) assms(2) ca _ assms(5,6)] a(3,4) Cons.prems(3) by (simp add: x)
  then show ?case using Cons.IH e(2) Cons.prems(3) by simp
qed simp

text \<open>The second attempt of that task, repeating its first report twice, once forced.\<close>

definition hang_db :: db where
  "hang_db = snd (projr (report_progress False demo_world 7 (Some (PInt 1)) (Some (PInt 9)) None False []
     (ctx_of 51) progress_db))"

theorem repeated_reports_do_not_advance_witness:
  "\<exists>d'. narrate demo_world (Some (PInt 1)) (Some (PInt 9)) (ctx_of 51)
       [(True, 20, Some (PStr ''working''), False, []), (False, 30, None, True, [])] hang_db = Inr d' \<and>
     standing (Some (PInt 1)) (Some (PInt 9)) 51 (Some 7) d'"
proof -
  let ?rs = "[(True, 20, Some (PStr ''working''), False, []), (False, 30, None, True, [])]"
    and ?n = "narrate demo_world (Some (PInt 1)) (Some (PInt 9)) (ctx_of 51)"
  have "distinct (map a_id (d_attempts hang_db))" by code_simp
  moreover have "map_option a_advanced_at (find (\<lambda>a. a_q2 a = Some 51) (d_attempts hang_db)) = Some (Some 7)"
    by code_simp
  moreover have "map_option (\<lambda>a. advanced (a_progress a) (Some (PInt 1)) (Some (PInt 9)))
      (find (\<lambda>a. a_q2 a = Some 51) (d_attempts hang_db)) = Some False"
    by code_simp
  ultimately have s: "standing (Some (PInt 1)) (Some (PInt 9)) 51 (Some 7) hang_db"
    unfolding standing_def by auto
  have q: "cx_q2 (ctx_of 51) = Some 51" by code_simp
  have "\<not> isl (?n ?rs hang_db)" by code_simp
  then obtain d' where n: "?n ?rs hang_db = Inr d'" by (cases "?n ?rs hang_db") auto
  have p: "list_all (\<lambda>(_, _, _, _, extra). plain_extra extra) ?rs" by (simp add: plain_extra_def)
  show ?thesis using n repeated_reports_do_not_advance [OF s q n p] by blast
qed

end
