(* ===== verification/Qraft_Throttle.thy ===== *)
theory Qraft_Throttle
  imports Qraft_Schema
begin

text \<open>
  The token bucket of \<^verbatim>\<open>qraft/throttle.py\<close>. A call reads the clock when it
  creates the bucket, when it refills it and when the row is saved (\<open>auto_now\<close>): \<open>clocks\<close>. The
  bucket is locked from the refill to the save.
\<close>

record clocks =
  ck_created :: time
  ck_now :: time
  ck_saved :: time

definition bucket :: "string \<Rightarrow> db \<Rightarrow> bucket_row option" where
  "bucket key d = find (\<lambda>b. b_key b = key) (d_buckets d)"

definition get_or_create_bucket :: "string \<Rightarrow> rat \<Rightarrow> time \<Rightarrow> db \<Rightarrow> db" where
  "get_or_create_bucket key tokens now d =
     (if bucket key d \<noteq> None then d
      else d\<lparr>d_buckets := d_buckets d @ [\<lparr>b_key = key, b_tokens = tokens, b_updated = now\<rparr>]\<rparr>)"

definition refilled :: "rat \<Rightarrow> rat \<Rightarrow> time \<Rightarrow> bucket_row \<Rightarrow> rat" where
  "refilled rate capacity now b =
     (let elapsed = max 0 (now - b_updated b) in min capacity (b_tokens b + elapsed * rate))"

definition save_bucket :: "string \<Rightarrow> rat \<Rightarrow> time \<Rightarrow> db \<Rightarrow> db" where
  "save_bucket key tokens now d = d\<lparr>d_buckets := upd_where (\<lambda>b. b_key b = key)
     (\<lambda>b. b\<lparr>b_tokens := tokens, b_updated := now\<rparr>) (d_buckets d)\<rparr>"

definition acquire :: "string \<Rightarrow> rat \<Rightarrow> rat \<Rightarrow> rat \<Rightarrow> clocks \<Rightarrow> db \<Rightarrow> (bool \<times> db) res" where
  "acquire key rate capacity cost ck d =
     (let d = get_or_create_bucket key capacity (ck_created ck) d in
      case bucket key d of
        None \<Rightarrow> Inl DoesNotExist
      | Some b \<Rightarrow>
          (let tokens = refilled rate capacity (ck_now ck) b in
           if cost \<le> tokens then Inr (True, save_bucket key (tokens - cost) (ck_saved ck) d)
           else Inr (False, save_bucket key tokens (ck_saved ck) d)))"

text \<open>The decorator; \<open>target\<close> is the decorated function.\<close>

definition throttled ::
  "string \<Rightarrow> rat \<Rightarrow> rat option \<Rightarrow> rat \<Rightarrow> clocks \<Rightarrow> (db \<Rightarrow> 'a res \<times> db) \<Rightarrow> db \<Rightarrow> 'a res \<times> db" where
  "throttled key rate capacity cost ck target d =
     (let bucket_capacity = (case capacity of Some c \<Rightarrow> c | None \<Rightarrow> max rate cost) in
      case acquire key rate bucket_capacity cost ck d of
        Inl e \<Rightarrow> (Inl e, d)
      | Inr (ok, d) \<Rightarrow> if ok then target d else (Inl RateLimited, d))"

section \<open>The rate limit\<close>

text \<open>
  \<open>avail\<close>: the tokens of the bucket at \<open>t\<close> if it had no capacity. A bucket that was never used
  counts as full.
\<close>

definition avail :: "string \<Rightarrow> rat \<Rightarrow> rat \<Rightarrow> time \<Rightarrow> db \<Rightarrow> rat" where
  "avail key rate capacity t d = (case bucket key d of
     None \<Rightarrow> capacity | Some b \<Rightarrow> b_tokens b + (t - b_updated b) * rate)"

definition bucket_ok :: "string \<Rightarrow> time \<Rightarrow> db \<Rightarrow> bool" where
  "bucket_ok key t d = (case bucket key d of
     None \<Rightarrow> True | Some b \<Rightarrow> 0 \<le> b_tokens b \<and> b_updated b \<le> t)"

text \<open>Calls on one bucket: each of its cost, one after the other.\<close>

fun acquire_all :: "string \<Rightarrow> rat \<Rightarrow> rat \<Rightarrow> (rat \<times> clocks) list \<Rightarrow> db \<Rightarrow> (rat \<times> db) res" where
  "acquire_all key rate capacity [] d = Inr (0, d)"
| "acquire_all key rate capacity ((cost, ck) # cs) d =
     (case acquire key rate capacity cost ck d of
        Inl e \<Rightarrow> Inl e
      | Inr (ok, d) \<Rightarrow>
          (case acquire_all key rate capacity cs d of
             Inl e \<Rightarrow> Inl e
           | Inr (s, d) \<Rightarrow> Inr (if ok then cost + s else s, d)))"

text \<open>Costs are not negative, and the clocks do not run backwards from one call to the next.\<close>

fun in_order :: "time \<Rightarrow> (rat \<times> clocks) list \<Rightarrow> bool" where
  "in_order t [] = True"
| "in_order t ((cost, ck) # cs) \<longleftrightarrow> 0 \<le> cost \<and> t \<le> ck_created ck \<and> ck_created ck \<le> ck_now ck \<and>
     ck_now ck \<le> ck_saved ck \<and> in_order (ck_saved ck) cs"

fun last_save :: "time \<Rightarrow> (rat \<times> clocks) list \<Rightarrow> time" where
  "last_save t [] = t"
| "last_save t ((cost, ck) # cs) = last_save (ck_saved ck) cs"

lemma find_upd_key:
  "(\<And>b. b_key (f b) = b_key b) \<Longrightarrow>
    find (\<lambda>b. b_key b = key) (upd_where (\<lambda>b. b_key b = key) f rs) = map_option f (find (\<lambda>b. b_key b = key) rs)"
  by (induction rs) auto

lemma bucket_save:
  "bucket key (save_bucket key v t d) = map_option (\<lambda>b. b\<lparr>b_tokens := v, b_updated := t\<rparr>) (bucket key d)"
  by (simp add: bucket_def save_bucket_def find_upd_key)

lemma bucket_created:
  "bucket key (get_or_create_bucket key v t d) =
    (case bucket key d of None \<Rightarrow> Some \<lparr>b_key = key, b_tokens = v, b_updated = t\<rparr> | Some b \<Rightarrow> Some b)"
proof -
  have app: "find P (xs @ ys) = (case find P xs of None \<Rightarrow> find P ys | Some x \<Rightarrow> Some x)"
    for P :: "bucket_row \<Rightarrow> bool" and xs ys by (induction xs) auto
  show ?thesis
    by (cases "find (\<lambda>b. b_key b = key) (d_buckets d)") (simp_all add: bucket_def get_or_create_bucket_def app)
qed

text \<open>A call spends at most what the refill brought.\<close>

lemma acquire_step:
  assumes "bucket_ok key t d" "0 \<le> rate" "0 \<le> capacity" "0 \<le> cost"
    and "t \<le> ck_created ck" "ck_created ck \<le> ck_now ck" "ck_now ck \<le> ck_saved ck"
    and "acquire key rate capacity cost ck d = Inr (ok, d')"
  shows "bucket_ok key (ck_saved ck) d'"
    and "(if ok then cost else 0) + avail key rate capacity (ck_saved ck) d' \<le>
      avail key rate capacity t d + (ck_saved ck - t) * rate"
proof -
  define b where "b = (case bucket key d of None \<Rightarrow> \<lparr>b_key = key, b_tokens = capacity, b_updated = ck_created ck\<rparr>
    | Some b \<Rightarrow> b)"
  define v where "v = refilled rate capacity (ck_now ck) b"
  have some: "bucket key (get_or_create_bucket key capacity (ck_created ck) d) = Some b"
    by (simp add: bucket_created b_def split: option.splits)
  have b: "0 \<le> b_tokens b" "b_updated b \<le> ck_now ck"
    using assms(1,3,5,6) by (auto simp: b_def bucket_ok_def split: option.splits)
  have d': "d' = save_bucket key (if ok then v - cost else v) (ck_saved ck)
      (get_or_create_bucket key capacity (ck_created ck) d)" "ok \<longleftrightarrow> cost \<le> v"
    using assms(8) by (auto simp: acquire_def some v_def Let_def split: if_splits)
  have after: "bucket key d' = Some (b\<lparr>b_tokens := (if ok then v - cost else v), b_updated := ck_saved ck\<rparr>)"
    by (simp add: d'(1) bucket_save some)
  have "0 \<le> v" using b assms(2,3) by (simp add: v_def refilled_def Let_def)
  then show "bucket_ok key (ck_saved ck) d'" using d'(2) by (simp add: bucket_ok_def after)
  have "v \<le> b_tokens b + (ck_now ck - b_updated b) * rate" using b(2) by (simp add: v_def refilled_def Let_def)
  also have "\<dots> \<le> b_tokens b + (ck_saved ck - b_updated b) * rate"
    using assms(2,7) by (simp add: mult_right_mono)
  also have "\<dots> \<le> avail key rate capacity t d + (ck_saved ck - t) * rate"
  proof (cases "bucket key d")
    case None
    have "(ck_saved ck - ck_created ck) * rate \<le> (ck_saved ck - t) * rate"
      using assms(2,5) by (simp add: mult_right_mono)
    then show ?thesis by (simp add: avail_def b_def None)
  qed (simp add: avail_def b_def algebra_simps)
  finally have "v \<le> avail key rate capacity t d + (ck_saved ck - t) * rate" .
  then show "(if ok then cost else 0) + avail key rate capacity (ck_saved ck) d' \<le>
      avail key rate capacity t d + (ck_saved ck - t) * rate"
    by (simp add: avail_def [of _ _ _ _ d'] after)
qed

text \<open>
  C28: the bucket enforces its rate. Over any sequence of calls, by however many workers, the
  tokens granted never exceed what the bucket held at the start and what the rate refilled since;
  a bucket that was never used starts at its capacity.
\<close>

theorem rate_limit_enforced:
  assumes "bucket_ok key t d" "0 \<le> rate" "0 \<le> capacity" "in_order t cs"
    and "acquire_all key rate capacity cs d = Inr (granted, d')"
  shows "granted \<le> avail key rate capacity t d + (last_save t cs - t) * rate"
proof -
  have "granted + avail key rate capacity (last_save t cs) d' \<le>
      avail key rate capacity t d + (last_save t cs - t) * rate \<and> bucket_ok key (last_save t cs) d'"
    using assms(1,4,5)
  proof (induction cs arbitrary: t d granted)
    case (Cons c cs)
    obtain cost ck where c: "c = (cost, ck)" by (cases c)
    obtain ok e s where e: "acquire key rate capacity cost ck d = Inr (ok, e)"
      "acquire_all key rate capacity cs e = Inr (s, d')" "granted = (if ok then cost + s else s)"
      using Cons.prems(3) by (auto simp: c split: sum.splits if_splits)
    have o: "0 \<le> cost" "t \<le> ck_created ck" "ck_created ck \<le> ck_now ck" "ck_now ck \<le> ck_saved ck"
      "in_order (ck_saved ck) cs"
      using Cons.prems(2) by (simp_all add: c)
    note st = acquire_step [OF Cons.prems(1) assms(2,3) o(1-4) e(1)]
    have "s + avail key rate capacity (last_save (ck_saved ck) cs) d' \<le>
        avail key rate capacity (ck_saved ck) e + (last_save (ck_saved ck) cs - ck_saved ck) * rate \<and>
        bucket_ok key (last_save (ck_saved ck) cs) d'"
      by (rule Cons.IH [OF st(1) o(5) e(2)])
    then show ?case using st(2) by (auto simp: c e(3) algebra_simps)
  qed simp
  moreover have "0 \<le> avail key rate capacity (last_save t cs) d'" if "bucket_ok key (last_save t cs) d'"
    using that assms(2,3) by (auto simp: bucket_ok_def avail_def split: option.splits)
  ultimately show ?thesis by auto
qed

text \<open>A bucket of two tokens, refilled at one per second: four calls within a second get three tokens.\<close>

definition tick :: "time \<Rightarrow> clocks" where
  "tick t = \<lparr>ck_created = t, ck_now = t, ck_saved = t\<rparr>"

theorem rate_limit_enforced_witness:
  "\<exists>d'. acquire_all ''api'' 1 2 [(1, tick 0), (1, tick 0), (1, tick (1/2)), (1, tick 1)] empty_db = Inr (3, d') \<and>
     3 \<le> avail ''api'' 1 2 0 empty_db + 1 * 1"
proof -
  let ?cs = "[(1, tick 0), (1, tick 0), (1, tick (1/2)), (1, tick 1)] :: (rat \<times> clocks) list"
  have "bucket_ok ''api'' 0 empty_db" by code_simp
  moreover have "in_order 0 ?cs" by code_simp
  moreover have "map_sum id fst (acquire_all ''api'' 1 2 ?cs empty_db) = Inr 3" by code_simp
  then obtain d' where r: "acquire_all ''api'' 1 2 ?cs empty_db = Inr (3, d')"
    by (cases "acquire_all ''api'' 1 2 ?cs empty_db") auto
  ultimately have "3 \<le> avail ''api'' 1 2 0 empty_db + (last_save 0 ?cs - 0) * 1"
    by (intro rate_limit_enforced) simp_all
  then show ?thesis using r by (simp add: tick_def)
qed

end
