(* ===== verification/Qraft_Retention.thy ===== *)
theory Qraft_Retention
  imports Qraft_Workflow
begin

text \<open>
  The retention sweep (\<^verbatim>\<open>qraft/retention.py\<close>) with the cascades its deletes set off
  (\<^verbatim>\<open>on_delete\<close> of the foreign keys in \<^verbatim>\<open>qraft/models/\<close>).
  \<^item> A batch is selected, then deleted under the same filter. What the rest of the system commits in
    between is \<open>env\<close>.
  \<^item> A sweep makes at most \<open>max_batches\<close> batches per table.
\<close>

section \<open>Deleting rows\<close>

definition delete_tasks :: "id list \<Rightarrow> db \<Rightarrow> db" where
  "delete_tasks ids d =
     d\<lparr>d_tasks := filter (\<lambda>t. t_id t \<notin> set ids) (d_tasks d),
       d_attempts := filter (\<lambda>a. a_task a \<notin> set ids) (d_attempts d),
       d_hooks := filter (\<lambda>h. hd_task h \<notin> set ids) (d_hooks d),
       d_steps := upd_where (\<lambda>s. s_task s \<in> Some ` set ids) (\<lambda>s. s\<lparr>s_task := None\<rparr>) (d_steps d),
       d_nodes := upd_where (\<lambda>n. n_task n \<in> Some ` set ids) (\<lambda>n. n\<lparr>n_task := None\<rparr>) (d_nodes d)\<rparr>"

definition delete_chains :: "id list \<Rightarrow> db \<Rightarrow> db" where
  "delete_chains ids d =
     d\<lparr>d_chains := filter (\<lambda>c. c_id c \<notin> set ids) (d_chains d),
       d_steps := filter (\<lambda>s. s_chain s \<notin> set ids) (d_steps d)\<rparr>"

definition delete_pars :: "wf_type \<Rightarrow> id list \<Rightarrow> db \<Rightarrow> db" where
  "delete_pars ty ids d =
     (let d = delete_tasks (map t_id (filter
            (\<lambda>t. (if ty = IterWf then t_iter t else t_batch t) \<in> Some ` set ids) (d_tasks d))) d in
      d\<lparr>d_pars := filter (\<lambda>p. \<not> (p_type p = ty \<and> p_id p \<in> set ids)) (d_pars d)\<rparr>)"

definition delete_graphs :: "id list \<Rightarrow> db \<Rightarrow> db" where
  "delete_graphs ids d =
     (let nodes = map n_id (filter (\<lambda>n. n_graph n \<in> set ids) (d_nodes d));
          gone = Some ` set ids;
          d = delete_tasks (map t_id (filter (\<lambda>t. t_graph_node t \<in> Some ` set nodes) (d_tasks d))) d in
      d\<lparr>d_graphs := upd_where (\<lambda>g. g_previous g \<in> gone) (\<lambda>g. g\<lparr>g_previous := None\<rparr>)
           (filter (\<lambda>g. g_id g \<notin> set ids) (d_graphs d)),
        d_nodes := filter (\<lambda>n. n_graph n \<notin> set ids) (d_nodes d),
        d_settlements := filter (\<lambda>s. se_graph s \<notin> set ids) (d_settlements d),
        d_tasks := upd_where (\<lambda>t. t_graph_id t \<in> gone) (\<lambda>t. t\<lparr>t_graph_id := None\<rparr>) (d_tasks d),
        d_chains := upd_where (\<lambda>c. c_graph_id c \<in> gone) (\<lambda>c. c\<lparr>c_graph_id := None\<rparr>) (d_chains d),
        d_pars := upd_where (\<lambda>p. p_graph_id p \<in> gone) (\<lambda>p. p\<lparr>p_graph_id := None\<rparr>) (d_pars d)\<rparr>)"

text \<open>
  \<^verbatim>\<open>_delete_in_batches\<close>: \<open>sel\<close> is the queryset, as the keys of its rows, and
  \<open>del\<close> deletes by key. The result counts the deleted rows.
\<close>

definition max_batches :: nat where
  "max_batches = 1000"

fun delete_batches ::
  "nat \<Rightarrow> (db \<Rightarrow> db) \<Rightarrow> nat \<Rightarrow> (db \<Rightarrow> 'k list) \<Rightarrow> ('k list \<Rightarrow> db \<Rightarrow> db) \<Rightarrow> db \<Rightarrow> nat \<times> db" where
  "delete_batches k env bs sel del d =
     (if k = 0 then (0, d)
      else (let ids = take bs (sel d) in
        if ids = [] then (0, d)
        else (let d = env d; batch = filter (\<lambda>i. i \<in> set ids) (sel d); d = del batch d in
          if batch = [] then (0, d)
          else (let (n, d) = delete_batches (k - 1) env bs sel del d in (length batch + n, d)))))"

declare delete_batches.simps [simp del]

section \<open>What is selected\<close>

definition terminal_task :: "task_status \<Rightarrow> bool" where
  "terminal_task s \<longleftrightarrow> s = TSucceeded \<or> s = TFailed \<or> s = TExhausted"

definition live_member :: "task_row \<Rightarrow> bool" where
  "live_member t \<longleftrightarrow> t_status t = TPending \<or> t_status t = TRunning"

definition open_graph_ids :: "db \<Rightarrow> id list" where
  "open_graph_ids d = map g_id (filter (\<lambda>g. \<not> terminal_graph (g_status g)) (d_graphs d))"

definition live_par_ids :: "wf_type \<Rightarrow> db \<Rightarrow> id list" where
  "live_par_ids ty d = map p_id (filter (\<lambda>p. p_type p = ty \<and> \<not> terminal_wf (p_status p)) (d_pars d))"

definition live_chain_ids :: "db \<Rightarrow> id list" where
  "live_chain_ids d = map c_id (filter (\<lambda>c. \<not> terminal_wf (c_status c)) (d_chains d))"

definition count_cutoff :: "nat \<Rightarrow> db \<Rightarrow> time option" where
  "count_cutoff max_tasks d =
     first_row (drop (max_tasks - 1) (map t_updated (sort_key (\<lambda>t. - t_updated t)
       (filter (\<lambda>t. terminal_task (t_status t)) (d_tasks d)))))"

definition old_chains :: "time \<Rightarrow> id list \<Rightarrow> db \<Rightarrow> id list" where
  "old_chains cutoff open_graphs d =
     map c_id (filter (\<lambda>c. terminal_wf (c_status c) \<and> c_updated c < cutoff \<and>
         c_graph_id c \<notin> Some ` set open_graphs \<and>
         \<not> exists_where (\<lambda>s. s_chain s = c_id c \<and>
             exists_where (\<lambda>t. s_task s = Some (t_id t) \<and> live_member t) (d_tasks d)) (d_steps d))
       (d_chains d))"

definition old_pars :: "wf_type \<Rightarrow> time \<Rightarrow> id list \<Rightarrow> db \<Rightarrow> id list" where
  "old_pars ty cutoff open_graphs d =
     map p_id (filter (\<lambda>p. p_type p = ty \<and> terminal_wf (p_status p) \<and> p_updated p < cutoff \<and>
         p_graph_id p \<notin> Some ` set open_graphs \<and>
         \<not> exists_where (\<lambda>t. (if ty = IterWf then t_iter t else t_batch t) = Some (p_id p) \<and> live_member t)
             (d_tasks d))
       (d_pars d))"

definition old_tasks :: "time \<Rightarrow> id list \<Rightarrow> id list \<Rightarrow> id list \<Rightarrow> id list \<Rightarrow> db \<Rightarrow> id list" where
  "old_tasks cutoff iters batches live_chains open_graphs d =
     map t_id (filter (\<lambda>t. terminal_task (t_status t) \<and> t_updated t < cutoff \<and>
         t_iter t \<notin> Some ` set iters \<and> t_batch t \<notin> Some ` set batches \<and>
         \<not> exists_where (\<lambda>s. s_task s = Some (t_id t) \<and> s_chain s \<in> set live_chains) (d_steps d) \<and>
         t_graph_id t \<notin> Some ` set open_graphs)
       (d_tasks d))"

definition delivered :: "db \<Rightarrow> settlement_row \<Rightarrow> bool" where
  "delivered d s \<longleftrightarrow> exists_where (\<lambda>w. wh_type w = GraphWf \<and> wh_workflow w = se_graph s \<and>
     wh_generation w = se_generation s \<and> wh_hook w = OnSettled) (d_wf_hooks d)"

definition old_graphs :: "time \<Rightarrow> db \<Rightarrow> id list" where
  "old_graphs cutoff d =
     map g_id (filter (\<lambda>g. terminal_graph (g_status g) \<and> g_updated g < cutoff \<and>
         \<not> exists_where (\<lambda>t. t_graph_id t = Some (g_id g) \<and> live_member t) (d_tasks d) \<and>
         \<not> exists_where (\<lambda>s. se_graph s = g_id g \<and> \<not> delivered d s) (d_settlements d))
       (d_graphs d))"

definition old_wf_hook :: "time \<Rightarrow> db \<Rightarrow> wf_hook_row \<Rightarrow> bool" where
  "old_wf_hook cutoff d w \<longleftrightarrow> wh_created w < cutoff \<and>
     \<not> (wh_type w = GraphWf \<and> exists_where (\<lambda>g. g_id g = wh_workflow w) (d_graphs d))"

text \<open>A dispatch row is known by what its unique constraint names.\<close>

type_synonym wh_key = "wf_type \<times> id \<times> wf_hook_type \<times> nat"

definition wh_key :: "wf_hook_row \<Rightarrow> wh_key" where
  "wh_key w = (wh_type w, wh_workflow w, wh_hook w, wh_generation w)"

definition old_wf_hooks :: "time \<Rightarrow> db \<Rightarrow> wh_key list" where
  "old_wf_hooks cutoff d = map wh_key (filter (old_wf_hook cutoff d) (d_wf_hooks d))"

definition delete_wf_hooks :: "wh_key list \<Rightarrow> db \<Rightarrow> db" where
  "delete_wf_hooks ks d = d\<lparr>d_wf_hooks := filter (\<lambda>w. wh_key w \<notin> set ks) (d_wf_hooks d)\<rparr>"

section \<open>The sweep\<close>

definition noted :: "string \<Rightarrow> nat \<Rightarrow> (string \<times> nat) list" where
  "noted name n = (if n = 0 then [] else [(name, n)])"

definition prune :: "(db \<Rightarrow> db) \<Rightarrow> nat \<Rightarrow> time \<Rightarrow> db \<Rightarrow> (string \<times> nat) list \<times> db" where
  "prune env bs cutoff d =
     (let gs = open_graph_ids d;
          (nc, d) = delete_batches max_batches env bs (old_chains cutoff gs) delete_chains d;
          (ni, d) = delete_batches max_batches env bs (old_pars IterWf cutoff gs) (delete_pars IterWf) d;
          (nb, d) = delete_batches max_batches env bs (old_pars BatchWf cutoff gs) (delete_pars BatchWf) d;
          (nt, d) = delete_batches max_batches env bs (old_tasks cutoff (live_par_ids IterWf d)
            (live_par_ids BatchWf d) (live_chain_ids d) gs) delete_tasks d;
          (ng, d) = delete_batches max_batches env bs (old_graphs cutoff) delete_graphs d;
          (nw, d) = delete_batches max_batches env bs (old_wf_hooks cutoff) delete_wf_hooks d in
      (noted ''QraftChainModel'' nc @ noted ''QraftIterModel'' ni @ noted ''QraftBatchModel'' nb @
         noted ''QraftTask'' nt @ noted ''QraftGraph'' ng @ noted ''WorkflowHookDispatch'' nw, d))"

definition sweep_retention ::
  "(db \<Rightarrow> db) \<Rightarrow> nat \<Rightarrow> time \<Rightarrow> rat option \<Rightarrow> nat option \<Rightarrow> db \<Rightarrow> (string \<times> nat) list \<times> db" where
  "sweep_retention env bs now days max_tasks d =
     (let by_age = (case days of None \<Rightarrow> None | Some n \<Rightarrow> if n = 0 then None else Some (now - n * 86400));
          by_count = (case max_tasks of None \<Rightarrow> None
            | Some n \<Rightarrow> if n = 0 then None else count_cutoff n d) in
      case (by_age, by_count) of
        (None, None) \<Rightarrow> ([], d)
      | (Some a, None) \<Rightarrow> prune env bs a d
      | (None, Some c) \<Rightarrow> prune env bs c d
      | (Some a, Some c) \<Rightarrow> prune env bs (max a c) d)"

section \<open>Interface: a delete that keeps something\<close>

text \<open>\<open>P\<close> survives the deletion of any rows that \<open>sel\<close> selects.\<close>

locale pruning =
  fixes sel :: "db \<Rightarrow> 'k list"
    and del :: "'k list \<Rightarrow> db \<Rightarrow> db"
    and P :: "db \<Rightarrow> bool"
  assumes keeps: "P d \<Longrightarrow> set batch \<subseteq> set (sel d) \<Longrightarrow> P (del batch d)"
begin

lemma batches_keep:
  assumes "P d" "\<And>e. P e \<Longrightarrow> P (env e)"
  shows "P (snd (delete_batches k env bs sel del d))"
  using assms(1)
proof (induction k arbitrary: d)
  case 0
  then show ?case by (simp add: delete_batches.simps)
next
  case (Suc k)
  define batch where "batch = filter (\<lambda>i. i \<in> set (take bs (sel d))) (sel (env d))"
  have "P (del batch (env d))" by (rule keeps) (use assms(2) Suc.prems in \<open>auto simp: batch_def\<close>)
  then show ?case using Suc
    by (cases "batch = []"; subst delete_batches.simps) (simp_all add: batch_def [symmetric] Let_def split_def)
qed

end

section \<open>Live tasks\<close>

text \<open>
  The task \<open>i\<close> exists, has not ended, and, when it runs a graph node, belongs to that node's graph.
\<close>

definition live_task :: "id \<Rightarrow> db \<Rightarrow> bool" where
  "live_task i d \<longleftrightarrow> exists_where (\<lambda>t. t_id t = i) (d_tasks d) \<and>
     list_all (\<lambda>t. t_id t = i \<longrightarrow> live_member t \<and>
       list_all (\<lambda>n. t_graph_node t = Some (n_id n) \<longrightarrow> t_graph_id t = Some (n_graph n)) (d_nodes d)) (d_tasks d)"

lemma live_task_delete:
  assumes "live_task i d" "i \<notin> set ids"
  shows "live_task i (delete_tasks ids d)"
  using assms by (auto simp: live_task_def delete_tasks_def exists_where_iff list_all_iff set_upd_where)

lemma live_task_cong:
  "d_tasks d' = d_tasks d \<Longrightarrow> set (d_nodes d') \<subseteq> set (d_nodes d) \<Longrightarrow> live_task i d \<Longrightarrow> live_task i d'"
  by (auto simp: live_task_def list_all_iff)

lemma live_task_member:
  "live_task i d \<Longrightarrow> t \<in> set (d_tasks d) \<Longrightarrow> t_id t = i \<Longrightarrow> live_member t"
  by (auto simp: live_task_def list_all_iff)

interpretation live_chains: pruning "old_chains cutoff gs" delete_chains "live_task i" for cutoff gs i
  by unfold_locales (erule live_task_cong [rotated 2], auto simp: delete_chains_def)

lemma live_task_pars:
  assumes "live_task i d" "set batch \<subseteq> set (old_pars ty cutoff gs d)"
  shows "live_task i (delete_pars ty batch d)"
proof -
  let ?m = "\<lambda>t. if ty = IterWf then t_iter t else t_batch t"
  have "i \<notin> set (map t_id (filter (\<lambda>t. ?m t \<in> Some ` set batch) (d_tasks d)))"
  proof
    assume "i \<in> set (map t_id (filter (\<lambda>t. ?m t \<in> Some ` set batch) (d_tasks d)))"
    then obtain t p where t: "t \<in> set (d_tasks d)" "t_id t = i" "p \<in> set batch" "?m t = Some p" by auto
    then have "p \<in> set (old_pars ty cutoff gs d)" using assms(2) by blast
    then have "\<not> exists_where (\<lambda>t. ?m t = Some p \<and> live_member t) (d_tasks d)"
      by (simp only: old_pars_def set_map set_filter image_iff mem_Collect_eq) blast
    then show False using t live_task_member [OF assms(1) t(1,2)] by (auto simp: exists_where_iff)
  qed
  from live_task_delete [OF assms(1) this] show ?thesis
    by (rule live_task_cong [rotated 2]) (simp_all add: delete_pars_def Let_def)
qed

interpretation live_pars: pruning "old_pars ty cutoff gs" "delete_pars ty" "live_task i" for ty cutoff gs i
  by unfold_locales (rule live_task_pars)

interpretation live_tasks: pruning "old_tasks cutoff is bs cs gs" delete_tasks "live_task i" for cutoff "is" bs cs gs i
proof unfold_locales
  fix d batch assume l: "live_task i d" and b: "set batch \<subseteq> set (old_tasks cutoff is bs cs gs d)"
  have "i \<notin> set batch"
  proof
    assume "i \<in> set batch"
    then obtain t where "t \<in> set (d_tasks d)" "t_id t = i" "terminal_task (t_status t)"
      using b by (auto simp: old_tasks_def)
    moreover from this have "live_member t" by (intro live_task_member [OF l])
    ultimately show False by (auto simp: live_member_def terminal_task_def)
  qed
  then show "live_task i (delete_tasks batch d)" by (rule live_task_delete [OF l])
qed

lemma live_task_graphs:
  assumes "live_task i d" "set batch \<subseteq> set (old_graphs cutoff d)"
  shows "live_task i (delete_graphs batch d)"
proof -
  define nodes where "nodes = map n_id (filter (\<lambda>n. n_graph n \<in> set batch) (d_nodes d))"
  define ts where "ts = map t_id (filter (\<lambda>t. t_graph_node t \<in> Some ` set nodes) (d_tasks d))"
  have free: "t_graph_id t \<notin> Some ` set batch" if "t \<in> set (d_tasks d)" "t_id t = i" for t
  proof
    assume "t_graph_id t \<in> Some ` set batch"
    then obtain g where "t_graph_id t = Some g" "g \<in> set (old_graphs cutoff d)" using assms(2) by blast
    then have "\<not> live_member t" using that(1) by (auto simp: old_graphs_def exists_where_iff)
    then show False using live_task_member [OF assms(1) that] by simp
  qed
  have "i \<notin> set ts"
  proof
    assume "i \<in> set ts"
    then obtain t n where t: "t \<in> set (d_tasks d)" "t_id t = i" "n \<in> set (d_nodes d)" "n_graph n \<in> set batch"
      "t_graph_node t = Some (n_id n)" by (auto simp: ts_def nodes_def)
    then have "t_graph_id t = Some (n_graph n)" using assms(1) by (auto simp: live_task_def list_all_iff)
    then show False using free [OF t(1,2)] t(4) by simp
  qed
  from live_task_delete [OF assms(1) this] have l: "live_task i (delete_tasks ts d)" .
  let ?e = "delete_graphs batch d"
  have e: "d_tasks ?e = upd_where (\<lambda>t. t_graph_id t \<in> Some ` set batch) (\<lambda>t. t\<lparr>t_graph_id := None\<rparr>)
      (d_tasks (delete_tasks ts d))"
    "d_nodes ?e = filter (\<lambda>n. n_graph n \<notin> set batch) (d_nodes (delete_tasks ts d))"
    by (simp_all add: delete_graphs_def Let_def ts_def nodes_def)
  have sub: "set (d_tasks (delete_tasks ts d)) \<subseteq> set (d_tasks d)" by (auto simp: delete_tasks_def)
  have same: "t \<in> set (d_tasks ?e) \<longleftrightarrow> t \<in> set (d_tasks (delete_tasks ts d))" if "t_id t = i" for t
  proof
    assume "t \<in> set (d_tasks ?e)"
    then obtain u where u: "u \<in> set (d_tasks (delete_tasks ts d))"
      "t = (if t_graph_id u \<in> Some ` set batch then u\<lparr>t_graph_id := None\<rparr> else u)"
      unfolding e(1) set_upd_where by blast
    moreover have "t_id u = i" using u(2) that by (cases "t_graph_id u \<in> Some ` set batch") auto
    ultimately show "t \<in> set (d_tasks (delete_tasks ts d))" using free [of u] sub by auto
  next
    assume t: "t \<in> set (d_tasks (delete_tasks ts d))"
    then have "(if t_graph_id t \<in> Some ` set batch then t\<lparr>t_graph_id := None\<rparr> else t) \<in> set (d_tasks ?e)"
      unfolding e(1) set_upd_where by (rule imageI)
    moreover have "t_graph_id t \<notin> Some ` set batch" using free [of t] t sub that by blast
    ultimately show "t \<in> set (d_tasks ?e)" by (simp only: if_False)
  qed
  show ?thesis using l same unfolding live_task_def exists_where_iff list_all_iff e(2) by fastforce
qed

interpretation live_graphs: pruning "old_graphs cutoff" delete_graphs "live_task i" for cutoff i
  by unfold_locales (rule live_task_graphs)

interpretation live_hooks: pruning "old_wf_hooks cutoff" delete_wf_hooks "live_task i" for cutoff i
  by unfold_locales (erule live_task_cong [rotated 2], auto simp: delete_wf_hooks_def)

lemma prune_live:
  assumes "live_task i d" "\<And>e. live_task i e \<Longrightarrow> live_task i (env e)"
  shows "live_task i (snd (prune env bs cutoff d))"
  unfolding prune_def Let_def split_def snd_conv
  by (intro live_hooks.batches_keep live_graphs.batches_keep live_tasks.batches_keep live_pars.batches_keep
      live_chains.batches_keep assms)

lemma sweep_cases:
  "snd (sweep_retention env bs now days max_tasks d) = d \<or>
    (\<exists>cutoff. sweep_retention env bs now days max_tasks d = prune env bs cutoff d)"
  unfolding sweep_retention_def Let_def
  by (cases "case days of None \<Rightarrow> None | Some n \<Rightarrow> if n = 0 then None else Some (now - n * 86400)";
      cases "case max_tasks of None \<Rightarrow> None | Some n \<Rightarrow> if n = 0 then None else count_cutoff n d") auto

text \<open>
  C29: retention never deletes live work. A task that has not ended survives a sweep, whatever its
  bounds, through every cascade from a workflow, a graph or another table, and whatever else
  commits between a selection and its delete as long as that keeps the task alive.
\<close>

theorem retention_keeps_live_tasks:
  assumes "live_task i d" "\<forall>e. live_task i e \<longrightarrow> live_task i (env e)"
    and "sweep_retention env bs now days max_tasks d = (r, d')"
  shows "live_task i d'"
  using sweep_cases [of env bs now days max_tasks d] prune_live [OF assms(1), of env bs] assms
  by (metis snd_conv)

section \<open>Undelivered settlements\<close>

text \<open>A settlement of graph \<open>g\<close> in the outbox that no dispatch row accounts for.\<close>

definition undelivered :: "id \<Rightarrow> nat \<Rightarrow> db \<Rightarrow> bool" where
  "undelivered g n d \<longleftrightarrow> exists_where (\<lambda>x. g_id x = g) (d_graphs d) \<and>
     exists_where (\<lambda>s. se_graph s = g \<and> se_generation s = n \<and> \<not> delivered d s) (d_settlements d)"

lemma undelivered_cong:
  "d_graphs d' = d_graphs d \<Longrightarrow> d_settlements d' = d_settlements d \<Longrightarrow>
    set (d_wf_hooks d') \<subseteq> set (d_wf_hooks d) \<Longrightarrow> undelivered g n d \<Longrightarrow> undelivered g n d'"
  by (fastforce simp: undelivered_def delivered_def exists_where_iff)

lemma delete_tasks_frame:
  "d_graphs (delete_tasks ids d) = d_graphs d" "d_settlements (delete_tasks ids d) = d_settlements d"
  "d_wf_hooks (delete_tasks ids d) = d_wf_hooks d"
  by (simp_all add: delete_tasks_def)

interpretation outbox_chains: pruning "old_chains cutoff gs" delete_chains "undelivered g n" for cutoff gs g n
  by unfold_locales (erule undelivered_cong [rotated 3], auto simp: delete_chains_def)

interpretation outbox_pars: pruning "old_pars ty cutoff gs" "delete_pars ty" "undelivered g n" for ty cutoff gs g n
  by unfold_locales
    (erule undelivered_cong [rotated 3], auto simp: delete_pars_def Let_def delete_tasks_frame)

interpretation outbox_tasks: pruning "old_tasks cutoff is bs cs gs" delete_tasks "undelivered g n"
  for cutoff "is" bs cs gs g n
  by unfold_locales (erule undelivered_cong [rotated 3], auto simp: delete_tasks_frame)

interpretation outbox_hooks: pruning "old_wf_hooks cutoff" delete_wf_hooks "undelivered g n" for cutoff g n
  by unfold_locales (erule undelivered_cong [rotated 3], auto simp: delete_wf_hooks_def)

lemma undelivered_graphs:
  assumes "undelivered g n d" "set batch \<subseteq> set (old_graphs cutoff d)"
  shows "undelivered g n (delete_graphs batch d)"
proof -
  obtain s where s: "s \<in> set (d_settlements d)" "se_graph s = g" "se_generation s = n" "\<not> delivered d s"
    using assms(1) by (auto simp: undelivered_def exists_where_iff)
  have out: "g \<notin> set batch"
  proof
    assume "g \<in> set batch"
    then have "g \<in> set (old_graphs cutoff d)" using assms(2) by blast
    then have "\<not> exists_where (\<lambda>s. se_graph s = g \<and> \<not> delivered d s) (d_settlements d)"
      by (auto simp: old_graphs_def)
    then show False using s by (auto simp: exists_where_iff)
  qed
  let ?e = "delete_graphs batch d"
  have e: "d_graphs ?e = upd_where (\<lambda>g. g_previous g \<in> Some ` set batch) (\<lambda>g. g\<lparr>g_previous := None\<rparr>)
      (filter (\<lambda>g. g_id g \<notin> set batch) (d_graphs d))"
    "d_settlements ?e = filter (\<lambda>s. se_graph s \<notin> set batch) (d_settlements d)" "d_wf_hooks ?e = d_wf_hooks d"
    by (simp_all add: delete_graphs_def Let_def delete_tasks_frame)
  have "s \<in> set (d_settlements ?e)" "\<not> delivered ?e s" using s out by (simp_all add: e delivered_def)
  moreover have "map g_id (d_graphs ?e) = map g_id (filter (\<lambda>g. g_id g \<notin> set batch) (d_graphs d))"
    unfolding e(1) by (rule map_upd_where) simp
  then have "g_id ` set (d_graphs ?e) = g_id ` set (filter (\<lambda>g. g_id g \<notin> set batch) (d_graphs d))"
    by (metis list.set_map)
  then have "g \<in> g_id ` set (d_graphs ?e)"
    using assms(1) out by (auto simp: undelivered_def exists_where_iff image_iff)
  ultimately show ?thesis using s(2,3) by (auto simp: undelivered_def exists_where_iff)
qed

interpretation outbox_graphs: pruning "old_graphs cutoff" delete_graphs "undelivered g n" for cutoff g n
  by unfold_locales (rule undelivered_graphs)

text \<open>
  C30: retention keeps what was not delivered. A settled graph with a settlement in the outbox whose
  hook was never dispatched, its row and its settlement both, survives every sweep during which
  nothing delivers it.
\<close>

theorem retention_keeps_undelivered:
  assumes "undelivered g n d" "\<forall>e. undelivered g n e \<longrightarrow> undelivered g n (env e)"
    and "sweep_retention env bs now days max_tasks d = (r, d')"
  shows "undelivered g n d'"
proof -
  have "undelivered g n (snd (prune env bs cutoff d))" for cutoff
    unfolding prune_def Let_def split_def snd_conv
    by (intro outbox_hooks.batches_keep outbox_graphs.batches_keep outbox_tasks.batches_keep
        outbox_pars.batches_keep outbox_chains.batches_keep assms(1)) (use assms(2) in blast)+
  then show ?thesis using sweep_cases [of env bs now days max_tasks d] assms by (metis snd_conv)
qed

section \<open>A sweep drains its backlog\<close>

lemma old_tasks_delete:
  assumes "set batch \<subseteq> set (old_tasks cutoff is bs cs gs d)"
  shows "old_tasks cutoff is bs cs gs (delete_tasks batch d) =
    filter (\<lambda>i. i \<notin> set batch) (old_tasks cutoff is bs cs gs d)"
proof -
  have "exists_where (\<lambda>s. s_task s = Some (t_id t) \<and> s_chain s \<in> set cs) (d_steps (delete_tasks batch d)) \<longleftrightarrow>
      exists_where (\<lambda>s. s_task s = Some (t_id t) \<and> s_chain s \<in> set cs) (d_steps d)"
    if "t_id t \<notin> set batch" for t
  proof -
    have "exists_where (\<lambda>s. s_task s = Some (t_id t) \<and> s_chain s \<in> set cs)
        (upd_where (\<lambda>s. s_task s \<in> Some ` set batch) (\<lambda>s. s\<lparr>s_task := None\<rparr>) rs) \<longleftrightarrow>
        exists_where (\<lambda>s. s_task s = Some (t_id t) \<and> s_chain s \<in> set cs) rs" for rs
      using that by (induction rs) auto
    then show ?thesis by (simp add: delete_tasks_def)
  qed
  then show ?thesis
    by (auto simp: old_tasks_def filter_map comp_def delete_tasks_def [of batch d, THEN arg_cong [of _ _ d_tasks]]
        intro!: arg_cong [of _ _ "map t_id"] filter_cong)
qed

text \<open>A delete that takes the deleted keys out of the selection and no others.\<close>

locale draining =
  fixes sel :: "db \<Rightarrow> 'k list"
    and del :: "'k list \<Rightarrow> db \<Rightarrow> db"
  assumes shrinks: "set batch \<subseteq> set (sel d) \<Longrightarrow> sel (del batch d) = filter (\<lambda>i. i \<notin> set batch) (sel d)"
begin

lemma batch_rest: "distinct xs \<Longrightarrow> filter (\<lambda>i. i \<notin> set (take n xs)) xs = drop n xs"
proof -
  assume d: "distinct xs"
  have "filter (\<lambda>i. i \<notin> set (take n xs)) (take n xs @ drop n xs) = drop n xs"
    unfolding filter_append using d set_take_disj_set_drop_if_distinct [of xs n n]
    by (auto simp: filter_id_conv)
  then show ?thesis by simp
qed

lemma batches_drain:
  assumes "0 < bs" "distinct (sel d)" "length (sel d) \<le> k * bs"
  shows "sel (snd (delete_batches k (\<lambda>d. d) bs sel del d)) = []"
  using assms(2,3)
proof (induction k arbitrary: d)
  case 0
  then show ?case by (simp add: delete_batches.simps)
next
  case (Suc k)
  show ?case
  proof (cases "sel d = []")
    case True
    then show ?thesis by (simp add: delete_batches.simps)
  next
    case False
    define batch where "batch = filter (\<lambda>i. i \<in> set (take bs (sel d))) (sel d)"
    have b: "set batch = set (take bs (sel d))" unfolding batch_def by (auto dest: in_set_takeD)
    have "sel (del batch d) = filter (\<lambda>i. i \<notin> set batch) (sel d)" by (rule shrinks) (auto simp: batch_def)
    then have rest: "sel (del batch d) = drop bs (sel d)" unfolding b using batch_rest Suc.prems(1) by simp
    have ne: "take bs (sel d) \<noteq> []" using False assms(1) by simp
    then have "batch \<noteq> []" using b by fastforce
    then have "snd (delete_batches (Suc k) (\<lambda>d. d) bs sel del d) =
        snd (delete_batches k (\<lambda>d. d) bs sel del (del batch d))"
      using ne by (subst delete_batches.simps) (simp add: batch_def [symmetric] Let_def split_def)
    moreover have "sel (snd (delete_batches k (\<lambda>d. d) bs sel del (del batch d))) = []"
      by (rule Suc.IH) (use rest Suc.prems in auto)
    ultimately show ?thesis by simp
  qed
qed

end

interpretation tasks_drain: draining "old_tasks cutoff is bs cs gs" delete_tasks for cutoff "is" bs cs gs
  by unfold_locales (rule old_tasks_delete)

text \<open>
  C67: a sweep drains its backlog. When no more tasks are due than the batches of a sweep can hold,
  and nothing else writes meanwhile, no task that the bounds select is left after it.
\<close>

theorem retention_drains_backlog:
  assumes "0 < n" "distinct (map t_id (d_tasks d))"
    and "length (old_tasks cutoff is bs cs gs d) \<le> max_batches * n"
  shows "old_tasks cutoff is bs cs gs
    (snd (delete_batches max_batches (\<lambda>d. d) n (old_tasks cutoff is bs cs gs) delete_tasks d)) = []"
proof -
  have "distinct (old_tasks cutoff is bs cs gs d)" using assms(2) by (simp add: old_tasks_def distinct_map_filter)
  then show ?thesis by (rule tasks_drain.batches_drain [OF assms(1) _ assms(3)])
qed

section \<open>Examples\<close>

text \<open>
  A hundred days on: three settled tasks, a task still running, and a graph whose settlement hook was
  never dispatched.
\<close>

definition settled_task :: "id \<Rightarrow> task_row" where
  "settled_task i = (demo_task i)\<lparr>t_status := TSucceeded\<rparr>"

definition demo_graph :: graph_row where
  "demo_graph = \<lparr>g_id = 7, g_kind = None, g_revision = None, g_metadata = None, g_previous = None,
     g_status = GSucceeded, g_generation = 1, g_cluster = None, g_started = 0, g_settled_at = Some 0,
     g_resumed_at = None, g_overdue_at = None, g_on_settled = Some ''app.hook'', g_on_settled_kwargs = [],
     g_budgets = None, g_summary = None, g_request_key = None, g_plan_hash = None,
     g_subject_type = None, g_subject_id = None, g_created = 0, g_updated = 0\<rparr>"

definition archive_db :: db where
  "archive_db = empty_db\<lparr>d_tasks := [settled_task 1, settled_task 2, (demo_task 3)\<lparr>t_status := TRunning\<rparr>, settled_task 4],
     d_graphs := [demo_graph],
     d_settlements := [\<lparr>se_graph = 7, se_generation = 1, se_hook_path = ''app.hook'', se_hook_kwargs = [],
       se_context = [], se_created = 0\<rparr>]\<rparr>"

definition demo_sweep :: "(string \<times> nat) list \<times> db" where
  "demo_sweep = sweep_retention (\<lambda>d. d) 2 (100 * 86400) (Some 30) None archive_db"

theorem retention_keeps_live_tasks_witness:
  "live_task 3 (snd demo_sweep) \<and> map t_id (d_tasks (snd demo_sweep)) = [3]"
proof -
  have "live_task 3 archive_db" by code_simp
  moreover have "map t_id (d_tasks (snd demo_sweep)) = [3]" by code_simp
  ultimately show ?thesis
    using retention_keeps_live_tasks [OF _ _ prod.collapse [symmetric], of 3 archive_db "\<lambda>d. d"]
    by (simp add: demo_sweep_def)
qed

theorem retention_keeps_undelivered_witness: "undelivered 7 1 (snd demo_sweep)"
proof -
  have "undelivered 7 1 archive_db" by code_simp
  then show ?thesis
    using retention_keeps_undelivered [OF _ _ prod.collapse [symmetric], of 7 1 archive_db "\<lambda>d. d"]
    by (simp add: demo_sweep_def)
qed

theorem retention_drains_backlog_witness:
  "length (old_tasks 50 [] [] [] [] archive_db) = 3 \<and>
     old_tasks 50 [] [] [] [] (snd (delete_batches max_batches (\<lambda>d. d) 2 (old_tasks 50 [] [] [] []) delete_tasks archive_db)) = []"
proof -
  have l: "length (old_tasks 50 [] [] [] [] archive_db) = 3" "distinct (map t_id (d_tasks archive_db))" by code_simp+
  have "length (old_tasks 50 [] [] [] [] archive_db) \<le> max_batches * 2" by (simp add: l(1) max_batches_def)
  from retention_drains_backlog [OF _ l(2) this] l(1) show ?thesis by simp
qed

end
