(* ===== verification/Qraft_Settings.thy ===== *)
theory Qraft_Settings
  imports Qraft_Conf Qraft_Retry
begin

text \<open>
  The settings object (\<^verbatim>\<open>QraftSettings\<close> of \<^verbatim>\<open>qraft/conf.py\<close>): its fields with their
  defaults and bounds, and the cache behind \<^verbatim>\<open>get_conf\<close>. How pydantic reads a value as
  a number, a flag or a string is its own code: the parameter \<open>coercions\<close>. An error in any field makes
  the load raise; floats are exact here. The properties: loaded settings meet every bound, and the
  cache cannot be told from loading anew.
\<close>

section \<open>Fields\<close>

record coercions =
  cv_int :: "pyval \<Rightarrow> int option"
  cv_float :: "pyval \<Rightarrow> rat option"
  cv_bool :: "pyval \<Rightarrow> bool option"
  cv_str :: "pyval \<Rightarrow> string option"

definition field :: "(pyval \<Rightarrow> 'a option) \<Rightarrow> ('a \<Rightarrow> bool) \<Rightarrow> 'a \<Rightarrow> string \<Rightarrow> dict \<Rightarrow> 'a res" where
  "field coerce ok dflt k data =
     (case dict_get data k of
        None \<Rightarrow> Inr dflt
      | Some v \<Rightarrow> (case coerce v of
            None \<Rightarrow> Inl ValidationError
          | Some x \<Rightarrow> if ok x then Inr x else Inl ValidationError))"

definition nullable :: "(pyval \<Rightarrow> 'a option) \<Rightarrow> pyval \<Rightarrow> 'a option option" where
  "nullable coerce v = (if v = PNone then Some None else map_option Some (coerce v))"

definition if_given :: "('a \<Rightarrow> bool) \<Rightarrow> 'a option \<Rightarrow> bool" where
  "if_given ok x = (case x of None \<Rightarrow> True | Some y \<Rightarrow> ok y)"

definition unbounded :: "'a \<Rightarrow> bool" where
  "unbounded x = True"

section \<open>The settings\<close>

record settings =
  qs_retry :: retry_defaults
  qs_threads :: int
  qs_max_inflight :: "int option"
  qs_grace_period :: rat
  qs_sync_hooks :: bool
  qs_reap_interval :: rat
  qs_reap_stale_after :: rat
  qs_heartbeat_interval :: rat
  qs_min_heartbeat_grace :: rat
  qs_max_executions :: int
  qs_dispatch_interval :: rat
  qs_dispatch_batch :: int
  qs_retention_days :: "rat option"
  qs_retention_max_tasks :: "int option"
  qs_inherited :: bool
  qs_retention_interval :: rat
  qs_retention_batch_size :: int
  qs_metrics_sink :: string
  qs_metrics_gauges :: bool
  qs_progress_min_interval :: rat

definition default_retry :: retry_defaults where
  "default_retry = \<lparr>rd_max_attempts = 3, rd_delay = 30, rd_backoff = ''exponential'', rd_jitter = True,
     rd_jitter_max = 1 / 5\<rparr>"

definition load_retry :: "coercions \<Rightarrow> dict \<Rightarrow> retry_defaults res" where
  "load_retry cv data =
     rbind (field (cv_int cv) (\<lambda>x. 1 \<le> x \<and> x \<le> 10) (rd_max_attempts default_retry) ''max_attempts'' data) (\<lambda>ma.
     rbind (field (cv_float cv) (\<lambda>x. 0 \<le> x) (rd_delay default_retry) ''delay'' data) (\<lambda>de.
     rbind (field (cv_str cv) (\<lambda>x. x \<in> set backoffs) (rd_backoff default_retry) ''backoff'' data) (\<lambda>bo.
     rbind (field (cv_bool cv) unbounded (rd_jitter default_retry) ''jitter'' data) (\<lambda>ji.
     rbind (field (cv_float cv) (\<lambda>x. 0 \<le> x \<and> x \<le> 1) (rd_jitter_max default_retry) ''jitter_max'' data) (\<lambda>jm.
     Inr \<lparr>rd_max_attempts = ma, rd_delay = de, rd_backoff = bo, rd_jitter = ji, rd_jitter_max = jm\<rparr>)))))"

definition retry_field :: "coercions \<Rightarrow> dict \<Rightarrow> retry_defaults res" where
  "retry_field cv data =
     (case dict_get data ''retry_defaults'' of
        None \<Rightarrow> Inr default_retry
      | Some (PDict d) \<Rightarrow> load_retry cv d
      | Some _ \<Rightarrow> Inl ValidationError)"

definition load_workers :: "coercions \<Rightarrow> dict \<Rightarrow> (int \<times> int option \<times> rat \<times> bool) res" where
  "load_workers cv data =
     rbind (field (cv_int cv) (\<lambda>x. 1 \<le> x) 1 ''threads'' data) (\<lambda>th.
     rbind (field (nullable (cv_int cv)) (if_given (\<lambda>x. 1 \<le> x)) None ''max_inflight'' data) (\<lambda>mi.
     rbind (field (cv_float cv) (\<lambda>x. 0 \<le> x) 30 ''grace_period'' data) (\<lambda>gp.
     rbind (field (cv_bool cv) unbounded False ''sync_hooks'' data) (\<lambda>sh. Inr (th, mi, gp, sh)))))"

definition load_reaper :: "coercions \<Rightarrow> dict \<Rightarrow> (rat \<times> rat \<times> rat \<times> rat \<times> int) res" where
  "load_reaper cv data =
     rbind (field (cv_float cv) (\<lambda>x. 0 < x) 60 ''reap_interval'' data) (\<lambda>ri.
     rbind (field (cv_float cv) (\<lambda>x. 0 < x) 3600 ''reap_stale_after'' data) (\<lambda>sa.
     rbind (field (cv_float cv) (\<lambda>x. 0 < x) 30 ''heartbeat_interval'' data) (\<lambda>hi.
     rbind (field (cv_float cv) (\<lambda>x. 0 < x) 90 ''min_heartbeat_grace'' data) (\<lambda>mg.
     rbind (field (cv_int cv) (\<lambda>x. 1 \<le> x) 1 ''max_executions_per_attempt'' data) (\<lambda>me.
     Inr (ri, sa, hi, mg, me))))))"

definition load_sweeps ::
  "coercions \<Rightarrow> dict \<Rightarrow> (rat \<times> int \<times> rat option \<times> int option \<times> bool \<times> rat \<times> int) res" where
  "load_sweeps cv data =
     rbind (field (cv_float cv) (\<lambda>x. 0 < x) (1/2) ''dispatch_interval'' data) (\<lambda>di.
     rbind (field (cv_int cv) (\<lambda>x. 1 \<le> x) 50 ''dispatch_batch'' data) (\<lambda>db.
     rbind (field (nullable (cv_float cv)) (if_given (\<lambda>x. 0 < x)) None ''retention_days'' data) (\<lambda>rd.
     rbind (field (nullable (cv_int cv)) (if_given (\<lambda>x. 1 \<le> x)) None ''retention_max_tasks'' data) (\<lambda>rm.
     rbind (field (cv_bool cv) unbounded False ''retention_inherited_from_save_limit'' data) (\<lambda>ih.
     rbind (field (cv_float cv) (\<lambda>x. 0 < x) 3600 ''retention_interval'' data) (\<lambda>ri.
     rbind (field (cv_int cv) (\<lambda>x. 1 \<le> x) 500 ''retention_batch_size'' data) (\<lambda>rb.
     Inr (di, db, rd, rm, ih, ri, rb))))))))"

definition load_metrics :: "coercions \<Rightarrow> dict \<Rightarrow> (string \<times> bool \<times> rat) res" where
  "load_metrics cv data =
     rbind (field (cv_str cv) unbounded ''qraft.metrics.NullSink'' ''metrics_sink'' data) (\<lambda>ms.
     rbind (field (cv_bool cv) unbounded False ''metrics_gauges'' data) (\<lambda>mg.
     rbind (field (cv_float cv) (\<lambda>x. 0 \<le> x) 0 ''progress_min_interval'' data) (\<lambda>pmi.
     Inr (ms, mg, pmi))))"

definition validate_settings :: "coercions \<Rightarrow> dict \<Rightarrow> settings res" where
  "validate_settings cv data =
     rbind (retry_field cv data) (\<lambda>rt.
     rbind (load_workers cv data) (\<lambda>(th, mi, gp, sh).
     rbind (load_reaper cv data) (\<lambda>(ri, sa, hi, mg, me).
     rbind (load_sweeps cv data) (\<lambda>(di, db, rd, rm, ih, ti, rb).
     rbind (load_metrics cv data) (\<lambda>(ms, ga, pmi).
     Inr \<lparr>qs_retry = rt, qs_threads = th, qs_max_inflight = mi, qs_grace_period = gp, qs_sync_hooks = sh,
          qs_reap_interval = ri, qs_reap_stale_after = sa, qs_heartbeat_interval = hi,
          qs_min_heartbeat_grace = mg, qs_max_executions = me, qs_dispatch_interval = di,
          qs_dispatch_batch = db, qs_retention_days = rd, qs_retention_max_tasks = rm, qs_inherited = ih,
          qs_retention_interval = ti, qs_retention_batch_size = rb, qs_metrics_sink = ms,
          qs_metrics_gauges = ga, qs_progress_min_interval = pmi\<rparr>)))))"

text \<open>\<^verbatim>\<open>QraftSettings()\<close> in a process whose cluster is \<open>name\<close>.\<close>

definition load_settings :: "coercions \<Rightarrow> pyval \<Rightarrow> pyval \<Rightarrow> string option \<Rightarrow> settings res" where
  "load_settings cv qraft q_cluster name = validate_settings cv (settings_source qraft q_cluster name)"

definition settings_inflight :: "settings \<Rightarrow> nat" where
  "settings_inflight s = get_max_inflight (nat (qs_threads s)) (map_option nat (qs_max_inflight s))"

definition settings_retention :: "settings \<Rightarrow> bool" where
  "settings_retention s = retention_enabled (qs_retention_days s) (map_option nat (qs_retention_max_tasks s))"

text \<open>What the operations read of \<^verbatim>\<open>get_conf()\<close>.\<close>

definition configured :: "settings \<Rightarrow> world \<Rightarrow> world" where
  "configured s w = w\<lparr>w_retry_defaults := qs_retry s, w_sync_hooks := qs_sync_hooks s,
     w_max_executions := nat (qs_max_executions s), w_heartbeat_interval := qs_heartbeat_interval s,
     w_min_grace := qs_min_heartbeat_grace s, w_stale_after := qs_reap_stale_after s,
     w_dispatch_batch := nat (qs_dispatch_batch s), w_progress_interval := qs_progress_min_interval s\<rparr>"

section \<open>The cache\<close>

definition cache_size :: nat where
  "cache_size = 8"

text \<open>\<^verbatim>\<open>lru_cache(maxsize=8)\<close>: the most recently used entry first; a load that raises
  is not kept. \<open>load\<close> is the load for the cluster named by the environment.\<close>

type_synonym conf_cache = "(string option \<times> settings) list"

definition cached_conf ::
  "(string option \<Rightarrow> settings res) \<Rightarrow> string option \<Rightarrow> conf_cache \<Rightarrow> settings res \<times> conf_cache" where
  "cached_conf load name cache =
     (case map_of cache name of
        Some s \<Rightarrow> (Inr s, (name, s) # filter (\<lambda>(k, _). k \<noteq> name) cache)
      | None \<Rightarrow> (case load name of
            Inl e \<Rightarrow> (Inl e, cache)
          | Inr s \<Rightarrow> (Inr s, take cache_size ((name, s) # cache))))"

fun get_confs ::
  "(string option \<Rightarrow> settings res) \<Rightarrow> string option list \<Rightarrow> conf_cache \<Rightarrow> settings res list \<times> conf_cache" where
  "get_confs load [] cache = ([], cache)"
| "get_confs load (n # ns) cache =
     (let (r, cache) = cached_conf load n cache; (rs, cache) = get_confs load ns cache in (r # rs, cache))"

section \<open>Properties\<close>

lemma field_ok: "field c ok dflt k data = Inr x \<Longrightarrow> ok dflt \<Longrightarrow> ok x"
  by (auto simp: field_def split: option.splits if_splits)

definition valid_retry :: "retry_defaults \<Rightarrow> bool" where
  "valid_retry r \<longleftrightarrow> 1 \<le> rd_max_attempts r \<and> rd_max_attempts r \<le> 10 \<and> 0 \<le> rd_delay r \<and>
     rd_backoff r \<in> set backoffs \<and> 0 \<le> rd_jitter_max r \<and> rd_jitter_max r \<le> 1"

definition valid_settings :: "settings \<Rightarrow> bool" where
  "valid_settings s \<longleftrightarrow> valid_retry (qs_retry s) \<and> 1 \<le> qs_threads s \<and> if_given (\<lambda>x. 1 \<le> x) (qs_max_inflight s) \<and>
     0 \<le> qs_grace_period s \<and> 0 < qs_reap_interval s \<and> 0 < qs_reap_stale_after s \<and>
     0 < qs_heartbeat_interval s \<and> 0 < qs_min_heartbeat_grace s \<and> 1 \<le> qs_max_executions s \<and>
     0 < qs_dispatch_interval s \<and> 1 \<le> qs_dispatch_batch s \<and> if_given (\<lambda>x. 0 < x) (qs_retention_days s) \<and>
     if_given (\<lambda>x. 1 \<le> x) (qs_retention_max_tasks s) \<and> 0 < qs_retention_interval s \<and>
     1 \<le> qs_retention_batch_size s \<and> 0 \<le> qs_progress_min_interval s"

lemma default_retry_valid: "valid_retry default_retry"
  by (simp add: valid_retry_def default_retry_def backoffs_def)

lemma load_retry_valid:
  assumes "load_retry cv data = Inr r"
  shows "valid_retry r"
  using assms default_retry_valid unfolding load_retry_def
  by (elim rbindE) (auto simp: valid_retry_def dest!: field_ok)

lemma retry_field_valid: "retry_field cv data = Inr r \<Longrightarrow> valid_retry r"
  by (auto simp: retry_field_def default_retry_valid dest: load_retry_valid split: option.splits pyval.splits)

lemma load_workers_valid:
  "load_workers cv data = Inr (th, mi, gp, sh) \<Longrightarrow> 1 \<le> th \<and> if_given (\<lambda>x. 1 \<le> x) mi \<and> 0 \<le> gp"
  unfolding load_workers_def by (elim rbindE) (auto simp: if_given_def dest!: field_ok)

lemma load_reaper_valid:
  "load_reaper cv data = Inr (ri, sa, hi, mg, me) \<Longrightarrow> 0 < ri \<and> 0 < sa \<and> 0 < hi \<and> 0 < mg \<and> 1 \<le> me"
  unfolding load_reaper_def by (elim rbindE) (auto dest!: field_ok)

lemma load_sweeps_valid:
  "load_sweeps cv data = Inr (di, db, rd, rm, ih, ti, rb) \<Longrightarrow> 0 < di \<and> 1 \<le> db \<and> if_given (\<lambda>x. 0 < x) rd \<and>
     if_given (\<lambda>x. 1 \<le> x) rm \<and> 0 < ti \<and> 1 \<le> rb"
  unfolding load_sweeps_def by (elim rbindE) (auto simp: if_given_def dest!: field_ok)

lemma load_metrics_valid: "load_metrics cv data = Inr (ms, ga, pmi) \<Longrightarrow> 0 \<le> pmi"
  unfolding load_metrics_def by (elim rbindE) (auto dest!: field_ok)

lemma validated:
  assumes "validate_settings cv data = Inr s"
  shows "valid_settings s"
proof -
  obtain rt th mi gp sh ri sa hi mg me di db rd rm ih ti rb ms ga pmi where
    v: "retry_field cv data = Inr rt" "load_workers cv data = Inr (th, mi, gp, sh)"
      "load_reaper cv data = Inr (ri, sa, hi, mg, me)" "load_sweeps cv data = Inr (di, db, rd, rm, ih, ti, rb)"
      "load_metrics cv data = Inr (ms, ga, pmi)"
    and s: "s = \<lparr>qs_retry = rt, qs_threads = th, qs_max_inflight = mi, qs_grace_period = gp, qs_sync_hooks = sh,
          qs_reap_interval = ri, qs_reap_stale_after = sa, qs_heartbeat_interval = hi,
          qs_min_heartbeat_grace = mg, qs_max_executions = me, qs_dispatch_interval = di,
          qs_dispatch_batch = db, qs_retention_days = rd, qs_retention_max_tasks = rm, qs_inherited = ih,
          qs_retention_interval = ti, qs_retention_batch_size = rb, qs_metrics_sink = ms,
          qs_metrics_gauges = ga, qs_progress_min_interval = pmi\<rparr>"
    using assms unfolding validate_settings_def by (elim rbindE) (auto elim!: rbindE)
  show ?thesis
    using retry_field_valid [OF v(1)] load_workers_valid [OF v(2)] load_reaper_valid [OF v(3)]
      load_sweeps_valid [OF v(4)] load_metrics_valid [OF v(5)]
    by (simp add: valid_settings_def s)
qed


text \<open>Values of the right type are read as they are; integers also as floats.\<close>

fun strict_int :: "pyval \<Rightarrow> int option" where
  "strict_int (PInt i) = Some i"
| "strict_int _ = None"

fun strict_bool :: "pyval \<Rightarrow> bool option" where
  "strict_bool (PBool b) = Some b"
| "strict_bool _ = None"

fun strict_str :: "pyval \<Rightarrow> string option" where
  "strict_str (PStr s) = Some s"
| "strict_str _ = None"

fun strict_float :: "pyval \<Rightarrow> rat option" where
  "strict_float (PInt i) = Some (of_int i)"
| "strict_float (PFloat r) = Some r"
| "strict_float _ = None"

definition strict :: coercions where
  "strict = \<lparr>cv_int = strict_int, cv_float = strict_float, cv_bool = strict_bool, cv_str = strict_str\<rparr>"

text \<open>A base cluster with standard workers, and \<open>io\<close> with four threads.\<close>

definition demo_qraft :: pyval where
  "demo_qraft = PDict [(''HEARTBEAT_INTERVAL'', PInt 10), (''metrics_gauges'', PBool True),
     (''ALT_CLUSTERS'', PDict [(''io'', PDict [(''threads'', PInt 4)])])]"

definition demo_q2 :: pyval where
  "demo_q2 = PDict [(''name'', PStr ''default''), (''save_limit'', PInt 100),
     (''ALT_CLUSTERS'', PDict [(''io'', PDict [])])]"

definition io_settings :: settings where
  "io_settings = (case load_settings strict demo_qraft demo_q2 (Some ''io'') of Inr s \<Rightarrow> s
     | Inl e \<Rightarrow> undefined)"

lemma io_loads: "load_settings strict demo_qraft demo_q2 (Some ''io'') = Inr io_settings"
proof -
  have "\<not> isl (load_settings strict demo_qraft demo_q2 (Some ''io''))" by code_simp
  then show ?thesis by (auto simp: io_settings_def split: sum.splits)
qed


text \<open>A worker never waits for a permit that does not exist.\<close>

lemma settings_inflight_pos: "valid_settings s \<Longrightarrow> 0 < settings_inflight s"
  by (auto simp: valid_settings_def settings_inflight_def get_max_inflight_def if_given_def split: option.splits)

lemma settings_retention_iff:
  "valid_settings s \<Longrightarrow> settings_retention s \<longleftrightarrow> qs_retention_days s \<noteq> None \<or> qs_retention_max_tasks s \<noteq> None"
  by (auto simp: valid_settings_def settings_retention_def retention_enabled_def if_given_def split: option.splits)

definition cache_ok :: "(string option \<Rightarrow> settings res) \<Rightarrow> conf_cache \<Rightarrow> bool" where
  "cache_ok load cache \<longleftrightarrow> length cache \<le> cache_size \<and> (\<forall>(k, s) \<in> set cache. load k = Inr s)"

lemma cached_conf_ok:
  assumes "cache_ok load cache" "cached_conf load name cache = (r, cache')"
  shows "r = load name \<and> cache_ok load cache'"
proof (cases "map_of cache name")
  case None
  show ?thesis
  proof (cases "load name")
    case (Inl e)
    then show ?thesis using None assms by (simp add: cached_conf_def)
  next
    case (Inr s)
    then have "cache' = take cache_size ((name, s) # cache)" "r = Inr s" using None assms(2) by (auto simp: cached_conf_def)
    then show ?thesis using Inr assms(1) by (auto simp: cache_ok_def dest!: in_set_takeD)
  qed
next
  case (Some s)
  then have "(name, s) \<in> set cache" by (rule map_of_SomeD)
  then have l: "load name = Inr s" using assms(1) by (auto simp: cache_ok_def)
  have "length (filter (\<lambda>(k, _). k \<noteq> name) cache) < length cache"
    using \<open>(name, s) \<in> set cache\<close> by (intro length_filter_less) auto
  then show ?thesis using Some assms l by (auto simp: cached_conf_def cache_ok_def)
qed

lemma get_confs_ok: "cache_ok load cache \<Longrightarrow> get_confs load ns cache = (rs, c) \<Longrightarrow> rs = map load ns \<and> cache_ok load c"
proof (induction ns arbitrary: cache rs c)
  case (Cons n ns)
  obtain r cache1 where 1: "cached_conf load n cache = (r, cache1)" by fastforce
  obtain rs1 c1 where 2: "get_confs load ns cache1 = (rs1, c1)" by fastforce
  from cached_conf_ok [OF Cons.prems(1) 1] Cons.IH [OF _ 2] Cons.prems(2) 1 2 show ?case by auto
qed auto

text \<open>
  The settings cache is transparent. Whatever sequence of cluster names a process asks for, every
  answer is what loading the settings for that name would give, and the cache holds at most eight.
\<close>

theorem conf_cache_transparent:
  "fst (get_confs load names []) = map load names \<and> length (snd (get_confs load names [])) \<le> cache_size"
  using get_confs_ok [of load "[]" names] by (cases "get_confs load names []") (simp add: cache_ok_def)

end
