(* ===== verification/Qraft_Worker.thy ===== *)
theory Qraft_Worker
  imports Qraft_Lease
begin

text \<open>
  The threaded worker (\<^verbatim>\<open>qraft/worker.py\<close>): the deadline registry behind the timer
  that the sentinel reads, and the loop that hands tasks to a thread pool.
  \<^item> The process is a state, its threads interleave as steps (\<open>worker_step\<close>): the loop takes a task,
    a pool thread arms its deadline, a pool thread ends, the sentinel's guard passes. While the loop
    waits for a permit it does nothing else, so taking a task is one step, possible when one is free.
  \<^item> The sentinel is Django-Q2's: it takes \<open>cycle\<close> off a positive timer at each pass and replaces the
    worker when the timer is exactly 0.
\<close>

section \<open>The deadline registry\<close>

definition timer_idle :: rat where
  "timer_idle = -1"

definition timer_recycle :: rat where
  "timer_recycle = -2"

definition timer_buffer :: rat where
  "timer_buffer = 3"

record registry =
  dr_timer :: rat
  dr_deadlines :: "(nat \<times> time) list"

fun earliest :: "(nat \<times> time) list \<Rightarrow> time option" where
  "earliest [] = None"
| "earliest ((k, t) # ds) = (case earliest ds of None \<Rightarrow> Some t | Some u \<Rightarrow> Some (min t u))"

definition publish_timer :: "time \<Rightarrow> registry \<Rightarrow> registry" where
  "publish_timer now r =
     (if dr_timer r = timer_recycle then r
      else (case earliest (dr_deadlines r) of
          None \<Rightarrow> r\<lparr>dr_timer := timer_idle\<rparr>
        | Some t \<Rightarrow> r\<lparr>dr_timer := of_int (max \<lceil>t - now\<rceil> 0)\<rparr>))"

definition add_deadline :: "time \<Rightarrow> nat \<Rightarrow> secs \<Rightarrow> registry \<Rightarrow> registry" where
  "add_deadline now key timeout r =
     publish_timer now (r\<lparr>dr_deadlines := AList.update key (now + timeout + timer_buffer) (dr_deadlines r)\<rparr>)"

definition remove_deadline :: "time \<Rightarrow> nat \<Rightarrow> registry \<Rightarrow> registry" where
  "remove_deadline now key r =
     publish_timer now (r\<lparr>dr_deadlines := AList.delete key (dr_deadlines r)\<rparr>)"

section \<open>Executing one task\<close>

text \<open>
  \<open>target\<close> is the function as \<^verbatim>\<open>pydoc.locate\<close> found it, None when it did not.
  \<^verbatim>\<open>task.pop("timeout", timeout) or timeout\<close>: a timeout of 0 counts as none given.
\<close>

definition task_timeout :: "secs option \<Rightarrow> secs \<Rightarrow> secs" where
  "task_timeout given dflt = (case given of None \<Rightarrow> dflt | Some t \<Rightarrow> if t = 0 then dflt else t)"

definition call_result :: "(db \<Rightarrow> string res \<times> db) option \<Rightarrow> db \<Rightarrow> (string option \<times> bool) \<times> db" where
  "call_result target d =
     (case target of
        None \<Rightarrow> ((Some ''Function is not defined'', False), d)
      | Some f \<Rightarrow>
          (case f d of
             (Inr v, d) \<Rightarrow> ((Some v, True), d)
           | (Inl e, d) \<Rightarrow> ((None, False), d)))"

section \<open>The worker loop\<close>

text \<open>
  \<open>wk_waiting\<close>: tasks submitted to the pool whose thread has not armed a deadline; \<open>wk_running\<close>:
  those it has; \<open>wk_free\<close>: the permits left in the semaphore; \<open>wk_exit\<close>: the worker returned.
\<close>

record worker =
  wk_registry :: registry
  wk_queue :: "(nat \<times> secs option) list"
  wk_waiting :: "(nat \<times> secs option) list"
  wk_running :: "nat list"
  wk_free :: nat
  wk_count :: nat
  wk_stop :: bool
  wk_exit :: bool

definition new_worker :: "nat \<Rightarrow> (nat \<times> secs option) list \<Rightarrow> worker" where
  "new_worker max_inflight q =
     \<lparr>wk_registry = \<lparr>dr_timer = timer_idle, dr_deadlines = []\<rparr>, wk_queue = q, wk_waiting = [],
      wk_running = [], wk_free = max_inflight, wk_count = 0, wk_stop = False, wk_exit = False\<rparr>"

text \<open>Taking a task: it blocks while no permit is free (None).\<close>

definition take_task :: "nat \<Rightarrow> worker \<Rightarrow> worker option" where
  "take_task recycle s =
     (case wk_queue s of
        [] \<Rightarrow> None
      | task # q \<Rightarrow>
          if wk_stop s \<or> wk_free s = 0 then None
          else
            (let s = s\<lparr>wk_queue := q, wk_count := wk_count s + 1, wk_free := wk_free s - 1,
                   wk_waiting := wk_waiting s @ [task]\<rparr> in
             Some (if recycle \<le> wk_count s
                   then s\<lparr>wk_registry := (wk_registry s)\<lparr>dr_timer := timer_recycle\<rparr>, wk_stop := True\<rparr>
                   else s)))"

definition poison_pill :: "worker \<Rightarrow> worker" where
  "poison_pill s = s\<lparr>wk_stop := True\<rparr>"

text \<open>A pool thread arms the deadline of the task it starts, if it has one.\<close>

definition arm_task :: "secs \<Rightarrow> time \<Rightarrow> nat \<Rightarrow> worker \<Rightarrow> worker" where
  "arm_task timeout now k s =
     (case map_of (wk_waiting s) k of
        None \<Rightarrow> s
      | Some given \<Rightarrow>
          (let tt = task_timeout given timeout in
           s\<lparr>wk_waiting := AList.delete k (wk_waiting s), wk_running := k # wk_running s,
             wk_registry := (if 0 < tt then add_deadline now k tt (wk_registry s) else wk_registry s)\<rparr>))"

text \<open>
  The \<^verbatim>\<open>finally\<close> of the pool thread, which also runs when the wrapper failed before
  it armed the deadline.
\<close>

definition end_task :: "time \<Rightarrow> nat \<Rightarrow> worker \<Rightarrow> worker" where
  "end_task now k s =
     (if k \<in> set (wk_running s) \<or> k \<in> fst ` set (wk_waiting s)
      then s\<lparr>wk_running := remove1 k (wk_running s), wk_waiting := AList.delete k (wk_waiting s),
             wk_registry := remove_deadline now k (wk_registry s), wk_free := wk_free s + 1\<rparr>
      else s)"

text \<open>Leaving the loop: the pool is shut down first, so nothing is in flight.\<close>

definition leave_worker :: "worker \<Rightarrow> worker option" where
  "leave_worker s =
     (if wk_stop s \<and> \<not> wk_exit s \<and> wk_waiting s = [] \<and> wk_running s = []
      then Some (s\<lparr>wk_exit := True, wk_registry := (if 0 < dr_timer (wk_registry s)
             then (wk_registry s)\<lparr>dr_timer := timer_idle\<rparr> else wk_registry s)\<rparr>)
      else None)"

text \<open>The grace period ran out: the process dies with its threads and leaves the timer as it is.\<close>

definition abandon_worker :: "worker \<Rightarrow> worker" where
  "abandon_worker s = (if wk_stop s then s\<lparr>wk_exit := True\<rparr> else s)"

definition guard_pass :: "rat \<Rightarrow> worker \<Rightarrow> worker" where
  "guard_pass cycle s =
     (if 0 < dr_timer (wk_registry s)
      then s\<lparr>wk_registry := (wk_registry s)\<lparr>dr_timer := dr_timer (wk_registry s) - cycle\<rparr>\<rparr> else s)"

inductive worker_step :: "nat \<Rightarrow> secs \<Rightarrow> worker \<Rightarrow> worker \<Rightarrow> bool" for recycle timeout where
  step_take: "take_task recycle s = Some s' \<Longrightarrow> worker_step recycle timeout s s'"
| step_pill: "worker_step recycle timeout s (poison_pill s)"
| step_arm: "worker_step recycle timeout s (arm_task timeout now k s)"
| step_end: "worker_step recycle timeout s (end_task now k s)"
| step_leave: "leave_worker s = Some s' \<Longrightarrow> worker_step recycle timeout s s'"
| step_abandon: "worker_step recycle timeout s (abandon_worker s)"
| step_guard: "worker_step recycle timeout s (guard_pass (1/2) s)"

section \<open>What the registry promises\<close>

lemma earliest_None [simp]: "earliest ds = None \<longleftrightarrow> ds = []"
  by (induction ds rule: earliest.induct) (auto split: option.splits)

lemma earliest_Some: "earliest ds = Some t \<Longrightarrow> t \<in> snd ` set ds \<and> list_all (\<lambda>(k, u). t \<le> u) ds"
proof (induction ds arbitrary: t rule: earliest.induct)
  case (2 k u ds)
  show ?case
  proof (cases "earliest ds")
    case (Some v)
    then show ?thesis using "2.IH" [of v] "2.prems" by (auto simp: min_def list_all_iff split: if_splits)
  qed (use "2.prems" in simp)
qed simp

text \<open>
  The timer as the sentinel may find it: a half-integer, negative only as the idle mark of a worker
  with nothing armed or as the recycle mark.
\<close>

definition timer_ok :: "registry \<Rightarrow> bool" where
  "timer_ok r \<longleftrightarrow> dr_timer r = timer_recycle \<or> (dr_deadlines r = [] \<and> dr_timer r = timer_idle) \<or>
     (dr_deadlines r \<noteq> [] \<and> 0 \<le> dr_timer r \<and> dr_timer r * 2 \<in> range of_int)"

lemma publish_ok: "timer_ok (publish_timer now r)"
proof (cases "dr_timer r = timer_recycle")
  case False
  show ?thesis
  proof (cases "earliest (dr_deadlines r)")
    case None
    then show ?thesis using False by (simp add: publish_timer_def timer_ok_def)
  next
    case (Some t)
    let ?z = "max \<lceil>t - now\<rceil> 0"
    have "rat_of_int ?z * 2 = of_int (?z * 2)" by simp
    then have "rat_of_int ?z * 2 \<in> range of_int" by blast
    moreover have "0 \<le> rat_of_int ?z" by simp
    moreover have "dr_deadlines r \<noteq> []" using Some earliest_None [of "dr_deadlines r"] by auto
    ultimately show ?thesis using False Some by (simp add: publish_timer_def timer_ok_def del: of_int_max)
  qed
qed (simp add: publish_timer_def timer_ok_def)

lemma publish_frame [simp]:
  "dr_deadlines (publish_timer now r) = dr_deadlines r"
  "dr_timer r = timer_recycle \<Longrightarrow> dr_timer (publish_timer now r) = timer_recycle"
  by (auto simp: publish_timer_def split: option.splits)

definition worker_ok :: "nat \<Rightarrow> nat \<Rightarrow> worker \<Rightarrow> bool" where
  "worker_ok recycle n s \<longleftrightarrow> length (wk_waiting s) + length (wk_running s) + wk_free s = n \<and>
     distinct (map fst (wk_queue s) @ map fst (wk_waiting s) @ wk_running s) \<and>
     fst ` set (dr_deadlines (wk_registry s)) \<subseteq> set (wk_running s) \<and>
     (wk_stop s \<or> wk_count s < recycle) \<and>
     (recycle \<le> wk_count s \<longrightarrow> dr_timer (wk_registry s) = timer_recycle) \<and> timer_ok (wk_registry s)"

lemma alist_delete_length:
  "distinct (map fst xs) \<Longrightarrow> k \<in> fst ` set xs \<Longrightarrow> Suc (length (AList.delete k xs)) = length xs"
proof (induction xs)
  case (Cons x xs)
  show ?case
  proof (cases "fst x = k")
    case True
    then have "k \<notin> fst ` set xs" using Cons.prems(1) by auto
    then show ?thesis using True by simp
  qed (use Cons in auto)
qed simp

lemma alist_delete_dom: "fst ` set (AList.delete k xs) = fst ` set xs - {k}"
  by (induction xs) auto

lemma alist_delete_keys:
  "set (map fst (AList.delete k xs)) = set (map fst xs) - {k}"
  "distinct (map fst xs) \<Longrightarrow> distinct (map fst (AList.delete k xs))"
  "fst ` set (AList.delete k xs) = fst ` set xs - {k}"
  by (simp_all add: alist_delete_dom AList.distinct_delete)

lemma take_ok:
  assumes "worker_ok recycle n s" "take_task recycle s = Some s'"
  shows "worker_ok recycle n s'"
proof -
  obtain x q where q: "wk_queue s = x # q" "\<not> wk_stop s" "0 < wk_free s"
    using assms(2) by (auto simp: take_task_def split: list.splits if_splits)
  define e where "e = s\<lparr>wk_queue := q, wk_count := wk_count s + 1, wk_free := wk_free s - 1,
      wk_waiting := wk_waiting s @ [x]\<rparr>"
  have "s' = (if recycle \<le> wk_count s + 1 then e\<lparr>wk_registry := (wk_registry e)\<lparr>dr_timer := timer_recycle\<rparr>,
      wk_stop := True\<rparr> else e)"
    using assms(2) q by (auto simp: take_task_def e_def Let_def split: if_splits)
  then show ?thesis using assms(1) q by (auto simp: worker_ok_def e_def timer_ok_def)
qed

lemma arm_ok:
  assumes "worker_ok recycle n s"
  shows "worker_ok recycle n (arm_task timeout now k s)"
proof (cases "map_of (wk_waiting s) k")
  case None
  then show ?thesis using assms by (simp add: arm_task_def)
next
  case (Some given)
  have k: "k \<in> fst ` set (wk_waiting s)" using map_of_SomeD [OF Some] by force
  have d: "distinct (map fst (wk_waiting s))" using assms by (simp add: worker_ok_def)
  let ?s = "arm_task timeout now k s"
  have s: "wk_queue ?s = wk_queue s" "wk_waiting ?s = AList.delete k (wk_waiting s)"
    "wk_running ?s = k # wk_running s" "wk_free ?s = wk_free s" "wk_stop ?s = wk_stop s" "wk_count ?s = wk_count s"
    by (simp_all add: arm_task_def Some Let_def)
  have r: "fst ` set (dr_deadlines (wk_registry ?s)) \<subseteq> insert k (fst ` set (dr_deadlines (wk_registry s)))"
    "timer_ok (wk_registry ?s)"
    "dr_timer (wk_registry s) = timer_recycle \<Longrightarrow> dr_timer (wk_registry ?s) = timer_recycle"
    using assms by (auto simp: arm_task_def Some Let_def add_deadline_def publish_ok worker_ok_def AList.dom_update)
  have len: "length (wk_waiting ?s) + length (wk_running ?s) = length (wk_waiting s) + length (wk_running s)"
    using alist_delete_length [OF d k] by (simp add: s)
  have dist: "distinct (map fst (wk_queue ?s) @ map fst (wk_waiting ?s) @ wk_running ?s)"
    using assms k alist_delete_keys [where k = k and xs = "wk_waiting s"] unfolding s worker_ok_def by (auto simp: distinct_append)
  have "fst ` set (dr_deadlines (wk_registry s)) \<subseteq> set (wk_running s)" using assms by (simp add: worker_ok_def)
  then have dl: "fst ` set (dr_deadlines (wk_registry ?s)) \<subseteq> set (wk_running ?s)"
    using r(1) unfolding s(3) list.set by blast
  have "length (wk_waiting ?s) + length (wk_running ?s) + wk_free ?s = n" using len assms by (simp add: s(4) worker_ok_def)
  then show ?thesis unfolding worker_ok_def [of _ _ ?s]
    using dl dist r(2,3) assms by (simp add: s(5,6) worker_ok_def)
qed

lemma end_ok:
  assumes "worker_ok recycle n s"
  shows "worker_ok recycle n (end_task now k s)"
proof (cases "k \<in> set (wk_running s) \<or> k \<in> fst ` set (wk_waiting s)")
  case False
  then show ?thesis using assms by (simp add: end_task_def)
next
  case True
  let ?s = "end_task now k s"
  have s: "wk_queue ?s = wk_queue s" "wk_waiting ?s = AList.delete k (wk_waiting s)"
    "wk_running ?s = remove1 k (wk_running s)" "wk_free ?s = wk_free s + 1" "wk_stop ?s = wk_stop s"
    "wk_count ?s = wk_count s" "wk_registry ?s = remove_deadline now k (wk_registry s)"
    using True by (simp_all add: end_task_def)
  have d: "distinct (map fst (wk_waiting s))" "distinct (wk_running s)"
    "set (map fst (wk_waiting s)) \<inter> set (wk_running s) = {}"
    using assms by (auto simp: worker_ok_def)
  have len: "length (AList.delete k (wk_waiting s)) + length (remove1 k (wk_running s)) + 1 =
      length (wk_waiting s) + length (wk_running s)"
  proof (cases "k \<in> set (wk_running s)")
    case r: True
    then have "k \<notin> fst ` set (wk_waiting s)" using d(3) by auto
    then have "AList.delete k (wk_waiting s) = wk_waiting s" by (rule AList.delete_id)
    moreover have "0 < length (wk_running s)" using r by (cases "wk_running s") simp_all
    ultimately show ?thesis using r by (simp add: length_remove1)
  next
    case False
    then show ?thesis using True alist_delete_length [OF d(1), of k] by (simp add: remove1_idem)
  qed
  have dl: "fst ` set (dr_deadlines (wk_registry ?s)) \<subseteq> set (wk_running ?s)"
    using assms d(2) by (auto simp: s remove_deadline_def worker_ok_def alist_delete_keys)
  have dist: "distinct (map fst (wk_queue ?s) @ map fst (wk_waiting ?s) @ wk_running ?s)"
    using assms alist_delete_keys [where k = k and xs = "wk_waiting s"] d(2) unfolding s worker_ok_def
    by (auto simp: distinct_append)
  show ?thesis unfolding worker_ok_def
    using len dl dist assms by (auto simp: s worker_ok_def remove_deadline_def publish_ok)
qed

lemma guard_ok:
  assumes "worker_ok recycle n s"
  shows "worker_ok recycle n (guard_pass (1/2) s)"
proof (cases "0 < dr_timer (wk_registry s)")
  case True
  let ?r = "wk_registry s"
  have neg: "dr_timer ?r \<noteq> timer_recycle" "dr_timer ?r \<noteq> timer_idle"
    using True by (auto simp: timer_recycle_def timer_idle_def)
  then have half: "dr_deadlines ?r \<noteq> []" "dr_timer ?r * 2 \<in> range of_int"
    using assms by (auto simp: worker_ok_def timer_ok_def)
  then obtain m where m: "dr_timer ?r * 2 = of_int m" by blast
  then have "1 \<le> m" using True by linarith
  then have "1 \<le> dr_timer ?r * 2" using m by simp
  moreover have "(dr_timer ?r - 1/2) * 2 = of_int (m - 1)" using m by (simp add: algebra_simps)
  then have "(dr_timer ?r - 1/2) * 2 \<in> range of_int" by blast
  ultimately have "timer_ok (?r\<lparr>dr_timer := dr_timer ?r - 1/2\<rparr>)" using half(1) by (simp add: timer_ok_def)
  then show ?thesis using assms True neg(1) by (auto simp: worker_ok_def guard_pass_def)
qed (use assms in \<open>simp add: guard_pass_def\<close>)

lemma leave_ok:
  assumes "worker_ok recycle n s" "leave_worker s = Some s'"
  shows "worker_ok recycle n s'"
proof -
  have s: "wk_running s = []" "wk_stop s" "s' = s\<lparr>wk_exit := True, wk_registry := (if 0 < dr_timer (wk_registry s)
      then (wk_registry s)\<lparr>dr_timer := timer_idle\<rparr> else wk_registry s)\<rparr>"
    using assms(2) by (auto simp: leave_worker_def split: if_splits)
  then have "dr_deadlines (wk_registry s) = []" using assms(1) by (simp add: worker_ok_def)
  then show ?thesis using assms(1) s(2)
    by (cases "0 < dr_timer (wk_registry s)")
      (simp_all add: s(3) worker_ok_def timer_ok_def timer_idle_def timer_recycle_def)
qed

lemma worker_step_ok:
  assumes "worker_step recycle timeout s s'" "worker_ok recycle n s"
  shows "worker_ok recycle n s'"
  using assms(1)
proof (cases rule: worker_step.cases)
  case step_take then show ?thesis using take_ok assms(2) by blast
next
  case step_pill then show ?thesis using assms(2) by (simp add: poison_pill_def worker_ok_def)
next
  case step_arm then show ?thesis using arm_ok assms(2) by simp
next
  case step_end then show ?thesis using end_ok assms(2) by simp
next
  case step_leave then show ?thesis using leave_ok assms(2) by blast
next
  case step_abandon then show ?thesis using assms(2) by (cases "wk_stop s") (simp_all add: abandon_worker_def worker_ok_def)
next
  case step_guard then show ?thesis using guard_ok assms(2) by simp
qed

interpretation workers: step_invariant "worker_step recycle timeout" "worker_ok recycle n" for recycle timeout n
  by unfold_locales (rule worker_step_ok)

lemma new_worker_ok: "distinct (map fst q) \<Longrightarrow> 0 < recycle \<Longrightarrow> worker_ok recycle n (new_worker n q)"
  by (simp add: worker_ok_def new_worker_def timer_ok_def)

text \<open>
  C70: a worker never holds more than its share. In every reachable state of a threaded worker the
  tasks it has taken and not finished are at most \<open>max_inflight\<close>, whatever the order in which its
  threads start, fail and end.
\<close>

theorem inflight_bounded:
  assumes "run_steps (worker_step recycle timeout) (new_worker n q) s" "distinct (map fst q)" "0 < recycle"
  shows "length (wk_waiting s) + length (wk_running s) \<le> n"
  using workers.run_keeps [OF assms(1) new_worker_ok [OF assms(2,3)]] by (simp add: worker_ok_def)

text \<open>
  The sentinel always watches. In every reachable state in which some running task has a
  deadline, the shared timer counts down to it or orders the recycling of the worker: it never reads
  idle, although tasks that end and the guard write it concurrently.
\<close>

theorem armed_deadline_watched:
  assumes "run_steps (worker_step recycle timeout) (new_worker n q) s" "distinct (map fst q)" "0 < recycle"
    and "dr_deadlines (wk_registry s) \<noteq> []"
  shows "dr_timer (wk_registry s) = timer_recycle \<or> 0 \<le> dr_timer (wk_registry s)"
  using workers.run_keeps [OF assms(1) new_worker_ok [OF assms(2,3)]] assms(4)
  by (auto simp: worker_ok_def timer_ok_def)

text \<open>\<open>passes k s\<close>: the worker after \<open>k\<close> passes of the guard, half a second each.\<close>

definition passes :: "nat \<Rightarrow> worker \<Rightarrow> worker" where
  "passes k s = (guard_pass (1/2) ^^ k) s"

lemma passes_timer:
  assumes "dr_timer (wk_registry s) = of_nat n" "k \<le> 2 * n"
  shows "dr_timer (wk_registry (passes k s)) = of_nat n - of_nat k / 2"
  using assms(2)
proof (induction k)
  case 0
  then show ?case using assms(1) by (simp add: passes_def)
next
  case (Suc k)
  have IH: "dr_timer (wk_registry (passes k s)) = of_nat n - of_nat k / 2" using Suc by simp
  have "rat_of_nat (Suc k) \<le> of_nat (2 * n)" using Suc.prems by (simp only: of_nat_le_iff)
  then have "0 < rat_of_nat n - of_nat k / 2" by (simp add: field_simps)
  then show ?case using IH by (simp add: passes_def guard_pass_def add_divide_distrib)
qed


text \<open>A worker of two permits, three tasks, the first with a deadline of its own.\<close>

definition busy_worker :: worker where
  "busy_worker = arm_task 0 10 1 (the (take_task 5 (the (take_task 5
     (new_worker 2 [(1, Some 5), (2, None), (3, None)])))))"

lemma busy_worker_run:
  "run_steps (worker_step 5 0) (new_worker 2 [(1, Some 5), (2, None), (3, None)]) busy_worker"
proof -
  let ?w0 = "new_worker 2 [(1, Some 5), (2, None), (3, None)]"
  let ?w1 = "the (take_task 5 ?w0)" and ?w2 = "the (take_task 5 (the (take_task 5 ?w0)))"
  have "take_task 5 ?w0 \<noteq> None" "take_task 5 ?w1 \<noteq> None" by code_simp+
  then have t: "take_task 5 ?w0 = Some ?w1" "take_task 5 ?w1 = Some ?w2" by simp_all
  show ?thesis unfolding busy_worker_def
    by (rule run_step [OF run_step [OF run_step [OF run_refl [of "worker_step 5 0" ?w0] step_take [OF t(1)]]
        step_take [OF t(2)]] step_arm])
qed

theorem inflight_bounded_witness:
  "length (wk_waiting busy_worker) + length (wk_running busy_worker) = 2 \<and> take_task 5 busy_worker = None"
proof -
  have "length (wk_waiting busy_worker) + length (wk_running busy_worker) \<le> 2"
    by (rule inflight_bounded [OF busy_worker_run]) simp_all
  moreover have "2 \<le> length (wk_waiting busy_worker) + length (wk_running busy_worker)" by code_simp
  moreover have "wk_free busy_worker = 0" by code_simp
  then have "take_task 5 busy_worker = None" by (simp add: take_task_def split: list.splits)
  ultimately show ?thesis by simp
qed

theorem armed_deadline_watched_witness: "dr_timer (wk_registry busy_worker) = 8"
proof -
  have "dr_deadlines (wk_registry busy_worker) \<noteq> []" by code_simp
  then have "dr_timer (wk_registry busy_worker) = timer_recycle \<or> 0 \<le> dr_timer (wk_registry busy_worker)"
    by (intro armed_deadline_watched [OF busy_worker_run]) simp_all
  then show ?thesis by code_simp
qed


end
