(* ===== verification/Qraft_Routing.thy ===== *)
theory Qraft_Routing
  imports Qraft_Broker
begin

text \<open>
  Which broker object an enqueue gets (\<^verbatim>\<open>qraft/brokers.py\<close>): the classes pinned to a
  database, the construction under another cluster's \<^verbatim>\<open>Conf\<close>, the cache, and the
  broker that routes every call to the broker of its cluster.
  \<^item> \<open>brokers\<close> is what one process holds: its pid, the cache, the generated classes, the names of the
    module, \<^verbatim>\<open>Conf\<close>. A fork copies it under another pid.
  \<^item> Importing a class, the subclass test and the constructor of a broker are code of Django-Q2 or of the
    application: the parameters of \<open>broker_lib\<close>. A constructor may change \<^verbatim>\<open>Conf\<close> and may raise.
  \<^item> \<open>env\<close> is what other threads do between the look into the cache and the lock.
\<close>

record broker_lib =
  bl_resolve :: "pyval \<Rightarrow> broker_class option"
  bl_is_orm :: "broker_class \<Rightarrow> bool"
  bl_name :: "broker_class \<Rightarrow> string"
  bl_construct :: "broker_class \<Rightarrow> string \<Rightarrow> dict \<Rightarrow> err option \<times> dict"
  bl_receipts :: "broker_class \<Rightarrow> bool"

text \<open>\<open>bo_pin\<close>: the generated class of an ORM broker with its database alias.\<close>

record broker_obj =
  bo_class :: broker_class
  bo_pin :: "(string \<times> string option) option"
  bo_key :: string
  bo_pid :: nat
  bo_conf :: dict

type_synonym cache_key = "nat \<times> string \<times> string"

record brokers =
  bk_pid :: nat
  bk_cache :: "(cache_key \<times> broker_obj) list"
  bk_pinned :: "((broker_class \<times> string option) \<times> string) list"
  bk_names :: "string list"
  bk_conf :: dict

definition reset_broker_cache :: "brokers \<Rightarrow> brokers" where
  "reset_broker_cache st = st\<lparr>bk_cache := []\<rparr>"

section \<open>Classes pinned to a database\<close>

definition is_letter :: "char \<Rightarrow> bool" where
  "is_letter c \<longleftrightarrow> (65 \<le> code c \<and> code c \<le> 90) \<or> (97 \<le> code c \<and> code c \<le> 122)"

definition upper :: "char \<Rightarrow> char" where
  "upper c = (if 97 \<le> code c \<and> code c \<le> 122 then char_of (code c - 32) else c)"

text \<open>\<^verbatim>\<open>str.title()\<close> on ASCII text.\<close>

fun title_from :: "bool \<Rightarrow> string \<Rightarrow> string" where
  "title_from up [] = []"
| "title_from up (c # s) =
     (if is_letter c then (if up then upper c else lower c) # title_from False s else c # title_from True s)"

definition class_stem :: "string \<Rightarrow> string option \<Rightarrow> string" where
  "class_stem base alias =
     base @ ''On'' @ title_from True (map (\<lambda>c. if c = CHR ''-'' then CHR ''_'' else c)
       (case alias of Some a \<Rightarrow> if a = [] then ''default'' else a | None \<Rightarrow> ''default''))"

lemma finite_taken: "finite {m. stem @ show_nat m \<in> set names}"
proof (rule finite_imageD)
  show "finite ((\<lambda>m. stem @ show_nat m) ` {m. stem @ show_nat m \<in> set names})"
    by (rule finite_subset [OF _ finite_set [of names]]) auto
  show "inj_on (\<lambda>m. stem @ show_nat m) {m. stem @ show_nat m \<in> set names}"
  proof (rule inj_onI)
    fix m n
    assume "stem @ show_nat m = stem @ show_nat n"
    then have "read_nat (show_nat m) = read_nat (show_nat n)" by simp
    then show "m = n" by simp
  qed
qed

text \<open>The first number that makes the name a new one of the module.\<close>

function free_name :: "string \<Rightarrow> nat \<Rightarrow> string list \<Rightarrow> string" where
  "free_name stem n names =
     (if stem @ show_nat n \<in> set names then free_name stem (n + 1) names else stem @ show_nat n)"
  by pat_completeness auto

termination
proof (relation "measure (\<lambda>(stem, n, names). card {m. n \<le> m \<and> stem @ show_nat m \<in> set names})")
  fix stem n names
  assume taken: "stem @ show_nat n \<in> set names"
  have fin: "finite {m. n \<le> m \<and> stem @ show_nat m \<in> set names}"
    by (rule finite_subset [OF _ finite_taken [of stem names]]) auto
  have "{m. n + 1 \<le> m \<and> stem @ show_nat m \<in> set names} \<subset> {m. n \<le> m \<and> stem @ show_nat m \<in> set names}"
    using taken by (intro psubsetI subsetI) (auto simp: set_eq_iff intro: exI [of _ n])
  from psubset_card_mono [OF fin this]
  show "((stem, n + 1, names), (stem, n, names)) \<in> measure (\<lambda>(stem, n, names). card {m. n \<le> m \<and> stem @ show_nat m \<in> set names})"
    by simp
qed simp

declare free_name.simps [simp del]

definition pinned_name :: "string \<Rightarrow> string list \<Rightarrow> string" where
  "pinned_name stem names = (if stem \<in> set names then free_name stem 2 names else stem)"

definition orm_class_pinned_to :: "broker_lib \<Rightarrow> broker_class \<Rightarrow> string option \<Rightarrow> brokers \<Rightarrow> string \<times> brokers" where
  "orm_class_pinned_to lib base alias st =
     (case map_of (bk_pinned st) (base, alias) of
        Some n \<Rightarrow> (n, st)
      | None \<Rightarrow>
          (let n = pinned_name (class_stem (bl_name lib base) alias) (bk_names st) in
           (n, st\<lparr>bk_names := n # bk_names st, bk_pinned := ((base, alias), n) # bk_pinned st\<rparr>)))"

section \<open>Building a broker under another cluster's settings\<close>

definition conf_broker_keys :: "(string \<times> string \<times> pyval) list" where
  "conf_broker_keys =
     [(''BROKER_CLASS'', ''broker_class'', PNone), (''ORM'', ''orm'', PNone), (''REDIS'', ''redis'', PDict []),
      (''DJANGO_REDIS'', ''django_redis'', PNone), (''SQS'', ''sqs'', PNone), (''MONGO'', ''mongo'', PNone),
      (''MONGO_DB'', ''mongo_db'', PNone), (''IRON_MQ'', ''iron_mq'', PNone)]"

definition value_or :: "pyval \<Rightarrow> string \<Rightarrow> dict \<Rightarrow> pyval" where
  "value_or dflt k d = (case dict_get d k of Some v \<Rightarrow> v | None \<Rightarrow> dflt)"

definition cluster_broker_config :: "world \<Rightarrow> string \<Rightarrow> dict" where
  "cluster_broker_config w cluster = merge_alt_cluster (w_q_cluster w) (Some cluster)"

definition orm_alias :: "dict \<Rightarrow> string option" where
  "orm_alias config = (case dict_get config ''orm'' of Some (PStr s) \<Rightarrow> Some s | _ \<Rightarrow> None)"

definition patch_conf :: "dict \<Rightarrow> dict \<Rightarrow> dict" where
  "patch_conf config conf = fold (\<lambda>(a, key, dflt). dict_set a (value_or dflt key config)) conf_broker_keys conf"

definition restore_conf :: "dict \<Rightarrow> dict \<Rightarrow> dict" where
  "restore_conf before conf = fold (\<lambda>(a, key, dflt). dict_set a (value_or dflt a before)) conf_broker_keys conf"

definition build_broker :: "broker_lib \<Rightarrow> dict \<Rightarrow> string \<Rightarrow> brokers \<Rightarrow> broker_obj res \<times> brokers" where
  "build_broker lib config list_key st =
     (let cls = broker_class_for_config (bl_resolve lib) config;
          (pin, st) = (if bl_is_orm lib cls
            then (let (n, st) = orm_class_pinned_to lib cls (orm_alias config) st in (Some (n, orm_alias config), st))
            else (None, st));
          patched = patch_conf config (bk_conf st);
          (e, conf) = bl_construct lib cls list_key patched;
          st = st\<lparr>bk_conf := restore_conf (bk_conf st) conf\<rparr> in
      case e of
        Some e \<Rightarrow> (Inl e, st)
      | None \<Rightarrow> (Inr \<lparr>bo_class = cls, bo_pin = pin, bo_key = list_key, bo_pid = bk_pid st, bo_conf = patched\<rparr>, st))"

section \<open>The cache\<close>

definition broker_for_cluster ::
  "broker_lib \<Rightarrow> world \<Rightarrow> (brokers \<Rightarrow> brokers) \<Rightarrow> string option \<Rightarrow> priority option \<Rightarrow> brokers \<Rightarrow>
   broker_obj res \<times> brokers" where
  "broker_for_cluster lib w env cluster prio st =
     (let list_key = broker_list_key w cluster prio; name = cluster_or_own w cluster;
          key = (bk_pid st, name, list_key) in
      case map_of (bk_cache st) key of
        Some b \<Rightarrow> (Inr b, st)
      | None \<Rightarrow>
          (let st = env st in
           case map_of (bk_cache st) key of
             Some b \<Rightarrow> (Inr b, st)
           | None \<Rightarrow>
               (case build_broker lib (cluster_broker_config w name) list_key st of
                  (Inl e, st) \<Rightarrow> (Inl e, st)
                | (Inr b, st) \<Rightarrow> (Inr b, st\<lparr>bk_cache := (key, b) # bk_cache st\<rparr>))))"

section \<open>The routing broker\<close>

text \<open>\<open>Router k\<close> is a \<^verbatim>\<open>RoutingBroker\<close> with list key \<open>k\<close>.\<close>

datatype delivery = Router string | Concrete broker_obj

definition new_routing_broker :: "world \<Rightarrow> string option \<Rightarrow> delivery" where
  "new_routing_broker w list_key = Router (cluster_or_own w list_key)"

definition routing_target ::
  "broker_lib \<Rightarrow> world \<Rightarrow> (brokers \<Rightarrow> brokers) \<Rightarrow> string \<Rightarrow> brokers \<Rightarrow> broker_obj res \<times> brokers" where
  "routing_target lib w env list_key st = broker_for_cluster lib w env (Some list_key) None st"

text \<open>Every operation is the target's; \<open>oper\<close> is that operation of a concrete broker.\<close>

definition forwarded ::
  "broker_lib \<Rightarrow> world \<Rightarrow> (brokers \<Rightarrow> brokers) \<Rightarrow> (broker_obj \<Rightarrow> 'a res) \<Rightarrow> delivery \<Rightarrow> brokers \<Rightarrow>
   'a res \<times> brokers" where
  "forwarded lib w env oper b st =
     (case b of
        Concrete b \<Rightarrow> (oper b, st)
      | Router k \<Rightarrow> (case routing_target lib w env k st of (r, st) \<Rightarrow> (rbind r oper, st)))"

definition delivering_broker ::
  "broker_lib \<Rightarrow> world \<Rightarrow> (brokers \<Rightarrow> brokers) \<Rightarrow> delivery option \<Rightarrow> delivery \<Rightarrow> brokers \<Rightarrow>
   broker_obj res \<times> brokers" where
  "delivering_broker lib w env b own st = forwarded lib w env Inr (case b of Some b \<Rightarrow> b | None \<Rightarrow> own) st"

text \<open>\<^verbatim>\<open>_broker_supports_receipts\<close> of \<^verbatim>\<open>qraft/cluster.py\<close>.\<close>

definition broker_supports_receipts ::
  "broker_lib \<Rightarrow> world \<Rightarrow> (brokers \<Rightarrow> brokers) \<Rightarrow> delivery \<Rightarrow> brokers \<Rightarrow> bool res \<times> brokers" where
  "broker_supports_receipts lib w env b st =
     (case delivering_broker lib w env (Some b) b st of
        (r, st) \<Rightarrow> (rbind r (\<lambda>b. Inr (bl_receipts lib (bo_class b))), st))"

section \<open>Every broker is its cluster's own\<close>

lemma free_name_new: "free_name stem n names \<notin> set names"
  by (induction stem n names rule: free_name.induct) (subst free_name.simps, simp)

lemma pinned_name_new: "pinned_name stem names \<notin> set names"
  by (simp add: pinned_name_def free_name_new)

lemma dict_get_patch:
  "(a, key, dflt) \<in> set conf_broker_keys \<Longrightarrow> dict_get (patch_conf config conf) a = Some (value_or dflt key config)"
  by (auto simp: patch_conf_def conf_broker_keys_def)

lemma value_or_restore:
  "(a, key, dflt) \<in> set conf_broker_keys \<Longrightarrow> value_or dflt a (restore_conf before conf) = value_or dflt a before"
  by (auto simp: restore_conf_def conf_broker_keys_def value_or_def [of _ _ "dict_set _ _ _"])

definition own_broker :: "broker_lib \<Rightarrow> dict \<Rightarrow> nat \<Rightarrow> string \<Rightarrow> broker_obj \<Rightarrow> bool" where
  "own_broker lib config pid k b \<longleftrightarrow> bo_pid b = pid \<and> bo_key b = k \<and>
     bo_class b = broker_class_for_config (bl_resolve lib) config \<and>
     (\<forall>(a, key, dflt) \<in> set conf_broker_keys. dict_get (bo_conf b) a = Some (value_or dflt key config)) \<and>
     map_option snd (bo_pin b) = (if bl_is_orm lib (bo_class b) then Some (orm_alias config) else None)"

text \<open>Generated classes: one name each, all of them names of the module.\<close>

definition pinned_ok :: "brokers \<Rightarrow> bool" where
  "pinned_ok st \<longleftrightarrow> distinct (map fst (bk_pinned st)) \<and> distinct (map snd (bk_pinned st)) \<and>
     snd ` set (bk_pinned st) \<subseteq> set (bk_names st)"

text \<open>An ORM broker in the cache is of the class generated for its base class and alias.\<close>

definition pin_known :: "brokers \<Rightarrow> broker_obj \<Rightarrow> bool" where
  "pin_known st b \<longleftrightarrow> (\<forall>n alias. bo_pin b = Some (n, alias) \<longrightarrow> ((bo_class b, alias), n) \<in> set (bk_pinned st))"

definition routing_ok :: "broker_lib \<Rightarrow> world \<Rightarrow> brokers \<Rightarrow> bool" where
  "routing_ok lib w st \<longleftrightarrow> pinned_ok st \<and>
     (\<forall>e \<in> set (bk_cache st). case e of ((pid, c, k), b) \<Rightarrow>
        own_broker lib (cluster_broker_config w c) pid k b \<and> pin_known st b)"

lemma pinned_to_ok:
  assumes "orm_class_pinned_to lib base alias st = (n, st')" "pinned_ok st"
  shows "pinned_ok st'" "((base, alias), n) \<in> set (bk_pinned st')" "set (bk_pinned st) \<subseteq> set (bk_pinned st')"
    "bk_cache st' = bk_cache st" "bk_pid st' = bk_pid st" "bk_conf st' = bk_conf st"
proof -
  have "pinned_ok st' \<and> ((base, alias), n) \<in> set (bk_pinned st') \<and> set (bk_pinned st) \<subseteq> set (bk_pinned st') \<and>
      bk_cache st' = bk_cache st \<and> bk_pid st' = bk_pid st \<and> bk_conf st' = bk_conf st"
  proof (cases "map_of (bk_pinned st) (base, alias)")
    case None
    define m where "m = pinned_name (class_stem (bl_name lib base) alias) (bk_names st)"
    have new: "m \<notin> set (bk_names st)" unfolding m_def by (rule pinned_name_new)
    have "(base, alias) \<notin> fst ` set (bk_pinned st)" using None by (simp add: map_of_eq_None_iff)
    moreover have "m \<notin> snd ` set (bk_pinned st)" using new assms(2) by (auto simp: pinned_ok_def)
    moreover have "n = m" "st' = st\<lparr>bk_names := m # bk_names st, bk_pinned := ((base, alias), m) # bk_pinned st\<rparr>"
      using assms(1) None by (auto simp: orm_class_pinned_to_def Let_def m_def)
    ultimately show ?thesis using assms(2) by (simp add: pinned_ok_def subset_insertI2 subset_insertI)
  next
    case (Some x)
    then show ?thesis using assms map_of_SomeD [OF Some] by (auto simp: orm_class_pinned_to_def)
  qed
  then show "pinned_ok st'" "((base, alias), n) \<in> set (bk_pinned st')" "set (bk_pinned st) \<subseteq> set (bk_pinned st')"
    "bk_cache st' = bk_cache st" "bk_pid st' = bk_pid st" "bk_conf st' = bk_conf st" by blast+
qed

lemma pinned_to_conf: "bk_conf (snd (orm_class_pinned_to lib base alias st)) = bk_conf st"
  by (simp add: orm_class_pinned_to_def Let_def split: option.splits)

lemma build_broker_conf:
  assumes "build_broker lib config k st = (r, st')" "(a, key, dflt) \<in> set conf_broker_keys"
  shows "value_or dflt a (bk_conf st') = value_or dflt a (bk_conf st)"
  using assms value_or_restore [OF assms(2)]
  by (auto simp: build_broker_def Let_def split_def pinned_to_conf split: option.splits if_splits)

lemma build_broker_ok:
  assumes "build_broker lib config k st = (r, st')" "pinned_ok st"
  shows "pinned_ok st'" "set (bk_pinned st) \<subseteq> set (bk_pinned st')" "bk_cache st' = bk_cache st"
    "bk_pid st' = bk_pid st"
    "r = Inr b \<Longrightarrow> own_broker lib config (bk_pid st) k b \<and> pin_known st' b"
proof -
  define cls where "cls = broker_class_for_config (bl_resolve lib) config"
  obtain pin e where e: "(if bl_is_orm lib cls
      then (let (n, st) = orm_class_pinned_to lib cls (orm_alias config) st in (Some (n, orm_alias config), st))
      else (None, st)) = (pin, e)" by fastforce
  have pe: "pinned_ok e" "set (bk_pinned st) \<subseteq> set (bk_pinned e)" "bk_cache e = bk_cache st"
    "bk_pid e = bk_pid st" "bk_conf e = bk_conf st"
    "map_option snd pin = (if bl_is_orm lib cls then Some (orm_alias config) else None)"
    "pin = Some (n, al) \<Longrightarrow> ((cls, al), n) \<in> set (bk_pinned e)" for n al
    using e pinned_to_ok [of lib cls "orm_alias config" st, OF prod.collapse [symmetric] assms(2)] assms(2)
    by (auto simp: Let_def split_def split: if_splits)
  obtain x conf where x: "bl_construct lib cls k (patch_conf config (bk_conf e)) = (x, conf)" by fastforce
  define f where "f = e\<lparr>bk_conf := restore_conf (bk_conf e) conf\<rparr>"
  have r: "st' = f" "r = (case x of Some x \<Rightarrow> Inl x
     | None \<Rightarrow> Inr \<lparr>bo_class = cls, bo_pin = pin, bo_key = k, bo_pid = bk_pid f, bo_conf = patch_conf config (bk_conf e)\<rparr>)"
    using assms(1) by (auto simp: build_broker_def cls_def [symmetric] e x Let_def f_def split: option.splits)
  show "pinned_ok st'" "set (bk_pinned st) \<subseteq> set (bk_pinned st')" "bk_cache st' = bk_cache st" "bk_pid st' = bk_pid st"
    using pe by (simp_all add: r(1) f_def pinned_ok_def)
  show "own_broker lib config (bk_pid st) k b \<and> pin_known st' b" if "r = Inr b"
    using that pe(4,6,7) dict_get_patch
    by (auto simp: r f_def own_broker_def pin_known_def cls_def split: option.splits)
qed

lemma routing_ok_mono:
  assumes "routing_ok lib w st" "pinned_ok st'" "set (bk_pinned st) \<subseteq> set (bk_pinned st')" "bk_cache st' = bk_cache st"
  shows "routing_ok lib w st'"
  using assms unfolding routing_ok_def pin_known_def by (fastforce split: prod.splits)

lemma broker_for_cluster_ok:
  assumes "broker_for_cluster lib w env cluster prio st = (r, st')"
    and "routing_ok lib w st" "routing_ok lib w (env st)" "bk_pid (env st) = bk_pid st"
  shows "routing_ok lib w st'" "bk_pid st' = bk_pid st"
    and "r = Inr b \<Longrightarrow>
      own_broker lib (cluster_broker_config w (cluster_or_own w cluster)) (bk_pid st) (broker_list_key w cluster prio) b \<and>
      pin_known st' b \<and>
      map_of (bk_cache st') (bk_pid st, cluster_or_own w cluster, broker_list_key w cluster prio) = Some b"
proof -
  let ?name = "cluster_or_own w cluster" and ?lk = "broker_list_key w cluster prio"
  let ?key = "(bk_pid st, ?name, ?lk)" and ?cfg = "cluster_broker_config w (cluster_or_own w cluster)"
  have hit: "own_broker lib ?cfg (bk_pid st) ?lk x \<and> pin_known s x"
    if "map_of (bk_cache s) ?key = Some x" "routing_ok lib w s" for s x
    using that map_of_SomeD [OF that(1)] by (fastforce simp: routing_ok_def)
  have "routing_ok lib w st' \<and> bk_pid st' = bk_pid st \<and>
    (r = Inr b \<longrightarrow> own_broker lib ?cfg (bk_pid st) ?lk b \<and> pin_known st' b \<and> map_of (bk_cache st') ?key = Some b)"
  proof (cases "map_of (bk_cache st) ?key")
    case (Some x)
    then show ?thesis using assms hit [OF Some assms(2)] by (auto simp: broker_for_cluster_def Let_def)
  next
    case miss: None
    show ?thesis
    proof (cases "map_of (bk_cache (env st)) ?key")
      case (Some x)
      then show ?thesis using assms miss hit [OF Some assms(3)] by (auto simp: broker_for_cluster_def Let_def)
    next
      case None
      obtain q e where q: "build_broker lib ?cfg ?lk (env st) = (q, e)" by fastforce
      have pe: "pinned_ok (env st)" using assms(3) by (simp add: routing_ok_def)
      note bb = build_broker_ok [OF q pe]
      have ok: "routing_ok lib w e" by (rule routing_ok_mono [OF assms(3) bb(1-3)])
      show ?thesis
      proof (cases q)
        case (Inl x)
        then show ?thesis using assms(1,4) miss None q ok bb(4) by (auto simp: broker_for_cluster_def Let_def)
      next
        case (Inr x)
        have st: "r = Inr x" "st' = e\<lparr>bk_cache := (?key, x) # bk_cache e\<rparr>"
          using assms(1) miss None q Inr by (auto simp: broker_for_cluster_def Let_def)
        have x: "own_broker lib ?cfg (bk_pid st) ?lk x" "pin_known e x" using bb(5) [OF Inr] assms(4) by simp_all
        have "routing_ok lib w st'" using ok x by (auto simp: st(2) routing_ok_def pinned_ok_def pin_known_def)
        then show ?thesis using x st bb(4) assms(4) by (auto simp: pin_known_def)
      qed
    qed
  qed
  then show "routing_ok lib w st'" "bk_pid st' = bk_pid st"
    and "r = Inr b \<Longrightarrow> own_broker lib ?cfg (bk_pid st) ?lk b \<and> pin_known st' b \<and> map_of (bk_cache st') ?key = Some b"
    by blast+
qed

text \<open>
  What a process family can do: look brokers up, on any number of threads, fork, change
  \<^verbatim>\<open>Conf\<close>, and reload its settings, which forgets the cache.
\<close>

inductive routing_run :: "broker_lib \<Rightarrow> world \<Rightarrow> brokers \<Rightarrow> bool" for lib where
  run_start: "bk_cache st = [] \<Longrightarrow> bk_pinned st = [] \<Longrightarrow> routing_run lib w st"
| run_lookup: "routing_run lib w st \<Longrightarrow> routing_run lib w (env st) \<Longrightarrow> bk_pid (env st) = bk_pid st \<Longrightarrow>
    broker_for_cluster lib w env cluster prio st = (r, st') \<Longrightarrow> routing_run lib w st'"
| run_fork: "routing_run lib w st \<Longrightarrow> routing_run lib w (st\<lparr>bk_pid := p\<rparr>)"
| run_conf: "routing_run lib w st \<Longrightarrow> routing_run lib w (st\<lparr>bk_conf := c\<rparr>)"
| run_settings: "routing_run lib w st \<Longrightarrow> routing_run lib w' (reset_broker_cache st)"

lemma routing_run_ok: "routing_run lib w st \<Longrightarrow> routing_ok lib w st"
proof (induction rule: routing_run.induct)
  case (run_start st w)
  then show ?case by (simp add: routing_ok_def pinned_ok_def)
next
  case (run_lookup w st env cluster prio r st')
  show ?case by (rule broker_for_cluster_ok(1) [OF run_lookup(4) run_lookup.IH run_lookup(3)])
next
  case (run_settings w st w')
  then show ?case by (simp add: routing_ok_def pinned_ok_def reset_broker_cache_def)
qed (simp_all add: routing_ok_def pinned_ok_def pin_known_def)

text \<open>
  C35: an enqueue uses a broker of its own. In every state a family of processes reaches, the broker
  that a lookup returns was built in the asking process, under the settings of the cluster the task
  is routed to and for the lane of its priority, is never the routing broker, and is the one that
  every later lookup of that process for that lane gets.
\<close>

theorem broker_is_own:
  assumes "routing_run lib w st" "routing_run lib w (env st)" "bk_pid (env st) = bk_pid st"
    and "broker_for_cluster lib w env cluster prio st = (Inr b, st')"
  shows "own_broker lib (cluster_broker_config w (cluster_or_own w cluster)) (bk_pid st)
       (broker_list_key w cluster prio) b \<and>
     bo_class b \<noteq> Routing \<and> broker_for_cluster lib w env' cluster prio st' = (Inr b, st')"
proof -
  note ok = broker_for_cluster_ok [OF assms(4) routing_run_ok [OF assms(1)] routing_run_ok [OF assms(2)] assms(3)]
  have own: "own_broker lib (cluster_broker_config w (cluster_or_own w cluster)) (bk_pid st) (broker_list_key w cluster prio) b"
    using ok(3) by blast
  moreover have "bo_class b \<noteq> Routing" using own no_routing_recursion by (simp add: own_broker_def)
  moreover have "broker_for_cluster lib w env' cluster prio st' = (Inr b, st')"
    using ok(2,3) by (simp add: broker_for_cluster_def Let_def)
  ultimately show ?thesis by blast
qed

text \<open>
  C36: borrowing \<^verbatim>\<open>Conf\<close> leaves no trace. Whatever the constructor of a broker does to
  the settings it was lent, and also when it raises, every broker setting reads afterwards as it did
  before.
\<close>

theorem conf_is_restored:
  assumes "build_broker lib config k st = (r, st')" "(a, key, dflt) \<in> set conf_broker_keys"
  shows "value_or dflt a (bk_conf st') = value_or dflt a (bk_conf st)"
  by (rule build_broker_conf [OF assms])

section \<open>Concrete inputs\<close>

text \<open>
  A Redis process that enqueues for the cluster \<^verbatim>\<open>revenue\<close>, which runs the ORM broker.
  Its constructor fills in a database name, as the one of MongoDB does.
\<close>

definition demo_lib :: broker_lib where
  "demo_lib = \<lparr>bl_resolve = (\<lambda>_. Some Routing), bl_is_orm = (\<lambda>c. c = OrmB),
     bl_name = (\<lambda>c. if c = OrmB then ''ORM'' else ''Redis''),
     bl_construct = (\<lambda>c k conf. (if k = [] then Some BrokerError else None, dict_set ''MONGO_DB'' (PStr ''django-q'') conf)),
     bl_receipts = (\<lambda>c. c = OrmB)\<rparr>"

definition routing_world :: world where
  "routing_world = demo_world\<lparr>w_q_cluster := [(''broker_class'', PStr ''qraft.brokers.RoutingBroker''),
     (''ALT_CLUSTERS'', PDict [(''revenue'', PDict [(''orm'', PStr ''queue-db'')])])]\<rparr>"

definition demo_brokers :: brokers where
  "demo_brokers = \<lparr>bk_pid = 7, bk_cache = [], bk_pinned = [], bk_names = [''ORM'', ''ORMOnQueue_Db''], bk_conf = []\<rparr>"

abbreviation demo_lookup :: "broker_obj res \<times> brokers" where
  "demo_lookup \<equiv> broker_for_cluster demo_lib routing_world id (Some ''revenue'') None demo_brokers"

lemma demo_lookup_value: "map_sum id (\<lambda>b. (bo_class b, bo_pin b)) (fst demo_lookup) =
    Inr (OrmB, Some (''ORMOnQueue_Db2'', Some ''queue-db''))"
  by code_simp

theorem broker_is_own_witness:
  "\<exists>b. fst demo_lookup = Inr b \<and> bo_class b = OrmB \<and> bo_pid b = 7 \<and> bo_key b = ''revenue'' \<and>
     broker_for_cluster demo_lib routing_world id (Some ''revenue'') None (snd demo_lookup) = (Inr b, snd demo_lookup)"
proof -
  have run: "routing_run demo_lib routing_world demo_brokers"
    by (rule run_start) (simp_all add: demo_brokers_def)
  obtain b where b: "fst demo_lookup = Inr b" "bo_class b = OrmB"
    using demo_lookup_value by (cases "fst demo_lookup") auto
  then have "demo_lookup = (Inr b, snd demo_lookup)" by (metis prod.collapse)
  from broker_is_own [OF run _ _ this, of id] run
  have "own_broker demo_lib (cluster_broker_config routing_world (cluster_or_own routing_world (Some ''revenue'')))
      (bk_pid demo_brokers) (broker_list_key routing_world (Some ''revenue'') None) b"
    "broker_for_cluster demo_lib routing_world id (Some ''revenue'') None (snd demo_lookup) = (Inr b, snd demo_lookup)"
    by simp_all
  moreover have "broker_list_key routing_world (Some ''revenue'') None = ''revenue''" "bk_pid demo_brokers = 7"
    by code_simp+
  ultimately show ?thesis using b by (auto simp: own_broker_def)
qed

theorem conf_is_restored_witness:
  "value_or PNone ''MONGO_DB'' (bk_conf (snd (build_broker demo_lib [] [] demo_brokers))) = PNone \<and>
   fst (build_broker demo_lib [] [] demo_brokers) = Inl BrokerError"
proof -
  have "(''MONGO_DB'', ''mongo_db'', PNone) \<in> set conf_broker_keys" by (simp add: conf_broker_keys_def)
  from conf_is_restored [OF prod.collapse [symmetric] this]
  have "value_or PNone ''MONGO_DB'' (bk_conf (snd (build_broker demo_lib [] [] demo_brokers))) =
      value_or PNone ''MONGO_DB'' (bk_conf demo_brokers)" .
  moreover have "fst (build_broker demo_lib [] [] demo_brokers) = Inl BrokerError" by code_simp
  ultimately show ?thesis by (simp add: demo_brokers_def value_or_def)
qed

end
