(* ===== verification/Qraft_Cluster.thy ===== *)
theory Qraft_Cluster
  imports Qraft_Settings Qraft_Handler Qraft_Retention Qraft_Worker Qraft_Routing
begin

text \<open>
  The processes of a cluster (\<^verbatim>\<open>qraft/cluster.py\<close>), the dispatcher's loop
  (\<^verbatim>\<open>dispatch_loop\<close> of \<^verbatim>\<open>qraft/scheduler.py\<close>) and the command that starts a
  cluster (\<^verbatim>\<open>qraft/management/commands/qraftcluster.py\<close>).
  \<^item> An endless loop is its pass: from the instant and the database at which it begins to how long it
    slept and the database it leaves. \<open>run_passes\<close> iterates it.
  \<^item> A process of the pool is the target it runs, with the arguments that matter to the worker.
  \<^item> The command is one process image: it fails, starts the cluster or replaces itself by another image
    with another environment; \<open>run_command\<close> follows the images.
  Starting processes, connections, logging and Django-Q2's sentinel loop are not modelled.
\<close>

section \<open>Background loops\<close>

definition error_backoff :: secs where
  "error_backoff = 5"

text \<open>
  \<^verbatim>\<open>_reap_loop\<close> and \<^verbatim>\<open>_retention_loop\<close>: sleep for the configured interval, then sweep; after
  an exception sleep again. The settings come first: without them there is no interval.
\<close>

definition sweep_pass ::
  "settings res \<Rightarrow> (settings \<Rightarrow> secs) \<Rightarrow> (settings \<Rightarrow> time \<Rightarrow> db \<Rightarrow> unit run) \<Rightarrow> time \<Rightarrow> db \<Rightarrow> secs \<times> db" where
  "sweep_pass conf interval sweep now d =
     (case conf of
        Inl e \<Rightarrow> (error_backoff, d)
      | Inr s \<Rightarrow> (case sweep s (now + interval s) d of
            (Inl e, d) \<Rightarrow> (interval s + error_backoff, d)
          | (Inr _, d) \<Rightarrow> (interval s, d)))"

definition reap_sweep ::
  "world \<Rightarrow> rat \<Rightarrow> string option \<Rightarrow> q2id list option \<Rightarrow> settings \<Rightarrow> time \<Rightarrow> db \<Rightarrow> unit run" where
  "reap_sweep w u trace queued s now d =
     (let w = configured s w in
      then_run (reap_orphans w u now trace None queued (snd (rearm_stuck_claims w now None d)))
        (\<lambda>reaped d. (Inr (), d)))"

definition reap_pass ::
  "world \<Rightarrow> rat \<Rightarrow> string option \<Rightarrow> q2id list option \<Rightarrow> settings res \<Rightarrow> time \<Rightarrow> db \<Rightarrow> secs \<times> db" where
  "reap_pass w u trace queued conf = sweep_pass conf qs_reap_interval (reap_sweep w u trace queued)"

definition retention_sweep :: "(db \<Rightarrow> db) \<Rightarrow> settings \<Rightarrow> time \<Rightarrow> db \<Rightarrow> unit run" where
  "retention_sweep env s now d =
     (Inr (), snd (sweep_retention env (nat (qs_retention_batch_size s)) now (qs_retention_days s)
        (map_option nat (qs_retention_max_tasks s)) d))"

definition retention_pass :: "(db \<Rightarrow> db) \<Rightarrow> settings res \<Rightarrow> time \<Rightarrow> db \<Rightarrow> secs \<times> db" where
  "retention_pass env conf = sweep_pass conf qs_retention_interval (retention_sweep env)"

text \<open>
  One round of \<^verbatim>\<open>dispatch_loop\<close>: dispatch what is due, then sleep until the next attempt is.
  \<open>lag\<close> is how long the dispatching took.
\<close>

definition dispatch_pass ::
  "world \<Rightarrow> (nat \<Rightarrow> time) \<Rightarrow> secs \<Rightarrow> settings res \<Rightarrow> time \<Rightarrow> db \<Rightarrow> secs \<times> db" where
  "dispatch_pass w clk lag conf now d =
     (case conf of
        Inl e \<Rightarrow> (error_backoff, d)
      | Inr s \<Rightarrow> (let d = snd (dispatch_due (configured s w) now clk None d) in
          (seconds_until_due (qs_dispatch_interval s) (now + lag) d, d)))"

fun run_passes :: "(time \<Rightarrow> db \<Rightarrow> secs \<times> db) \<Rightarrow> nat \<Rightarrow> time \<Rightarrow> db \<Rightarrow> time \<times> db" where
  "run_passes pass 0 now d = (now, d)"
| "run_passes pass (Suc n) now d = (case pass now d of (s, d) \<Rightarrow> run_passes pass n (now + s) d)"

datatype loop = DispatchLoop | ReapLoop | RetentionLoop

text \<open>The threads beside the monitor.\<close>

definition monitor_loops :: "settings \<Rightarrow> loop list" where
  "monitor_loops s = [DispatchLoop, ReapLoop] @ (if settings_retention s then [RetentionLoop] else [])"

section \<open>The pool\<close>

datatype process_target =
    StandardWorker
  | ThreadedWorker int nat rat
  | Monitor

record process =
  ps_target :: process_target
  ps_daemon :: bool
  ps_timer :: "rat option"

record sentinel =
  sn_threads :: int
  sn_max_inflight :: nat
  sn_grace_period :: rat
  sn_threading :: bool
  sn_pool :: "process list"
  sn_started :: "process list"

definition new_sentinel :: "settings \<Rightarrow> sentinel" where
  "new_sentinel s = \<lparr>sn_threads = qs_threads s, sn_max_inflight = settings_inflight s,
     sn_grace_period = qs_grace_period s, sn_threading = (1 < qs_threads s), sn_pool = [], sn_started = []\<rparr>"

fun is_worker :: "process_target \<Rightarrow> bool" where
  "is_worker StandardWorker = True"
| "is_worker (ThreadedWorker _ _ _) = True"
| "is_worker Monitor = False"

text \<open>\<open>daemonize\<close> is \<^verbatim>\<open>Conf.DAEMONIZE_WORKERS\<close>.\<close>

definition spawn_process :: "bool \<Rightarrow> process_target \<Rightarrow> rat option \<Rightarrow> sentinel \<Rightarrow> sentinel" where
  "spawn_process daemonize t timer sn =
     (let p = \<lparr>ps_target = t, ps_daemon = (if is_worker t then daemonize else True),
               ps_timer = (if is_worker t then timer else None)\<rparr> in
      sn\<lparr>sn_pool := (if is_worker t then sn_pool sn @ [p] else sn_pool sn),
         sn_started := sn_started sn @ [p]\<rparr>)"

definition spawn_monitor :: "bool \<Rightarrow> sentinel \<Rightarrow> sentinel" where
  "spawn_monitor daemonize sn = spawn_process daemonize Monitor None sn"

definition spawn_worker :: "bool \<Rightarrow> sentinel \<Rightarrow> sentinel" where
  "spawn_worker daemonize sn =
     spawn_process daemonize
       (if sn_threading sn then ThreadedWorker (sn_threads sn) (sn_max_inflight sn) (sn_grace_period sn)
        else StandardWorker) (Some timer_idle) sn"

section \<open>Warnings at the start\<close>

datatype warning = NoReceipts broker_class | NoQueueGauges broker_class

text \<open>
  Both look at the broker the cluster delivers with: its own, or the one it would get. The first is
  silent when that broker cannot be had; so is the second.
\<close>

definition warn_if_broker_lacks_receipts ::
  "broker_lib \<Rightarrow> world \<Rightarrow> (brokers \<Rightarrow> brokers) \<Rightarrow> delivery option \<Rightarrow> delivery res \<Rightarrow> brokers \<Rightarrow>
   warning list res \<times> brokers" where
  "warn_if_broker_lacks_receipts lib w env own get st =
     (case (case own of Some b \<Rightarrow> Inr b | None \<Rightarrow> get) of
        Inl e \<Rightarrow> (Inr [], st)
      | Inr b \<Rightarrow>
          (case delivering_broker lib w env (Some b) b st of
             (Inl e, st) \<Rightarrow> (Inl e, st)
           | (Inr c, st) \<Rightarrow>
               (case broker_supports_receipts lib w env (Concrete c) st of
                  (Inl e, st) \<Rightarrow> (Inl e, st)
                | (Inr True, st) \<Rightarrow> (Inr [], st)
                | (Inr False, st) \<Rightarrow> (Inr [NoReceipts (bo_class c)], st))))"

definition warn_if_gauges_cannot_read_the_queue ::
  "broker_lib \<Rightarrow> world \<Rightarrow> (brokers \<Rightarrow> brokers) \<Rightarrow> delivery option \<Rightarrow> delivery res \<Rightarrow> settings \<Rightarrow> brokers \<Rightarrow>
   warning list \<times> brokers" where
  "warn_if_gauges_cannot_read_the_queue lib w env own get s st =
     (if \<not> qs_metrics_gauges s then ([], st)
      else (case (case own of Some b \<Rightarrow> Inr b | None \<Rightarrow> get) of
          Inl e \<Rightarrow> ([], st)
        | Inr b \<Rightarrow>
            (case delivering_broker lib w env (Some b) b st of
               (Inl e, st) \<Rightarrow> ([], st)
             | (Inr c, st) \<Rightarrow>
                 (if bl_is_orm lib (bo_class c) then [] else [NoQueueGauges (bo_class c)], st))))"

section \<open>The command\<close>

definition alt_cluster_names :: "pyval \<Rightarrow> string list" where
  "alt_cluster_names config =
     (case config of
        PDict d \<Rightarrow> (case dict_get d ''ALT_CLUSTERS'' of Some (PDict alts) \<Rightarrow> map fst alts | _ \<Rightarrow> [])
      | _ \<Rightarrow> [])"

definition validate_cluster_name :: "pyval \<Rightarrow> pyval \<Rightarrow> string \<Rightarrow> unit res" where
  "validate_cluster_name qraft q_cluster name =
     (let q = (case q_cluster of PDict d \<Rightarrow> d | _ \<Rightarrow> []) in
      if dict_get q ''name'' = Some (PStr name) \<or> dict_get q ''cluster_name'' = Some (PStr name) then Inr ()
      else rbind (guard (name \<in> set (alt_cluster_names (PDict q)) \<union> set (alt_cluster_names qraft))
                    (CommandError ''Unknown cluster name'')) (\<lambda>_.
      guard (dict_get q ''ALT_CLUSTERS'' \<noteq> None) (CommandError ''Q_CLUSTER has no ALT_CLUSTERS key'')))"

datatype image = Reexec string | Running settings

text \<open>\<open>env\<close> is the value of Q_CLUSTER_NAME in the process, \<open>name\<close> the option \<^verbatim>\<open>--name\<close>.\<close>

definition handle_command ::
  "coercions \<Rightarrow> pyval \<Rightarrow> pyval \<Rightarrow> string option \<Rightarrow> string option \<Rightarrow> image res" where
  "handle_command cv qraft q_cluster name env =
     (case given name of
        Some n \<Rightarrow>
          if env \<noteq> Some n then rbind (validate_cluster_name qraft q_cluster n) (\<lambda>_. Inr (Reexec n))
          else rbind (load_settings cv qraft q_cluster env) (\<lambda>s. Inr (Running s))
      | None \<Rightarrow> rbind (load_settings cv qraft q_cluster env) (\<lambda>s. Inr (Running s)))"

fun run_command ::
  "nat \<Rightarrow> coercions \<Rightarrow> pyval \<Rightarrow> pyval \<Rightarrow> string option \<Rightarrow> string option \<Rightarrow>
   (string option \<times> settings) res option" where
  "run_command 0 cv qraft q_cluster name env = None"
| "run_command (Suc n) cv qraft q_cluster name env =
     (case handle_command cv qraft q_cluster name env of
        Inl e \<Rightarrow> Some (Inl e)
      | Inr (Reexec c) \<Rightarrow> run_command n cv qraft q_cluster name (Some c)
      | Inr (Running s) \<Rightarrow> Some (Inr (env, s)))"

section \<open>Interface: a loop that sleeps\<close>

text \<open>A pass that sleeps at least \<open>floor\<close>: any number of passes takes at least that many times as long.\<close>

locale sleeping_loop =
  fixes pass :: "time \<Rightarrow> db \<Rightarrow> secs \<times> db"
    and least :: secs
  assumes sleeps: "least \<le> fst (pass now d)"
begin

lemma passes_take:
  "run_passes pass n now d = (t, d') \<Longrightarrow> now + of_nat n * least \<le> t"
proof (induction n arbitrary: now d)
  case (Suc n)
  obtain s e where p: "pass now d = (s, e)" by fastforce
  have "least \<le> s" using sleeps [of now d] p by simp
  moreover have "now + s + of_nat n * least \<le> t" using Suc.IH [of "now + s" e] Suc.prems p by simp
  ultimately show ?case by (simp add: algebra_simps)
qed simp

end

definition sweep_floor :: "settings res \<Rightarrow> (settings \<Rightarrow> secs) \<Rightarrow> secs" where
  "sweep_floor conf interval = (case conf of Inl e \<Rightarrow> error_backoff | Inr s \<Rightarrow> interval s)"

lemma sweep_pass_sleeps: "sweep_floor conf interval \<le> fst (sweep_pass conf interval sweep now d)"
  by (auto simp: sweep_floor_def sweep_pass_def error_backoff_def split: sum.splits prod.splits)

definition dispatch_floor :: "settings res \<Rightarrow> secs" where
  "dispatch_floor conf = (case conf of Inl e \<Rightarrow> error_backoff | Inr s \<Rightarrow> min min_sleep (qs_dispatch_interval s))"

lemma dispatch_pass_sleeps: "dispatch_floor conf \<le> fst (dispatch_pass w clk lag conf now d)"
  by (auto simp: dispatch_floor_def dispatch_pass_def seconds_until_due_def Let_def min_le_iff_disj le_max_iff_disj
      split: sum.splits option.splits)

interpretation reaping: sleeping_loop "reap_pass w u trace queued conf" "sweep_floor conf qs_reap_interval"
  for w u trace queued conf
  by unfold_locales (simp add: reap_pass_def sweep_pass_sleeps)

interpretation retaining: sleeping_loop "retention_pass env conf" "sweep_floor conf qs_retention_interval"
  for env conf
  by unfold_locales (simp add: retention_pass_def sweep_pass_sleeps)

interpretation dispatching: sleeping_loop "dispatch_pass w clk lag conf" "dispatch_floor conf"
  for w clk lag conf
  by unfold_locales (rule dispatch_pass_sleeps)

text \<open>
  The background loops never spin. With settings as they load, or failing to load on every pass,
  any number of passes of the reaper, of the retention sweep and of the dispatcher takes at least that
  number times a positive sleep, whatever the sweeps do and however they fail.
\<close>

theorem loops_never_spin:
  assumes "conf = load_settings cv qraft q_cluster name"
  shows "0 < sweep_floor conf qs_reap_interval \<and> 0 < sweep_floor conf qs_retention_interval \<and>
    0 < dispatch_floor conf \<and>
    now + of_nat n * sweep_floor conf qs_reap_interval \<le> fst (run_passes (reap_pass w u trace queued conf) n now d) \<and>
    now + of_nat n * sweep_floor conf qs_retention_interval \<le> fst (run_passes (retention_pass env conf) n now d) \<and>
    now + of_nat n * dispatch_floor conf \<le> fst (run_passes (dispatch_pass w clk lag conf) n now d)"
proof -
  have "valid_settings s" if "conf = Inr s" for s using validated that assms by (simp add: load_settings_def)
  then have "0 < sweep_floor conf qs_reap_interval" "0 < sweep_floor conf qs_retention_interval" "0 < dispatch_floor conf"
    by (cases conf, auto simp: sweep_floor_def dispatch_floor_def valid_settings_def error_backoff_def min_sleep_def)+
  with reaping.passes_take [OF prod.collapse [symmetric]] retaining.passes_take [OF prod.collapse [symmetric]]
    dispatching.passes_take [OF prod.collapse [symmetric]]
  show ?thesis by blast
qed

theorem loops_never_spin_witness:
  "4 + 3 * 60 \<le> fst (run_passes (reap_pass demo_world 0 None None
     (load_settings strict demo_qraft demo_q2 (Some ''io''))) 3 4 empty_db)"
proof -
  have "sweep_floor (load_settings strict demo_qraft demo_q2 (Some ''io'')) qs_reap_interval = 60" by code_simp
  with loops_never_spin [OF refl, of strict demo_qraft demo_q2 "Some ''io''" 4 3 demo_world 0 None None empty_db]
  show ?thesis by simp
qed

section \<open>The pool and the command\<close>

text \<open>Every worker of the pool is threaded exactly when more than one thread is configured.\<close>

lemma spawn_worker_pool:
  assumes "valid_settings s"
  shows "sn_pool ((spawn_worker daemonize ^^ n) (new_sentinel s)) =
    replicate n \<lparr>ps_target = (if 1 < qs_threads s
        then ThreadedWorker (qs_threads s) (settings_inflight s) (qs_grace_period s) else StandardWorker),
      ps_daemon = daemonize, ps_timer = Some timer_idle\<rparr>"
proof -
  let ?p = "\<lparr>ps_target = (if 1 < qs_threads s then ThreadedWorker (qs_threads s) (settings_inflight s)
      (qs_grace_period s) else StandardWorker), ps_daemon = daemonize, ps_timer = Some timer_idle\<rparr>"
  have "sn_pool x = replicate n ?p \<and> sn_threads x = qs_threads s \<and> sn_max_inflight x = settings_inflight s \<and>
      sn_grace_period x = qs_grace_period s \<and> sn_threading x = (1 < qs_threads s)"
    if "x = (spawn_worker daemonize ^^ n) (new_sentinel s)" for x n using that
  proof (induction n arbitrary: x)
    case 0
    then show ?case by (simp add: new_sentinel_def)
  next
    case (Suc n)
    then show ?case
      by (simp add: spawn_worker_def spawn_process_def Let_def replicate_append_same)
  qed
  then show ?thesis by blast
qed

lemma monitor_not_pooled: "sn_pool (spawn_monitor daemonize sn) = sn_pool sn"
  by (simp add: spawn_monitor_def spawn_process_def Let_def)

text \<open>
  C40: starting a cluster ends. The command replaces its process at most once; when the cluster runs, its
  settings are those of the cluster its environment names, a name given on the command line is that
  name, and a name it had to switch to is one that the settings declare.
\<close>

theorem command_reexecs_once:
  assumes "2 \<le> fuel"
  shows "\<exists>r. run_command fuel cv qraft q_cluster name env = Some r \<and>
    (\<forall>e s. r = Inr (e, s) \<longrightarrow> load_settings cv qraft q_cluster e = Inr s \<and>
       (given name \<noteq> None \<longrightarrow> e = given name) \<and>
       (e \<noteq> env \<longrightarrow> validate_cluster_name qraft q_cluster (the e) = Inr ()))"
proof -
  obtain n where n: "fuel = Suc (Suc n)" using le_Suc_ex [OF assms] by auto
  show ?thesis
  proof (cases "\<exists>k. given name = Some k \<and> env \<noteq> Some k")
    case True
    then obtain k where k: "given name = Some k" "env \<noteq> Some k" by blast
    show ?thesis
    proof (cases "validate_cluster_name qraft q_cluster k")
      case (Inl e)
      then show ?thesis by (simp add: n handle_command_def k)
    next
      case (Inr u)
      then show ?thesis
        by (cases "load_settings cv qraft q_cluster (Some k)") (simp_all add: n handle_command_def k)
    qed
  next
    case False
    then have "handle_command cv qraft q_cluster name env = rbind (load_settings cv qraft q_cluster env) (\<lambda>s. Inr (Running s))"
      by (auto simp: handle_command_def split: option.splits)
    then show ?thesis using False by (cases "load_settings cv qraft q_cluster env") (auto simp: n)
  qed
qed

theorem command_reexecs_once_witness:
  "run_command 2 strict demo_qraft demo_q2 (Some ''io'') None = Some (Inr (Some ''io'', io_settings))"
proof -
  obtain r where r: "run_command 2 strict demo_qraft demo_q2 (Some ''io'') None = Some r"
    "\<forall>e s. r = Inr (e, s) \<longrightarrow> load_settings strict demo_qraft demo_q2 e = Inr s \<and>
       (given (Some ''io'') \<noteq> None \<longrightarrow> e = given (Some ''io''))"
    using command_reexecs_once [of 2 strict demo_qraft demo_q2 "Some ''io''" None] by auto
  have "(case run_command 2 strict demo_qraft demo_q2 (Some ''io'') None of Some (Inr x) \<Rightarrow> True | _ \<Rightarrow> False)"
    by code_simp
  then obtain e s where es: "r = Inr (e, s)" using r(1) by (auto split: option.splits sum.splits)
  then have "e = Some ''io''" "load_settings strict demo_qraft demo_q2 e = Inr s" using r(2) by (auto simp: given_def)
  then show ?thesis using r(1) es io_loads by simp
qed

end
