(* ===== verification/Qraft_Backend.thy ===== *)
theory Qraft_Backend
  imports Qraft_Tasks Qraft_Lease
begin

text \<open>
  The django.tasks backend (\<^verbatim>\<open>qraft/backend.py\<close>): three ways to enqueue a task, the
  result built from its rows, and the worker-side entry point that injects the task context.
  \<^item> Django's own code is a parameter: \<open>validate\<close> is its check of a task, \<open>imports\<close> the function behind a
    dotted path without its wrapper.
  \<^item> No enqueue is one transaction, so each returns the database along with its result or error. \<open>post\<close> is
    what others commit between the insert of a plain task and the update that records its target.
\<close>

section \<open>Tasks and results of django.tasks\<close>

record pyfun =
  pf_id :: nat
  pf_module :: string
  pf_name :: string

record dtask =
  dt_func :: pyfun
  dt_priority :: int
  dt_run_after :: "time option"
  dt_takes_context :: bool

datatype result_status = Ready | Executing | Successful | Unsuccessful

record dresult =
  re_task :: dtask
  re_id :: string
  re_status :: result_status
  re_enqueued_at :: time
  re_started_at :: "time option"
  re_last_attempted_at :: "time option"
  re_finished_at :: "time option"
  re_args :: "pyval list"
  re_kwargs :: dict
  re_errors :: "string list"
  re_workers :: "q2id list"
  re_value :: "string option"

definition context_wrapper_path :: string where
  "context_wrapper_path = ''qraft.backend.run_task_with_context''"

definition plain_wrapper_path :: string where
  "plain_wrapper_path = ''qraft.backend.run_task''"

definition lane_for_priority :: "int \<Rightarrow> priority" where
  "lane_for_priority p = (if 0 < p then High else if p < 0 then Low else Default)"

fun priority_for_lane :: "priority \<Rightarrow> int" where
  "priority_for_lane High = 10"
| "priority_for_lane Default = 0"
| "priority_for_lane Low = -10"

fun status_of_result :: "task_status \<Rightarrow> result_status" where
  "status_of_result TPending = Ready"
| "status_of_result TRunning = Executing"
| "status_of_result TSucceeded = Successful"
| "status_of_result TFailed = Unsuccessful"
| "status_of_result TExhausted = Unsuccessful"

definition supports_priority :: "world \<Rightarrow> bool" where
  "supports_priority w = priority_lanes_available w None"

text \<open>\<^verbatim>\<open>get_q2_task\<close> of an attempt.\<close>

definition attempt_q2 :: "attempt_row \<Rightarrow> db \<Rightarrow> q2_row option" where
  "attempt_q2 a d = Option.bind (a_q2 a) (\<lambda>q. get_q2 q d)"

definition build_result :: "dtask \<Rightarrow> task_row \<Rightarrow> db \<Rightarrow> dresult" where
  "build_result task t d =
     (let attempts = task_attempts (t_id t) d;
          oldest = first_row attempts; latest = first_row (rev attempts);
          failure = Option.bind latest (\<lambda>a. given (a_exc a)) in
      \<lparr>re_task = task, re_id = show_nat (t_id t), re_status = status_of_result (t_status t),
       re_enqueued_at = t_created t, re_started_at = Option.bind oldest a_started,
       re_last_attempted_at = Option.bind latest a_started,
       re_finished_at = Option.bind latest a_completed, re_args = t_args t, re_kwargs = t_kwargs t,
       re_errors = (case failure of Some e \<Rightarrow> [e] | None \<Rightarrow> []),
       re_workers = map (the \<circ> a_q2) (filter (\<lambda>a. a_q2 a \<noteq> None) attempts),
       re_value = (if failure \<noteq> None then None
         else Option.bind latest (\<lambda>a. Option.bind (attempt_q2 a d) q_result))\<rparr>)"

section \<open>Enqueueing\<close>

definition func_path :: "dtask \<Rightarrow> string" where
  "func_path task = pf_module (dt_func task) @ ''.'' @ pf_name (dt_func task)"

fun lane_name :: "priority \<Rightarrow> string" where
  "lane_name High = ''high''"
| "lane_name Default = ''default''"
| "lane_name Low = ''low''"

definition backend_call :: "string \<Rightarrow> pyval list \<Rightarrow> dict \<Rightarrow> priority \<Rightarrow> call" where
  "backend_call path args kwargs lane = \<lparr>ac_func = Path plain_wrapper_path,
     ac_args = [PStr path, PList args, PDict kwargs], ac_kwargs = [], ac_hook = None,
     ac_group = None, ac_save = None, ac_timeout = None, ac_ack = None, ac_sync = False,
     ac_cached = None, ac_broker = None, ac_cluster = None, ac_name = None, ac_q_options = [],
     ac_options = [(''priority'', PStr (lane_name lane))]\<rparr>"

text \<open>\<^verbatim>\<open>QraftTask.objects.create\<close> with the columns the backend sets.\<close>

definition backend_task ::
  "id \<Rightarrow> time \<Rightarrow> string \<Rightarrow> pyval list \<Rightarrow> dict \<Rightarrow> task_status \<Rightarrow> priority \<Rightarrow> task_row" where
  "backend_task i now path args kwargs status lane = \<lparr>t_id = i, t_status = status, t_func = path,
     t_args = args, t_kwargs = kwargs, t_success_hook = None, t_success_args = [],
     t_success_kwargs = [], t_failure_hook = None, t_failure_args = [], t_failure_kwargs = [],
     t_hook_context = False, t_retry_policy = [], t_stall_after = None, t_idem_key = None,
     t_priority = lane, t_progress = None, t_iter = None, t_batch = None, t_graph_node = None,
     t_subject_type = None, t_subject_id = None, t_graph_id = None, t_node = None,
     t_created = now, t_updated = now\<rparr>"

definition context_args :: "string \<Rightarrow> id \<Rightarrow> string \<Rightarrow> pyval list \<Rightarrow> dict \<Rightarrow> pyval list" where
  "context_args path i alias args kwargs =
     [PStr path, PStr (show_nat i), PStr alias, PList args, PDict kwargs]"

definition enqueue_plain ::
  "world \<Rightarrow> time \<Rightarrow> string option \<Rightarrow> (db \<Rightarrow> db) \<Rightarrow> (db \<Rightarrow> db) \<Rightarrow> dtask \<Rightarrow> pyval list \<Rightarrow> dict \<Rightarrow> db \<Rightarrow>
   dresult res \<times> db" where
  "enqueue_plain w now trace env post task args kwargs d =
     (case async_task w (\<lambda>_. None) now trace env
          (backend_call (func_path task) args kwargs (lane_for_priority (dt_priority task))) d of
        (Inl e, d) \<Rightarrow> (Inl e, d)
      | (Inr q, d) \<Rightarrow>
          (let d = post d in
           case Option.bind (find (\<lambda>a. a_q2 a = Some q) (d_attempts d)) (\<lambda>a. get_task (a_task a) d) of
             None \<Rightarrow> (Inl DoesNotExist, d)
           | Some t \<Rightarrow>
               (let named = (\<lambda>x. x\<lparr>t_func := func_path task, t_args := args, t_kwargs := kwargs\<rparr>);
                    d = upd_tasks (\<lambda>x. t_id x = t_id t) named d in
                (Inr (build_result task (named t) d), d))))"

definition enqueue_with_context ::
  "world \<Rightarrow> string \<Rightarrow> time \<Rightarrow> dtask \<Rightarrow> pyval list \<Rightarrow> dict \<Rightarrow> db \<Rightarrow> dresult res \<times> db" where
  "enqueue_with_context w alias now task args kwargs d =
     (let i = d_next d; path = func_path task; lane = lane_for_priority (dt_priority task);
          t = backend_task i now path args kwargs TRunning lane in
      case rbind (q2_async_task w
             \<lparr>m_func = context_wrapper_path, m_args = context_args path i alias args kwargs, m_kwargs = [],
              m_hook = Some ''qraft.hooks.qraft_hook_handler'', m_task_name = None,
              m_ack_failure = True, m_save = None, m_group = None, m_timeout = None, m_q_options = [],
              m_cluster = None, m_list_key = broker_list_key w None (Some lane)\<rparr> (insert_task t d))
           (\<lambda>(q, d). insert_attempt ((blank_attempt (d_next d) i 1 now)\<lparr>a_q2 := Some q,
              a_cluster := Some (w_cluster w)\<rparr>) d) of
        Inl e \<Rightarrow> (Inl e, d)
      | Inr d \<Rightarrow> (Inr (build_result task t d), d))"

definition enqueue_deferred ::
  "world \<Rightarrow> string \<Rightarrow> time \<Rightarrow> dtask \<Rightarrow> time \<Rightarrow> pyval list \<Rightarrow> dict \<Rightarrow> db \<Rightarrow> dresult res \<times> db" where
  "enqueue_deferred w alias now task run_after args kwargs d =
     (let i = d_next d; path = func_path task; lane = lane_for_priority (dt_priority task);
          t = backend_task i now path args kwargs TPending lane;
          (dfunc, dargs) = (if dt_takes_context task
            then (Some context_wrapper_path, Some (context_args path i alias args kwargs))
            else (None, None));
          d = insert_task t d in
      case schedule_attempt now i 1 run_after (Some (w_cluster w)) dfunc dargs d of
        Inl e \<Rightarrow> (Inl e, d)
      | Inr (_, d) \<Rightarrow> (Inr (build_result task (set_task_status now TPending t) d), d))"

definition enqueue ::
  "world \<Rightarrow> (dtask \<Rightarrow> unit res) \<Rightarrow> string \<Rightarrow> time \<Rightarrow> string option \<Rightarrow> (db \<Rightarrow> db) \<Rightarrow> (db \<Rightarrow> db) \<Rightarrow> dtask \<Rightarrow>
   pyval list \<Rightarrow> dict \<Rightarrow> db \<Rightarrow> dresult res \<times> db" where
  "enqueue w validate alias now trace env post task args kwargs d =
     (case validate task of
        Inl e \<Rightarrow> (Inl e, d)
      | Inr _ \<Rightarrow>
          (case dt_run_after task of
             Some r \<Rightarrow> enqueue_deferred w alias now task r args kwargs d
           | None \<Rightarrow>
               if dt_takes_context task then enqueue_with_context w alias now task args kwargs d
               else enqueue_plain w now trace env post task args kwargs d))"

section \<open>Results\<close>

text \<open>Building the task validates it (\<^verbatim>\<open>Task.__post_init__\<close>).\<close>

definition get_result ::
  "(dtask \<Rightarrow> unit res) \<Rightarrow> (string \<Rightarrow> pyfun res) \<Rightarrow> string \<Rightarrow> db \<Rightarrow> dresult res" where
  "get_result validate imports result_id d =
     (case (if is_numeral result_id then get_task (read_nat result_id) d else None) of
        None \<Rightarrow> Inl TaskResultDoesNotExist
      | Some t \<Rightarrow>
          rbind (imports (t_func t)) (\<lambda>f.
          let task = \<lparr>dt_func = f, dt_priority = priority_for_lane (t_priority t), dt_run_after = None,
                dt_takes_context = False\<rparr> in
          rbind (validate task) (\<lambda>_. Inr (build_result task t d))))"

text \<open>\<open>target\<close> is the resolved function; it gets the context, which holds the result, first.\<close>

definition run_task_with_context ::
  "world \<Rightarrow> nat \<Rightarrow> string option \<Rightarrow> time \<Rightarrow> time \<Rightarrow> (dtask \<Rightarrow> unit res) \<Rightarrow> (string \<Rightarrow> pyfun res) \<Rightarrow>
   (pyfun \<Rightarrow> dresult \<Rightarrow> pyval list \<Rightarrow> dict \<Rightarrow> db \<Rightarrow> 'a res \<times> db) \<Rightarrow>
   string \<Rightarrow> string \<Rightarrow> pyval list \<Rightarrow> dict \<Rightarrow> proc \<Rightarrow> db \<Rightarrow> 'a res \<times> proc \<times> db" where
  "run_task_with_context w pid thread now ended validate imports target path task_id args kwargs p d =
     (let (g, p, d) = guard_delivery w pid thread now p d in
      case rbind g (\<lambda>_. rbind (imports path) (\<lambda>f.
             rbind (get_result validate imports task_id d) (\<lambda>r. Inr (f, r)))) of
        Inl e \<Rightarrow> (Inl e, p, d)
      | Inr (f, r) \<Rightarrow>
          (let (v, d) = target f r args kwargs d; (p, d) = close_lease ended p d in (v, p, d)))"

section \<open>An enqueued task is found again\<close>

text \<open>Ids are handed out in order, and a linked attempt's message went through the queue.\<close>

definition ids_known :: "db \<Rightarrow> bool" where
  "ids_known d \<longleftrightarrow> (\<forall>t \<in> set (d_tasks d). t_id t < d_next d) \<and> attempts_below d \<and>
     (\<forall>a \<in> set (d_attempts d). \<forall>q. a_q2 a = Some q \<longrightarrow> q \<in> fst ` set (d_queue d))"

text \<open>What others may do to a task between its insert and the update naming its target.\<close>

definition keeps_links :: "db \<Rightarrow> db \<Rightarrow> bool" where
  "keeps_links d d' \<longleftrightarrow>
     (\<forall>i t. get_task i d = Some t \<longrightarrow> (\<exists>t'. get_task i d' = Some t' \<and> t_priority t' = t_priority t)) \<and>
     (\<forall>q a. find (\<lambda>a. a_q2 a = Some q) (d_attempts d) = Some a \<longrightarrow>
        (\<exists>a'. find (\<lambda>a. a_q2 a = Some q) (d_attempts d') = Some a' \<and> a_task a' = a_task a))"

text \<open>The task \<^verbatim>\<open>get_result\<close> rebuilds.\<close>

definition restored :: "dtask \<Rightarrow> dtask" where
  "restored task = \<lparr>dt_func = dt_func task,
     dt_priority = priority_for_lane (lane_for_priority (dt_priority task)), dt_run_after = None,
     dt_takes_context = False\<rparr>"

lemma restored_sign: "sgn (dt_priority (restored task)) = sgn (dt_priority task)"
  by (simp add: restored_def lane_for_priority_def)

lemma backend_prepare:
  assumes "async_prepare w imp now (backend_call path args kwargs lane) d = Inr (t, m)"
  shows "t_priority t = lane" "m_func m = runner_path" "m_kwargs m = []"
    "m_args m = [PStr plain_wrapper_path, PList [PStr path, PList args, PDict kwargs], PDict []]"
proof -
  have "plain_wrapper_path \<noteq> runner_path" by (simp add: plain_wrapper_path_def runner_path_def)
  then show "t_priority t = lane" "m_func m = runner_path" "m_kwargs m = []"
    "m_args m = [PStr plain_wrapper_path, PList [PStr path, PList args, PDict kwargs], PDict []]"
    using assms
    by (cases lane; auto simp: async_prepare_def backend_call_def priority_option_def Let_def
        importable_func_path_def wrapped_dispatch_def elim!: rbindE split: prod.splits)+
qed

text \<open>The database right after the insert of a plain task.\<close>

lemma plain_inserted:
  assumes "async_task w imp now trace env (backend_call path args kwargs lane) d = (Inr q, e)"
    and "fresh_ids w" "ids_known (env d)"
  obtains t a m where "find (\<lambda>a. a_q2 a = Some q) (d_attempts e) = Some a" "get_task (a_task a) e = Some t"
    "t_priority t = lane" "m_func m = runner_path" "m_kwargs m = []" "map_of (d_queue e) q = Some m"
    "task_attempts (a_task a) e = [a]" "a_q2 a = Some q"
    "m_args m = [PStr plain_wrapper_path, PList [PStr path, PList args, PDict kwargs], PDict []]"
proof -
  let ?c = "backend_call path args kwargs lane"
  have k: "idem_key ?c = None" by (simp add: idem_key_def backend_call_def opt_str_def given_def)
  have "async_insert w imp now trace ?c (env d) = (Inr q, e)"
    using assms(1) k by (simp add: async_task_def Let_def split: sum.splits)
  then obtain t m i where p: "async_prepare w imp now ?c (env d) = Inr (t, m)"
    and c: "create_and_enqueue w now trace t m (env d) = Inr (i, q, e)"
    using k by (auto simp: async_insert_def rbind_Inr split: sum.splits if_splits)
  note m = backend_prepare [OF p]
  from c obtain t' a where i: "i = d_next (env d)" "w_enqueue w (d_queue (env d)) m = Some q" "t_id t' = i"
    "t_priority t' = t_priority t" "a_task a = i" "a_q2 a = Some q"
    "e = (env d)\<lparr>d_tasks := d_tasks (env d) @ [t'], d_attempts := d_attempts (env d) @ [a],
       d_queue := d_queue (env d) @ [(q, m)], d_next := Suc (Suc (d_next (env d)))\<rparr>"
    by (rule create_and_enqueue_Inr) blast
  have new: "q \<notin> fst ` set (d_queue (env d))" using assms(2) i(2) by (auto simp: fresh_ids_def)
  then have "map_of (d_queue (env d)) q = None" by (simp add: map_of_eq_None_iff)
  moreover have "filter (\<lambda>b. a_task b = i) (d_attempts (env d)) = []"
    using assms(3) i(1) by (auto simp: filter_empty_conv ids_known_def attempts_below_def)
  moreover have "find (\<lambda>a. a_q2 a = Some q) (d_attempts (env d)) = None"
    using assms(3) new by (auto simp: find_None_iff ids_known_def)
  moreover have "get_by t_id i (d_tasks (env d)) = None"
    using assms(3) i(1) by (auto simp: get_by_None ids_known_def)
  ultimately show thesis
    using i m by (intro that [of a t' m]) (simp_all add: find_append get_task_def get_by_append task_attempts_def map_add_def)
qed

lemma plain_result:
  assumes "enqueue_plain w now trace env post task args kwargs d = (Inr r, d')"
    and "fresh_ids w" "ids_known (env d)" "\<And>e. keeps_links e (post e)"
  obtains t where "get_task (t_id t) d' = Some t" "r = build_result task t d'" "t_func t = func_path task"
    "t_args t = args" "t_kwargs t = kwargs" "t_priority t = lane_for_priority (dt_priority task)"
proof -
  let ?c = "backend_call (func_path task) args kwargs (lane_for_priority (dt_priority task))"
  obtain q e where q: "async_task w (\<lambda>_. None) now trace env ?c d = (Inr q, e)"
    using assms(1) by (auto simp: enqueue_plain_def split: prod.splits sum.splits)
  from plain_inserted [OF q assms(2,3)] obtain t a m where
    "find (\<lambda>a. a_q2 a = Some q) (d_attempts e) = Some a" "get_task (a_task a) e = Some t"
    "t_priority t = lane_for_priority (dt_priority task)" by blast
  then obtain t1 a1 where a1: "find (\<lambda>a. a_q2 a = Some q) (d_attempts (post e)) = Some a1"
    "get_task (a_task a1) (post e) = Some t1" "t_priority t1 = lane_for_priority (dt_priority task)"
    using assms(4) [of e] unfolding keeps_links_def by metis
  define named where "named = (\<lambda>x :: task_row. x\<lparr>t_func := func_path task, t_args := args, t_kwargs := kwargs\<rparr>)"
  have i: "t_id t1 = a_task a1" using get_by_SomeD [of t_id _ _ t1] a1(2) by (simp add: get_task_def)
  have r: "d' = upd_tasks (\<lambda>x. t_id x = t_id t1) named (post e)" "r = build_result task (named t1) d'"
    using assms(1) q a1 by (auto simp: enqueue_plain_def Let_def named_def)
  have "get_task (t_id (named t1)) d' = Some (named t1)"
    using a1(2) i by (simp add: r(1) get_task_def get_by_upd_where named_def)
  then show thesis using a1(3) r(2) by (intro that [of "named t1"]) (simp_all add: named_def)
qed

lemma new_task_found:
  "ids_known d \<Longrightarrow> t_id t = d_next d \<Longrightarrow> get_by t_id (d_next d) (d_tasks d @ [t]) = Some t"
  by (auto simp: get_by_append get_by_None ids_known_def split: option.splits dest!: get_by_SomeD)

lemma context_result:
  assumes "enqueue_with_context w alias now task args kwargs d = (Inr r, d')" "ids_known d"
  obtains t where "get_task (t_id t) d' = Some t" "r = build_result task t d'" "t_func t = func_path task"
    "t_args t = args" "t_kwargs t = kwargs" "t_priority t = lane_for_priority (dt_priority task)"
proof -
  let ?t = "backend_task (d_next d) now (func_path task) args kwargs TRunning (lane_for_priority (dt_priority task))"
  have t: "d_tasks d' = d_tasks d @ [?t]" "r = build_result task ?t d'"
    using assms(1) by (auto simp: enqueue_with_context_def Let_def insert_attempt_def rbind_Inr q2_async_task_def
        insert_task_def split: sum.splits option.splits if_splits)
  show thesis
    by (rule that [of ?t]) (use t new_task_found [OF assms(2), of ?t] in \<open>simp_all add: backend_task_def get_task_def\<close>)
qed

lemma scheduled_first:
  assumes "schedule_attempt now i n r c df da (insert_task t d) = Inr (j, d')" "t_id t = i"
  shows "d_tasks d' = upd_where (\<lambda>x. t_id x = i) (set_task_status now TPending) (d_tasks d @ [t])"
    and "\<exists>a. d_attempts d' = d_attempts d @ [a] \<and> a_task a = i \<and> a_number a = n \<and> a_state a = Scheduled \<and>
      a_not_before a = Some r \<and> a_cluster a = c \<and> a_dispatch_func a = df \<and> a_dispatch_args a = da \<and> a_q2 a = None"
  using assms
  by (auto simp: schedule_attempt_def Let_def insert_attempt_def rbind_Inr insert_task_def blank_attempt_def
      split: if_splits)

lemma deferred_result:
  assumes "enqueue_deferred w alias now task run_after args kwargs d = (Inr r, d')" "ids_known d"
  obtains t where "get_task (t_id t) d' = Some t" "r = build_result task t d'" "t_func t = func_path task"
    "t_args t = args" "t_kwargs t = kwargs" "t_priority t = lane_for_priority (dt_priority task)"
proof -
  define t where "t = backend_task (d_next d) now (func_path task) args kwargs TPending
      (lane_for_priority (dt_priority task))"
  obtain df da j where s: "schedule_attempt now (d_next d) 1 run_after (Some (w_cluster w)) df da (insert_task t d) =
      Inr (j, d')" "r = build_result task (set_task_status now TPending t) d'"
    using assms(1) by (auto simp: enqueue_deferred_def Let_def t_def split: sum.splits if_splits)
  have i: "t_id t = d_next d" by (simp add: t_def backend_task_def)
  have "get_task (d_next d) d' = Some (set_task_status now TPending t)"
    using get_by_upd_where [of "\<lambda>x. t_id x = d_next d" t_id "set_task_status now TPending" "d_next d" "d_tasks d @ [t]"]
      new_task_found [OF assms(2) i]
    unfolding get_task_def scheduled_first(1) [OF s(1) i] by (simp add: set_task_status_def i)
  then show thesis
    by (intro that [of "set_task_status now TPending t"])
      (simp_all add: s(2) i set_task_status_def, simp_all add: t_def backend_task_def)
qed

lemma enqueue_result:
  assumes "enqueue w validate alias now trace env post task args kwargs d = (Inr r, d')"
    and "fresh_ids w" "ids_known d" "\<And>e. ids_known e \<Longrightarrow> ids_known (env e)" "\<And>e. keeps_links e (post e)"
  obtains t where "get_task (t_id t) d' = Some t" "r = build_result task t d'" "t_func t = func_path task"
    "t_args t = args" "t_kwargs t = kwargs" "t_priority t = lane_for_priority (dt_priority task)"
proof (cases "dt_run_after task")
  case (Some x)
  then have "enqueue_deferred w alias now task x args kwargs d = (Inr r, d')"
    using assms(1) by (simp add: enqueue_def split: sum.splits)
  then show thesis using deferred_result assms(3) that by blast
next
  case None
  show thesis
  proof (cases "dt_takes_context task")
    case True
    then have "enqueue_with_context w alias now task args kwargs d = (Inr r, d')"
      using assms(1) None by (simp add: enqueue_def split: sum.splits)
    then show thesis using context_result assms(3) that by blast
  next
    case False
    then have p: "enqueue_plain w now trace env post task args kwargs d = (Inr r, d')"
      using assms(1) None by (simp add: enqueue_def split: sum.splits)
    show thesis by (rule plain_result [OF p assms(2) assms(4) [OF assms(3)] assms(5)]) (rule that)
  qed
qed


section \<open>What a worker finally calls\<close>

text \<open>
  The runners call the function their first argument names with the arguments that follow; the
  context wrapper puts the context of the named result before them. The result is the function
  called, its arguments and the result id of its context, None for a message no wrapper accepts.
\<close>

function unwrap ::
  "string \<Rightarrow> pyval list \<Rightarrow> dict \<Rightarrow> (string \<times> pyval list \<times> dict \<times> string option) option" where
  "unwrap f args kwargs =
     (if f = runner_path \<or> f = plain_wrapper_path then
        (case args of
           [PStr g, PList xs, PDict kw] \<Rightarrow> if kwargs = [] then unwrap g xs kw else None
         | _ \<Rightarrow> None)
      else if f = context_wrapper_path then
        (case args of
           [PStr g, PStr i, PStr alias, PList xs, PDict kw] \<Rightarrow>
             if kwargs = [] then Some (g, xs, kw, Some i) else None
         | _ \<Rightarrow> None)
      else Some (f, args, kwargs, None))"
  by pat_completeness auto
termination by (relation "measure (\<lambda>(f, args, kwargs). size_list size args)") auto

declare unwrap.simps [simp del]

definition wrapper :: "string \<Rightarrow> bool" where
  "wrapper f \<longleftrightarrow> f = runner_path \<or> f = plain_wrapper_path \<or> f = context_wrapper_path"

lemma unwrap_target: "\<not> wrapper f \<Longrightarrow> unwrap f args kwargs = Some (f, args, kwargs, None)"
  by (simp add: unwrap.simps wrapper_def)

lemma unwrap_runner:
  "unwrap runner_path [PStr f, PList args, PDict kwargs] [] = unwrap f args kwargs"
  "unwrap plain_wrapper_path [PStr f, PList args, PDict kwargs] [] = unwrap f args kwargs"
  by (simp_all add: unwrap.simps [of runner_path] unwrap.simps [of plain_wrapper_path])

lemma unwrap_context:
  "unwrap context_wrapper_path (context_args f i alias args kwargs) [] = Some (f, args, kwargs, Some (show_nat i))"
proof -
  have "\<not> (context_wrapper_path = runner_path \<or> context_wrapper_path = plain_wrapper_path)"
    by (simp add: context_wrapper_path_def runner_path_def plain_wrapper_path_def)
  then show ?thesis by (subst unwrap.simps) (simp add: context_args_def)
qed

text \<open>What is in the broker's queue or will be put there for the scheduled attempt.\<close>

definition will_call :: "world \<Rightarrow> id \<Rightarrow> db \<Rightarrow> (string \<times> pyval list \<times> dict \<times> string option) option list" where
  "will_call w i d =
     map (\<lambda>a. case a_q2 a of
         Some q \<Rightarrow> Option.bind (map_of (d_queue d) q) (\<lambda>m. unwrap (m_func m) (m_args m) (m_kwargs m))
       | None \<Rightarrow> Option.bind (get_task i d) (\<lambda>t.
           let m = enqueue_msg w a t in unwrap (m_func m) (m_args m) (m_kwargs m)))
       (task_attempts i d)"

lemma attempts_of_new:
  assumes "ids_known d" "d_attempts d' = d_attempts d @ [a]" "a_task a = d_next d"
  shows "task_attempts (d_next d) d' = [a]"
proof -
  have "filter (\<lambda>b. a_task b = d_next d) (d_attempts d) = []"
    using assms(1) by (auto simp: filter_empty_conv ids_known_def attempts_below_def)
  then show ?thesis using assms(2,3) by (simp add: task_attempts_def)
qed

lemma plain_calls:
  assumes "enqueue_plain w now trace env id task args kwargs d = (Inr r, d')"
    and "fresh_ids w" "ids_known (env d)" "\<not> wrapper (func_path task)"
  shows "will_call w (read_nat (re_id r)) d' = [Some (func_path task, args, kwargs, None)]"
proof -
  let ?c = "backend_call (func_path task) args kwargs (lane_for_priority (dt_priority task))"
  obtain q e where q: "async_task w (\<lambda>_. None) now trace env ?c d = (Inr q, e)"
    using assms(1) by (auto simp: enqueue_plain_def split: prod.splits sum.splits)
  from plain_inserted [OF q assms(2,3)] obtain t a m where
    a: "find (\<lambda>a. a_q2 a = Some q) (d_attempts e) = Some a" "get_task (a_task a) e = Some t"
    "m_func m = runner_path" "m_kwargs m = []" "map_of (d_queue e) q = Some m"
    "task_attempts (a_task a) e = [a]" "a_q2 a = Some q"
    "m_args m = [PStr plain_wrapper_path, PList [PStr (func_path task), PList args, PDict kwargs], PDict []]"
    by blast
  have i: "t_id t = a_task a" using get_by_SomeD [of t_id _ _ t] a(2) by (simp add: get_task_def)
  define named where "named = (\<lambda>x :: task_row. x\<lparr>t_func := func_path task, t_args := args, t_kwargs := kwargs\<rparr>)"
  have r: "d' = upd_tasks (\<lambda>x. t_id x = t_id t) named e" "r = build_result task (named t) d'"
  proof -
    have "enqueue_plain w now trace env id task args kwargs d =
        (Inr (build_result task (named t) (upd_tasks (\<lambda>x. t_id x = t_id t) named e)), upd_tasks (\<lambda>x. t_id x = t_id t) named e)"
      unfolding enqueue_plain_def q by (simp add: a(1,2) Let_def named_def)
    then show "d' = upd_tasks (\<lambda>x. t_id x = t_id t) named e" "r = build_result task (named t) d'"
      using assms(1) by simp_all
  qed
  have "d_queue d' = d_queue e" "re_id r = show_nat (t_id t)" "task_attempts (t_id t) d' = task_attempts (t_id t) e"
    by (simp add: r(1), simp add: r(2) build_result_def Let_def named_def, simp add: r(1) task_attempts_def)
  then show ?thesis
    using a by (simp add: will_call_def i unwrap_runner unwrap_target [OF assms(4)])
qed

lemma context_calls:
  assumes "enqueue_with_context w alias now task args kwargs d = (Inr r, d')" "fresh_ids w" "ids_known d"
  shows "will_call w (read_nat (re_id r)) d' = [Some (func_path task, args, kwargs, Some (re_id r))]"
proof -
  obtain q m a where q: "w_enqueue w (d_queue d) m = Some q" "m_func m = context_wrapper_path" "m_kwargs m = []"
    "m_args m = context_args (func_path task) (d_next d) alias args kwargs"
    "d_queue d' = d_queue d @ [(q, m)]" "d_attempts d' = d_attempts d @ [a]" "a_task a = d_next d" "a_q2 a = Some q"
    "re_id r = show_nat (d_next d)"
    using assms(1) by (auto simp: enqueue_with_context_def Let_def insert_attempt_def rbind_Inr q2_async_task_def
        insert_task_def blank_attempt_def build_result_def backend_task_def split: sum.splits option.splits if_splits)
  have "q \<notin> fst ` set (d_queue d)" using assms(2) q(1) by (auto simp: fresh_ids_def)
  then have "map_of (d_queue d) q = None" by (simp add: map_of_eq_None_iff)
  then have "map_of (d_queue d') q = Some m" by (simp add: q(5) map_add_def)
  then show ?thesis
    using q attempts_of_new [OF assms(3) q(6,7)] by (simp add: will_call_def unwrap_context)
qed

lemma deferred_calls:
  assumes "enqueue_deferred w alias now task x args kwargs d = (Inr r, d')" "ids_known d"
    and "\<not> wrapper (func_path task)"
  shows "will_call w (read_nat (re_id r)) d' =
    [Some (func_path task, args, kwargs, if dt_takes_context task then Some (re_id r) else None)]"
proof -
  define t where "t = backend_task (d_next d) now (func_path task) args kwargs TPending
      (lane_for_priority (dt_priority task))"
  define c where "c = (if dt_takes_context task
    then (Some context_wrapper_path, Some (context_args (func_path task) (d_next d) alias args kwargs)) else (None, None))"
  obtain j where s: "schedule_attempt now (d_next d) 1 x (Some (w_cluster w)) (fst c) (snd c) (insert_task t d) =
      Inr (j, d')" "r = build_result task (set_task_status now TPending t) d'"
    using assms(1) by (auto simp: enqueue_deferred_def Let_def t_def c_def split: sum.splits if_splits)
  have i: "t_id t = d_next d" by (simp add: t_def backend_task_def)
  from scheduled_first(2) [OF s(1) i] obtain a where a: "d_attempts d' = d_attempts d @ [a]" "a_task a = d_next d"
    "a_dispatch_func a = fst c" "a_dispatch_args a = snd c" "a_q2 a = None" by blast
  have "get_task (d_next d) d' = Some (set_task_status now TPending t)"
    using get_by_upd_where [of "\<lambda>x. t_id x = d_next d" t_id "set_task_status now TPending" "d_next d" "d_tasks d @ [t]"]
      new_task_found [OF assms(2) i]
    unfolding get_task_def scheduled_first(1) [OF s(1) i] by (simp add: set_task_status_def i)
  moreover have "re_id r = show_nat (d_next d)" by (simp add: s(2) build_result_def Let_def set_task_status_def i)
  moreover have "m_kwargs (enqueue_msg w a u) = []" for u by (simp add: enqueue_msg_def Let_def)
  moreover have "unwrap (m_func (enqueue_msg w a u)) (m_args (enqueue_msg w a u)) [] =
      Some (func_path task, args, kwargs, if dt_takes_context task then Some (show_nat (d_next d)) else None)"
    if "t_func u = func_path task" "t_args u = args" "t_kwargs u = kwargs" for u
    using that unwrap_context unwrap_runner(1) unwrap_target [OF assms(3)]
    by (auto simp: enqueue_msg_def Let_def a(3,4) c_def or_str_def context_wrapper_path_def
        default_dispatch_func_def runner_path_def)
  ultimately show ?thesis using attempts_of_new [OF assms(2) a(1,2)] a(5)
    by (simp add: will_call_def Let_def set_task_status_def t_def backend_task_def)
qed


section \<open>Concrete inputs\<close>

definition backend_world :: world where
  "backend_world = demo_world\<lparr>w_enqueue := (\<lambda>q m. Some (Suc (fold max (map fst q) 0)))\<rparr>"

lemma backend_world_fresh: "fresh_ids backend_world"
proof -
  have le: "n \<le> fold max ns n" for n :: nat and ns
  proof (induction ns arbitrary: n)
    case (Cons a ns)
    show ?case using Cons [of "max a n"] by simp
  qed simp
  have mem: "x \<in> set ns \<Longrightarrow> x \<le> fold max ns n" for x n :: nat and ns
    by (induction ns arbitrary: n) (auto intro: order_trans [OF _ le])
  have "i \<in> fst ` set q \<Longrightarrow> i < Suc (fold max (map fst q) 0)" for i and q :: queue
    by (metis mem le_imp_less_Suc set_map)
  then show ?thesis by (auto simp: fresh_ids_def backend_world_def)
qed

definition demo_dtask :: "time option \<Rightarrow> bool \<Rightarrow> dtask" where
  "demo_dtask r c = \<lparr>dt_func = \<lparr>pf_id = 5, pf_module = ''app'', pf_name = ''work''\<rparr>, dt_priority = 42,
     dt_run_after = r, dt_takes_context = c\<rparr>"

abbreviation demo_enqueue :: "time option \<Rightarrow> bool \<Rightarrow> dresult res \<times> db" where
  "demo_enqueue r c \<equiv> enqueue backend_world (\<lambda>_. Inr ()) ''default'' 9 None id id (demo_dtask r c) [PInt 1] [] empty_db"

lemma empty_known: "ids_known empty_db"
  by (simp add: ids_known_def attempts_below_def empty_db_def)

lemma demo_accepted:
  "map_sum id re_id (fst (demo_enqueue None True)) = Inr ''100''"
  "map_sum id re_id (fst (demo_enqueue (Some 60) True)) = Inr ''100''"
  by code_simp+



text \<open>
  A task that takes a context loses it when it is requeued from the dead letters: the new attempt
  has no dispatch function, so the worker calls the target without its context.
\<close>

lemma requeue_drops_task_context:
  "rbind (fst (demo_enqueue None True)) (\<lambda>_.
     let d = upd_tasks (\<lambda>_. True) (set_task_status 20 TFailed) (snd (demo_enqueue None True)) in
     rbind (case get_task 100 d of Some t \<Rightarrow> Inr t | None \<Rightarrow> Inl DoesNotExist) (\<lambda>t. rbind (requeue 30 t d) (\<lambda>(_, d). Inr (will_call backend_world 100 d)))) =
   Inr [Some (''app.work'', [PInt 1], [], Some ''100''), Some (''app.work'', [PInt 1], [], None)]"
  by code_simp

text \<open>
  A context whose result cannot be looked up leaves the lease open: nothing marks the attempt as
  returned and its heartbeat goes on.
\<close>

lemma failed_lookup_keeps_lease:
  assumes "guard_delivery w pid thread now p d = (Inr (), p', e)" "imports path = Inl x"
  shows "run_task_with_context w pid thread now ended validate imports target path i args kwargs p d = (Inl x, p', e)"
  using assms by (simp add: run_task_with_context_def)

end
