(* ===== verification/Qraft_Results.thy ===== *)
theory Qraft_Results
  imports Qraft_Workflow Qraft_Backend
begin

text \<open>
  What callers and dashboards see of running work.
  \<^item> The results of chains, iters and batches (\<^verbatim>\<open>qraft/results.py\<close>) and the loop that waits
    for one (\<^verbatim>\<open>_poll_until_terminal\<close>, \<^verbatim>\<open>qraft/base.py\<close>). The status a poll reads is a
    function of the time it reads it, and \<open>lag k\<close> is what round \<open>k\<close> takes beyond its sleep.
  \<^item> The payloads of the signals (\<^verbatim>\<open>qraft/signals.py\<close>) and the snapshot of a graph
    (\<^verbatim>\<open>qraft/graphs.py\<close>). Ids and instants stand for their text.
\<close>

section \<open>Results of tasks and workflows\<close>

record task_result =
  rs_task :: id
  rs_func :: string
  rs_success :: bool
  rs_result :: "string option"
  rs_error :: "string option"
  rs_attempts :: nat

text \<open>A success that is not known yet is falsy, like a failure.\<close>

definition from_qraft_task :: "task_row \<Rightarrow> db \<Rightarrow> task_result" where
  "from_qraft_task t d =
     (let latest = latest_attempt (t_id t) d;
          ok = (case latest of Some a \<Rightarrow> a_success a = Some True | None \<Rightarrow> False);
          value = Option.bind latest (\<lambda>a. Option.bind (attempt_q2 a d) q_result) in
      \<lparr>rs_task = t_id t, rs_func = t_func t, rs_success = ok,
       rs_result = (if ok then value else None), rs_error = (if ok then None else given value),
       rs_attempts = length (task_attempts (t_id t) d)\<rparr>)"

definition result_succeeded :: "task_result list \<Rightarrow> task_result list" where
  "result_succeeded rs = filter rs_success rs"

definition result_failed :: "task_result list \<Rightarrow> task_result list" where
  "result_failed rs = filter (\<lambda>r. \<not> rs_success r) rs"

definition result_values :: "task_result list \<Rightarrow> string option list" where
  "result_values rs = map rs_result rs"

definition result_errors :: "task_result list \<Rightarrow> (id \<times> string \<times> string option \<times> nat) list" where
  "result_errors rs =
     map (\<lambda>r. (rs_task r, rs_func r, rs_error r, rs_attempts r)) (filter (\<lambda>r. \<not> rs_success r) rs)"

section \<open>Waiting for a workflow\<close>

definition poll_initial_interval :: secs where
  "poll_initial_interval = 1/20"

definition poll_max_interval :: secs where
  "poll_max_interval = 2"

definition poll_backoff_factor :: rat where
  "poll_backoff_factor = 3/2"

definition poll_stop :: "wf_status \<Rightarrow> bool" where
  "poll_stop s \<longleftrightarrow> terminal_wf s \<or> s = WWaiting"

text \<open>
  One round is one unit of \<open>fuel\<close>. The result, with the time at which it is known, is None when the
  fuel is used up.
\<close>

fun poll_loop ::
  "nat \<Rightarrow> (nat \<Rightarrow> secs) \<Rightarrow> (time \<Rightarrow> wf_status) \<Rightarrow> rat \<Rightarrow> time \<Rightarrow> nat \<Rightarrow> time \<Rightarrow> secs \<Rightarrow> (unit res \<times> time) option" where
  "poll_loop fuel lag status timeout_ms began k t interval =
     (if poll_stop (status t) then Some (Inr (), t)
      else if timeout_ms < (t - began) * 1000 then Some (Inl TimeoutError, t)
      else (case fuel of
          0 \<Rightarrow> None
        | Suc f \<Rightarrow> poll_loop f lag status timeout_ms began (k + 1) (t + interval + lag k)
            (min (interval * poll_backoff_factor) poll_max_interval)))"

declare poll_loop.simps [simp del]

definition poll_until_terminal ::
  "nat \<Rightarrow> (nat \<Rightarrow> secs) \<Rightarrow> (time \<Rightarrow> wf_status) \<Rightarrow> rat option \<Rightarrow> time \<Rightarrow> (unit res \<times> time) option" where
  "poll_until_terminal fuel lag status timeout_ms began =
     (case timeout_ms of
        None \<Rightarrow> Some (Inr (), began)
      | Some ms \<Rightarrow>
          if ms = 0 then Some (Inr (), began)
          else poll_loop fuel lag status ms began 0 began poll_initial_interval)"

definition par_members :: "id \<Rightarrow> wf_type \<Rightarrow> db \<Rightarrow> task_row list" where
  "par_members i ty d =
     sort_key (\<lambda>t. - t_created t)
       (filter (\<lambda>t. (if ty = IterWf then t_iter t else t_batch t) = Some i) (d_tasks d))"

text \<open>The results are read from the database as it is when the wait is over.\<close>

definition par_result ::
  "nat \<Rightarrow> (nat \<Rightarrow> secs) \<Rightarrow> (time \<Rightarrow> wf_status) \<Rightarrow> (time \<Rightarrow> db) \<Rightarrow> rat option \<Rightarrow> time \<Rightarrow> id \<Rightarrow> wf_type \<Rightarrow>
   task_result list res option" where
  "par_result fuel lag status dbs wait began i ty =
     map_option (\<lambda>(r, t). rbind r (\<lambda>_.
         Inr (map (\<lambda>x. from_qraft_task x (dbs t)) (par_members i ty (dbs t)))))
       (poll_until_terminal fuel lag status wait began)"

text \<open>The steps up to the first that was never queued.\<close>

fun queued_steps :: "step_row list \<Rightarrow> db \<Rightarrow> task_row list" where
  "queued_steps [] d = []"
| "queued_steps (s # ss) d =
     (case Option.bind (s_task s) (\<lambda>i. get_task i d) of
        None \<Rightarrow> []
      | Some t \<Rightarrow> t # queued_steps ss d)"

definition chain_results :: "id \<Rightarrow> db \<Rightarrow> task_result list" where
  "chain_results c d =
     map (\<lambda>t. from_qraft_task t d)
       (queued_steps (sort_key s_index (filter (\<lambda>s. s_chain s = c) (d_steps d))) d)"

definition chain_result ::
  "nat \<Rightarrow> (nat \<Rightarrow> secs) \<Rightarrow> (time \<Rightarrow> wf_status) \<Rightarrow> (time \<Rightarrow> db) \<Rightarrow> rat option \<Rightarrow> time \<Rightarrow> id \<Rightarrow>
   task_result list res option" where
  "chain_result fuel lag status dbs wait began c =
     map_option (\<lambda>(r, t). rbind r (\<lambda>_. Inr (chain_results c (dbs t))))
       (poll_until_terminal fuel lag status wait began)"

section \<open>Payloads\<close>

definition task_status_name :: "task_status \<Rightarrow> string" where
  "task_status_name s = (case s of TPending \<Rightarrow> ''pending'' | TRunning \<Rightarrow> ''running''
     | TSucceeded \<Rightarrow> ''succeeded'' | TFailed \<Rightarrow> ''failed'' | TExhausted \<Rightarrow> ''exhausted'')"

definition attempt_payload :: "attempt_row \<Rightarrow> task_row \<Rightarrow> string option \<Rightarrow> db \<Rightarrow> dict" where
  "attempt_payload a t result d =
     [(''task_id'', PInt (int (t_id t))), (''attempt_id'', PInt (int (a_id a))),
      (''attempt_number'', PInt (int (a_number a))), (''func'', PStr (t_func t)),
      (''status'', PStr (task_status_name (t_status t))), (''outcome'', js result),
      (''exception_class'', js (a_exc a)), (''graph_id'', jid (t_graph_id t)),
      (''node_key'', js (t_node t)),
      (''generation'', jid (Option.bind (t_graph_node t) (\<lambda>n. map_option n_generation (get_node n d)))),
      (''subject_type'', js (t_subject_type t)), (''subject_id'', js (t_subject_id t)),
      (''cluster'', js (a_cluster a)), (''execution_count'', PInt (int (a_exec_count a))),
      (''redelivered'', PBool (1 < a_exec_count a \<or> a_exc a = Some ''RedeliveredAttempt'')),
      (''enqueued_at'', jtime (a_enqueued_at a)), (''date_started'', jtime (a_started a)),
      (''date_completed'', jtime (a_completed a))]"

definition workflow_payload ::
  "id \<Rightarrow> string \<Rightarrow> wf_status \<Rightarrow> id option \<Rightarrow> string option \<Rightarrow> string option \<Rightarrow> string option \<Rightarrow> time option \<Rightarrow> dict"
where
  "workflow_payload i ty s graph node st si settled =
     [(''workflow_id'', PInt (int i)), (''workflow_type'', PStr ty), (''outcome'', PStr (wf_status_name s)),
      (''graph_id'', jid graph), (''node'', js node), (''subject_type'', js st), (''subject_id'', js si),
      (''settled_at'', jtime settled)]"

definition node_payload :: "node_row \<Rightarrow> graph_row \<Rightarrow> dict" where
  "node_payload n g =
     [(''graph_id'', PInt (int (g_id g))), (''node_key'', PStr (n_key n)),
      (''generation'', PInt (int (n_generation n))), (''outcome'', PStr (status_name (n_status n))),
      (''subject_type'', js (g_subject_type g)), (''subject_id'', js (g_subject_id g)),
      (''kind'', js (g_kind g)), (''settled_at'', jtime (n_settled_at n))]"

definition graph_payload :: "graph_row \<Rightarrow> db \<Rightarrow> dict" where
  "graph_payload g d =
     [(''graph_id'', PInt (int (g_id g))), (''subject_type'', js (g_subject_type g)),
      (''subject_id'', js (g_subject_id g)), (''kind'', js (g_kind g)), (''revision'', js (g_revision g)),
      (''outcome'', PStr (graph_status_name (g_status g))), (''generation'', PInt (int (g_generation g))),
      (''nodes'', PDict (map (\<lambda>n. (n_key n, PStr (status_name (n_status n)))) (ordered_nodes (g_id g) d))),
      (''previous_graph_id'', jid (g_previous g)), (''date_started'', PFloat (g_started g)),
      (''settled_at'', jtime (g_settled_at g)), (''overdue_flagged_at'', jtime (g_overdue_at g))]"

section \<open>The snapshot of a graph\<close>

definition jdict :: "dict option \<Rightarrow> pyval" where
  "jdict d = (case d of Some x \<Rightarrow> PDict x | None \<Rightarrow> PNone)"

definition snapshot_attempt :: "time \<Rightarrow> attempt_row \<Rightarrow> pyval" where
  "snapshot_attempt now a = PDict
     [(''attempt_id'', PInt (int (a_id a))), (''attempt_number'', PInt (int (a_number a))),
      (''success'', case a_success a of Some b \<Rightarrow> PBool b | None \<Rightarrow> PNone),
      (''exception_class'', js (a_exc a)),
      (''duration_s'', jtime (seconds_between (a_started a) (a_completed a))),
      (''progress'', jdict (a_progress a)),
      (''progress_advanced_age_s'', jtime (seconds_between (a_advanced_at a) (Some now))),
      (''stall_suspected'', PBool (a_stall_at a \<noteq> None)), (''usage'', jdict (a_usage a))]"

definition node_attempts :: "node_row \<Rightarrow> db \<Rightarrow> attempt_row list" where
  "node_attempts n d =
     concat (map (\<lambda>t. task_attempts (t_id t) d)
       (sort_key t_created (filter (\<lambda>t. t_graph_node t = Some (n_id n)) (d_tasks d))))"

definition node_cluster :: "graph_row \<Rightarrow> node_row \<Rightarrow> pyval" where
  "node_cluster g n =
     (case dict_get (n_options n) ''cluster'' of
        Some v \<Rightarrow> if truthy v then v else js (g_cluster g)
      | None \<Rightarrow> js (g_cluster g))"

definition snapshot_node :: "world \<Rightarrow> time \<Rightarrow> graph_row \<Rightarrow> db \<Rightarrow> node_row \<Rightarrow> pyval res" where
  "snapshot_node w now g d n =
     rbind (case n_task n of Some t \<Rightarrow> aggregate_usage w t d | None \<Rightarrow> Inr []) (\<lambda>usage.
     Inr (PDict
       [(''key'', PStr (n_key n)), (''depth'', PInt (int (n_depth n))),
        (''after'', PList (map PStr (n_after n))), (''status'', PStr (status_name (n_status n))),
        (''generation'', PInt (int (n_generation n))), (''cluster'', node_cluster g n),
        (''recovery'', PStr (n_recovery n)), (''dispatched_at'', jtime (n_dispatched_at n)),
        (''settled_at'', jtime (n_settled_at n)), (''receipt'', jdict (n_receipt n)),
        (''attempts'', PList (map (snapshot_attempt now) (node_attempts n d))),
        (''usage'', PDict usage), (''blocked_by'', PList (map PStr (blocked_by (g_id g) d n)))]))"

fun snapshot_nodes :: "world \<Rightarrow> time \<Rightarrow> graph_row \<Rightarrow> db \<Rightarrow> node_row list \<Rightarrow> pyval list res" where
  "snapshot_nodes w now g d [] = Inr []"
| "snapshot_nodes w now g d (n # ns) =
     rbind (snapshot_node w now g d n) (\<lambda>v.
     rbind (snapshot_nodes w now g d ns) (\<lambda>vs. Inr (v # vs)))"

definition snapshot :: "world \<Rightarrow> time \<Rightarrow> id \<Rightarrow> db \<Rightarrow> dict res" where
  "snapshot w now i d =
     rbind (locked i d) (\<lambda>g.
     rbind (snapshot_nodes w now g d (ordered_nodes (g_id g) d)) (\<lambda>nodes.
     rbind (build_summary w g (g_status g) now d) (\<lambda>summary.
     Inr [(''graph_id'', PInt (int (g_id g))), (''status'', PStr (graph_status_name (g_status g))),
          (''generation'', PInt (int (g_generation g))), (''subject_type'', js (g_subject_type g)),
          (''subject_id'', js (g_subject_id g)), (''kind'', js (g_kind g)), (''revision'', js (g_revision g)),
          (''metadata'', case g_metadata g of Some m \<Rightarrow> m | None \<Rightarrow> PNone), (''budgets'', jdict (g_budgets g)),
          (''date_started'', PFloat (g_started g)), (''settled_at'', jtime (g_settled_at g)),
          (''frontier'', PList (map PStr (snapshot_frontier (g_id g) d))), (''nodes'', PList nodes),
          (''usage'', case dict_get summary ''usage'' of Some u \<Rightarrow> u | None \<Rightarrow> PNone)])))"

text \<open>The frontier a snapshot shows is what the next dispatch takes, in its order.\<close>

lemma snapshot_frontier_is_ready:
  assumes "snapshot w now i d = Inr s"
  shows "dict_get s ''frontier'' = Some (PList (map (\<lambda>n. PStr (n_key n)) (ready_nodes i d)))"
proof -
  obtain g where g: "get_graph i d = Some g" "dict_get s ''frontier'' = Some (PList (map PStr (snapshot_frontier (g_id g) d)))"
    using assms by (auto simp: snapshot_def locked_def rbind_Inr split: option.splits)
  have "g_id g = i" using get_by_SomeD [of g_id i _ g] g(1) by (simp add: get_graph_def)
  moreover have "n_status n = NPending \<and> blocked_by i d n = [] \<longleftrightarrow> n_status n = NPending \<and> deps_released i d n" for n
    by (auto simp: blocked_by_def deps_released_def filter_empty_conv list_all_iff)
  ultimately show ?thesis by (simp add: g(2) snapshot_frontier_def ready_nodes_def comp_def)
qed

section \<open>The wait ends\<close>

lemma poll_loop_ends:
  assumes "\<And>k. 0 \<le> lag k \<and> lag k \<le> L" "1/20 \<le> interval" "interval \<le> 2"
    and "ms / 1000 < t - began + of_nat fuel / 20"
  shows "\<exists>r t'. poll_loop fuel lag status ms began k t interval = Some (r, t') \<and>
     t' \<le> max t (began + ms / 1000 + 2 + L) \<and> (r = Inr () \<longleftrightarrow> poll_stop (status t')) \<and>
     (\<forall>s. (\<forall>u \<ge> s. poll_stop (status u)) \<and> s \<le> began + ms / 1000 \<longrightarrow>
        r = Inr () \<and> t' \<le> max t (s + 2 + L))"
  using assms(2-4)
proof (induction fuel arbitrary: k t interval)
  case 0
  show ?case
  proof (cases "poll_stop (status t)")
    case False
    have "\<not> s \<le> t" if "\<forall>u \<ge> s. poll_stop (status u)" for s using that False by blast
    then show ?thesis using 0 False by (fastforce simp: poll_loop.simps [of 0] field_simps)
  qed (simp add: poll_loop.simps)
next
  case (Suc fuel)
  let ?t = "t + interval + lag k"
  show ?case
  proof (cases "poll_stop (status t)")
    case False
    have late: "t < s" if settled: "\<forall>u \<ge> s. poll_stop (status u)" for s
    proof (rule ccontr)
      assume "\<not> t < s"
      then show False using settled False by simp
    qed
    show ?thesis
    proof (cases "ms < (t - began) * 1000")
      case True
      then have "\<not> s \<le> began + ms / 1000" if "\<forall>u \<ge> s. poll_stop (status u)" for s
        using late [OF that] by (simp add: field_simps)
      then show ?thesis using True False by (subst poll_loop.simps) auto
    next
      case early: False
      let ?i = "min (interval * poll_backoff_factor) poll_max_interval"
      have i: "1/20 \<le> ?i" "?i \<le> 2" using Suc.prems(1) by (auto simp: poll_backoff_factor_def poll_max_interval_def)
      have "ms / 1000 < ?t - began + of_nat fuel / 20"
        using Suc.prems(1,3) assms(1) [of k] by (simp add: field_simps)
      from Suc.IH [OF i this, of "k + 1"] obtain r t' where
        r: "poll_loop fuel lag status ms began (k + 1) ?t ?i = Some (r, t')"
        "t' \<le> max ?t (began + ms / 1000 + 2 + L)" "r = Inr () \<longleftrightarrow> poll_stop (status t')"
        "\<forall>s. (\<forall>u \<ge> s. poll_stop (status u)) \<and> s \<le> began + ms / 1000 \<longrightarrow> r = Inr () \<and> t' \<le> max ?t (s + 2 + L)"
        by metis
      have "?t \<le> t + 2 + L" using Suc.prems(2) assms(1) [of k] by simp
      moreover have "t \<le> began + ms / 1000" using early by (simp add: field_simps)
      ultimately have "t' \<le> max t (began + ms / 1000 + 2 + L)" using r(2) by linarith
      moreover have "r = Inr () \<and> t' \<le> max t (s + 2 + L)"
        if "\<forall>u \<ge> s. poll_stop (status u)" "s \<le> began + ms / 1000" for s
      proof -
        have "r = Inr ()" "t' \<le> max ?t (s + 2 + L)" using r(4) that by blast+
        moreover have "?t < s + 2 + L" using late [OF that(1)] \<open>?t \<le> t + 2 + L\<close> by linarith
        ultimately show ?thesis by (simp add: max.absorb2 le_max_iff_disj)
      qed
      ultimately show ?thesis using r(1,3) False early by (subst poll_loop.simps) auto
    qed
  qed (simp add: poll_loop.simps)
qed

text \<open>
  C34: waiting for a result ends. Whatever the workflow does, \<^verbatim>\<open>result(wait)\<close>
  is back at most two seconds (and the latency of a round) after its timeout, with a
  TimeoutError only if the workflow was still going on; a workflow that settles, or parks on an
  approval, before the timeout is noticed within two seconds (and that latency). One round per
  fifty milliseconds of the timeout is fuel enough.
\<close>

theorem poll_returns:
  assumes "\<And>k. 0 \<le> lag k \<and> lag k \<le> L" "0 < ms" "ms / 50 < of_nat fuel"
  shows "\<exists>r t'. poll_until_terminal fuel lag status (Some ms) began = Some (r, t') \<and>
     t' \<le> began + ms / 1000 + 2 + L \<and> (r = Inr () \<longleftrightarrow> poll_stop (status t')) \<and>
     (\<forall>s. (\<forall>u \<ge> s. poll_stop (status u)) \<and> s \<le> began + ms / 1000 \<longrightarrow>
        r = Inr () \<and> t' \<le> max began (s + 2 + L))"
proof -
  have "0 \<le> L" using assms(1) [of 0] by linarith
  have "ms / 1000 < began - began + of_nat fuel / 20" using assms(3) by (simp add: field_simps)
  from poll_loop_ends [OF assms(1) _ _ this, where interval = poll_initial_interval and k = 0 and status = status]
  show ?thesis using assms(2) \<open>0 \<le> L\<close>
    by (fastforce simp: poll_until_terminal_def poll_initial_interval_def max_def split: if_splits)
qed

text \<open>A workflow that succeeds at 0.2 s, waited for with a timeout of half a second.\<close>

definition demo_status :: "time \<Rightarrow> wf_status" where
  "demo_status t = (if t < 1/5 then WRunning else WSucceeded)"

theorem poll_returns_witness:
  "\<exists>t'. poll_until_terminal 11 (\<lambda>_. 1/100) demo_status (Some 500) 0 = Some (Inr (), t') \<and> t' \<le> 1/5 + 2 + 1/100"
proof -
  have settled: "\<forall>u \<ge> 1/5. poll_stop (demo_status u)"
    by (simp add: demo_status_def poll_stop_def terminal_wf_def)
  obtain r t' where "poll_until_terminal 11 (\<lambda>_. 1/100) demo_status (Some 500) 0 = Some (r, t')"
    "\<forall>s. (\<forall>u \<ge> s. poll_stop (demo_status u)) \<and> s \<le> 0 + 500 / 1000 \<longrightarrow> r = Inr () \<and> t' \<le> max 0 (s + 2 + 1/100)"
    using poll_returns [of "\<lambda>_. 1/100" "1/100" 500 11 demo_status 0] by auto
  then show ?thesis using settled by (auto dest: spec [of _ "1/5"] simp del: max_less_iff_conj)
qed

end
