(* ===== verification/Qraft_Metrics.thy ===== *)
theory Qraft_Metrics
  imports Qraft_Graph
begin

text \<open>
  What the program reports about itself.
  \<^item> The metrics sink (\<^verbatim>\<open>qraft/metrics/__init__.py\<close>): the sink is application code, a
    parameter that may raise; \<open>meter\<close> is the process's sink state with its health counter.
  \<^item> The gauges (\<^verbatim>\<open>qraft/metrics/gauges.py\<close>), as the list of values they emit.
  \<^item> The queries of the dashboard (\<^verbatim>\<open>qraft/dashboard/metrics.py\<close>). Durations are exact
    here; the code has them as floats.
\<close>

section \<open>The sink\<close>

definition forbidden_labels :: "string list" where
  "forbidden_labels = [''subject_id'', ''graph_id'', ''graph'', ''task_id'', ''attempt_id'', ''revision'',
     ''metadata'', ''generation'']"

definition log_interval :: secs where
  "log_interval = 60"

record health =
  hl_failures :: nat
  hl_last_error :: "string option"
  hl_last_logged :: "time option"

definition new_health :: health where
  "new_health = \<lparr>hl_failures = 0, hl_last_error = None, hl_last_logged = None\<rparr>"

text \<open>The flag says whether the failure is logged.\<close>

definition record_failure :: "time \<Rightarrow> string \<Rightarrow> health \<Rightarrow> bool \<times> health" where
  "record_failure now e h =
     (let log = (case hl_last_logged h of None \<Rightarrow> True | Some t \<Rightarrow> log_interval \<le> now - t) in
      (log, h\<lparr>hl_failures := hl_failures h + 1, hl_last_error := Some e,
              hl_last_logged := (if log then Some now else hl_last_logged h)\<rparr>))"

definition health_snapshot :: "health \<Rightarrow> nat \<times> string option" where
  "health_snapshot h = (hl_failures h, hl_last_error h)"

type_synonym metric_labels = "(string \<times> string option) list"

definition check_labels :: "metric_labels \<Rightarrow> (string \<times> string) list res" where
  "check_labels ls =
     rbind (guard (list_all (\<lambda>(k, v). k \<notin> set forbidden_labels) ls) (ValueError ''metric labels must never carry''))
       (\<lambda>_. Inr (map (\<lambda>(k, v). (k, case v of Some s \<Rightarrow> s | None \<Rightarrow> [])) ls))"

text \<open>
  \<open>mt_build\<close> imports and instantiates the configured class; \<open>mt_call\<close> is a method of the sink, which
  returns the sink as it leaves it and the text of the exception it raised. \<open>mt_warnings\<close> is the log.
\<close>

datatype instrument = Counter | Histogram | Gauge

record 's sink_class =
  sc_build :: "string + 's"
  sc_call :: "instrument \<Rightarrow> string \<Rightarrow> rat \<Rightarrow> (string \<times> string) list \<Rightarrow> 's \<Rightarrow> string option \<times> 's"

record 's meter =
  mt_sink :: "'s option"
  mt_health :: health
  mt_warnings :: "time list"

definition get_sink :: "'s sink_class \<Rightarrow> 's meter \<Rightarrow> string + 's" where
  "get_sink c m = (case mt_sink m of Some s \<Rightarrow> Inr s | None \<Rightarrow> sc_build c)"

definition reset_sink :: "'s meter \<Rightarrow> 's meter" where
  "reset_sink m = m\<lparr>mt_sink := None, mt_health := new_health\<rparr>"

definition sink_failed :: "time \<Rightarrow> string \<Rightarrow> 's meter \<Rightarrow> 's meter" where
  "sink_failed now e m =
     (let (log, h) = record_failure now e (mt_health m) in
      m\<lparr>mt_health := h, mt_warnings := (if log then mt_warnings m @ [now] else mt_warnings m)\<rparr>)"

definition emit_metric ::
  "'s sink_class \<Rightarrow> time \<Rightarrow> instrument \<Rightarrow> string \<Rightarrow> rat \<Rightarrow> metric_labels \<Rightarrow> 's meter \<Rightarrow> 's meter" where
  "emit_metric c now i name v ls m =
     (case get_sink c m of
        Inl e \<Rightarrow> sink_failed now e m
      | Inr s \<Rightarrow>
          (let m = m\<lparr>mt_sink := Some s\<rparr> in
           case check_labels ls of
             Inl e \<Rightarrow> sink_failed now ''ValueError'' m
           | Inr ls \<Rightarrow>
               (case sc_call c i name v ls s of
                  (None, s) \<Rightarrow> m\<lparr>mt_sink := Some s\<rparr>
                | (Some e, s) \<Rightarrow> sink_failed now e (m\<lparr>mt_sink := Some s\<rparr>))))"

definition null_sink :: "unit sink_class" where
  "null_sink = \<lparr>sc_build = Inr (), sc_call = (\<lambda>_ _ _ _ s. (None, s))\<rparr>"

section \<open>Gauges\<close>

type_synonym gauge_value = "string \<times> rat \<times> metric_labels"

definition least_of :: "time list \<Rightarrow> time option" where
  "least_of ts = (case ts of [] \<Rightarrow> None | t # us \<Rightarrow> Some (fold min us t))"

definition age :: "time option \<Rightarrow> time \<Rightarrow> rat" where
  "age t now = (case seconds_between t (Some now) of Some s \<Rightarrow> s | None \<Rightarrow> 0)"

text \<open>\<open>queue\<close>: the list key and the rows of the ORM broker, None when another broker delivers.\<close>

definition queue_gauges :: "string \<Rightarrow> time \<Rightarrow> (string \<times> orm_row list) option \<Rightarrow> gauge_value list" where
  "queue_gauges cluster now queue =
     (case queue of
        None \<Rightarrow> []
      | Some (base, rows) \<Rightarrow>
          (let ready = filter (\<lambda>r. o_key r \<in> set (lanes base) \<and> o_lock r \<le> now) rows in
           [(''qraft.queue.depth'', of_nat (length ready), [(''cluster'', Some cluster)]),
            (''qraft.queue.oldest_ready_age'', age (least_of (map o_lock ready)) now, [(''cluster'', Some cluster)])]))"

definition graph_gauges :: "time \<Rightarrow> db \<Rightarrow> gauge_value list" where
  "graph_gauges now d =
     (let open_graphs = filter (\<lambda>g. g_status g = GRunning) (d_graphs d) in
      map (\<lambda>ty. (''qraft.graph.open_age_max'',
          age (least_of (map g_started (filter (\<lambda>g. g_subject_type g = ty) open_graphs))) now,
          [(''subject_type'', ty)]))
        (remdups (map g_subject_type open_graphs)))"

definition emit_gauges :: "world \<Rightarrow> time \<Rightarrow> (string \<times> orm_row list) option \<Rightarrow> db \<Rightarrow> gauge_value list" where
  "emit_gauges w now queue d =
     queue_gauges (w_cluster w) now queue @
     [(''qraft.attempt.active'', of_nat (length (filter (\<lambda>a. a_success a = None \<and> a_started a \<noteq> None \<and>
          a_cluster a = Some (w_cluster w)) (d_attempts d))), [(''cluster'', Some (w_cluster w))]),
      (''qraft.scheduler.overdue'', of_nat (length (filter (\<lambda>a. a_state a = Scheduled \<and>
          (case a_not_before a of Some t \<Rightarrow> t < now | None \<Rightarrow> False)) (d_attempts d))), []),
      (''qraft.attempt.unrouted_age_max'', age (least_of (map the (filter (\<lambda>t. t \<noteq> None)
          (map a_completed (filter (\<lambda>a. a_success a \<noteq> None \<and> \<not> a_routed a) (d_attempts d)))))) now, [])] @
     graph_gauges now d"

section \<open>The dashboard's queries\<close>

definition windows :: "(string \<times> nat) list" where
  "windows = [(''15m'', 900), (''1h'', 3600), (''24h'', 86400)]"

definition resolve_window :: "string option \<Rightarrow> string" where
  "resolve_window name = (case name of Some n \<Rightarrow> if map_of windows n \<noteq> None then n else ''1h'' | None \<Rightarrow> ''1h'')"

definition sample_cap :: nat where
  "sample_cap = 5000"

definition function_cap :: nat where
  "function_cap = 20"

definition exception_cap :: nat where
  "exception_cap = 8"

definition sparkline_bars :: nat where
  "sparkline_bars = 30"

text \<open>\<^verbatim>\<open>round(x, n)\<close>: to even on a tie.\<close>

definition py_round :: "nat \<Rightarrow> rat \<Rightarrow> rat" where
  "py_round n x =
     (let s = x * 10 ^ n; f = \<lfloor>s\<rfloor>; r = s - of_int f in
      of_int (if r < 1/2 \<or> (r = 1/2 \<and> even f) then f else f + 1) / 10 ^ n)"

definition rank_index :: "rat \<Rightarrow> nat \<Rightarrow> nat" where
  "rank_index q n = nat (max 0 (\<lceil>q * of_nat n\<rceil> - 1))"

definition percentile :: "rat list \<Rightarrow> rat \<Rightarrow> rat option" where
  "percentile values q = (if values = [] then None else Some (py_round 3 (values ! rank_index q (length values))))"

record stats =
  st_n :: nat
  st_p50 :: "rat option"
  st_p95 :: "rat option"

definition stats_of :: "rat option list \<Rightarrow> stats" where
  "stats_of deltas =
     (let vs = sort (map the (filter (\<lambda>x. x \<noteq> None) deltas)) in
      \<lparr>st_n = length vs, st_p50 = percentile vs (1/2), st_p95 = percentile vs (95/100)\<rparr>)"

text \<open>Attempts in the order of the model (\<^verbatim>\<open>attempt_number\<close>).\<close>

definition attempts_where :: "(attempt_row \<Rightarrow> bool) \<Rightarrow> db \<Rightarrow> attempt_row list" where
  "attempts_where P d = sort_key a_number (filter P (d_attempts d))"

definition since_ok :: "time \<Rightarrow> time option \<Rightarrow> bool" where
  "since_ok since t = (case t of Some x \<Rightarrow> since \<le> x | None \<Rightarrow> False)"

definition gap :: "time option \<Rightarrow> time option \<Rightarrow> rat option" where
  "gap later earlier = (case (later, earlier) of (Some x, Some y) \<Rightarrow> Some (x - y) | _ \<Rightarrow> None)"

definition pickup_latency :: "time \<Rightarrow> db \<Rightarrow> stats" where
  "pickup_latency since d =
     stats_of (take sample_cap (map (\<lambda>a. gap (a_started a) (map_option t_created (get_task (a_task a) d)))
       (attempts_where (\<lambda>a. a_number a = 1 \<and> since_ok since (a_started a)) d)))"

definition dispatch_lag :: "time \<Rightarrow> db \<Rightarrow> stats" where
  "dispatch_lag since d =
     stats_of (take sample_cap (map (\<lambda>a. gap (a_started a) (a_not_before a))
       (attempts_where (\<lambda>a. a_not_before a \<noteq> None \<and> since_ok since (a_started a)) d)))"

definition retry_rate :: "time \<Rightarrow> db \<Rightarrow> nat \<times> nat \<times> rat option" where
  "retry_rate since d =
     (let settled = filter (\<lambda>t. t_status t \<in> {TSucceeded, TFailed, TExhausted} \<and> since \<le> t_updated t) (d_tasks d);
          retried = filter (\<lambda>t. 1 < length (task_attempts (t_id t) d)) settled in
      (length settled, length retried,
       if settled = [] then None else Some (py_round 3 (of_nat (length retried) / of_nat (length settled)))))"

text \<open>The order of classes with the same count is the database's.\<close>

definition exception_leaderboard :: "time \<Rightarrow> db \<Rightarrow> (string \<times> nat) list" where
  "exception_leaderboard since d =
     (let xs = map (the \<circ> a_exc) (filter (\<lambda>a. a_success a = Some False \<and> since_ok since (a_completed a) \<and>
          a_exc a \<noteq> None) (d_attempts d)) in
      take exception_cap (sort_key (\<lambda>(x, n). - int n) (map (\<lambda>x. (x, count_list xs x)) (remdups xs))))"

fun fill_buckets :: "time \<Rightarrow> nat \<Rightarrow> time list \<Rightarrow> nat list \<Rightarrow> nat list" where
  "fill_buckets since width [] buckets = buckets"
| "fill_buckets since width (t # ts) buckets =
     (let index = \<lfloor>(t - since) / of_nat width\<rfloor>;
          i = nat (min (max index 0) (int sparkline_bars - 1)) in
      fill_buckets since width ts (buckets[i := buckets ! i + 1]))"

record throughput_view =
  tv_bucket_seconds :: nat
  tv_buckets :: "nat list"
  tv_per_minute :: rat

definition completions :: "time \<Rightarrow> db \<Rightarrow> time list" where
  "completions since d =
     take sample_cap (map (the \<circ> a_completed) (attempts_where (\<lambda>a. since_ok since (a_completed a)) d))"

definition throughput :: "time \<Rightarrow> nat \<Rightarrow> db \<Rightarrow> throughput_view" where
  "throughput since window d =
     (let width = window div sparkline_bars;
          buckets = fill_buckets since width (completions since d) (replicate sparkline_bars 0) in
      \<lparr>tv_bucket_seconds = width, tv_buckets = buckets,
       tv_per_minute = py_round 2 (of_nat (sum_list buckets) * 60 / of_nat window)\<rparr>)"

record function_view =
  fv_func :: string
  fv_count :: nat
  fv_success_pct :: rat
  fv_p95 :: "rat option"

text \<open>The keys of a dict in the order of their first occurrence.\<close>

definition first_seen :: "string list \<Rightarrow> string list" where
  "first_seen xs = rev (remdups (rev xs))"

definition per_function :: "time \<Rightarrow> db \<Rightarrow> function_view list" where
  "per_function since d =
     (let rows = take sample_cap (attempts_where (\<lambda>a. since_ok since (a_completed a) \<and> a_started a \<noteq> None) d);
          func = (\<lambda>a. case get_task (a_task a) d of Some t \<Rightarrow> t_func t | None \<Rightarrow> []);
          view = (\<lambda>f. let mine = filter (\<lambda>a. func a = f) rows in
            \<lparr>fv_func = f, fv_count = length mine,
             fv_success_pct = py_round 1 (100 * of_nat (length (filter (\<lambda>a. a_success a = Some True) mine)) / of_nat (length mine)),
             fv_p95 = percentile (sort (map (\<lambda>a. the (a_completed a) - the (a_started a)) mine)) (95/100)\<rparr>) in
      take function_cap (sort_key (\<lambda>v. - int (fv_count v)) (map view (first_seen (map func rows)))))"

record dashboard =
  db_window :: string
  db_since :: time
  db_pickup :: stats
  db_lag :: stats
  db_retry :: "nat \<times> nat \<times> rat option"
  db_exceptions :: "(string \<times> nat) list"
  db_throughput :: throughput_view
  db_functions :: "function_view list"

definition dashboard_snapshot :: "time \<Rightarrow> string option \<Rightarrow> db \<Rightarrow> dashboard" where
  "dashboard_snapshot now name d =
     (let window = resolve_window name; seconds = (case map_of windows window of Some s \<Rightarrow> s | None \<Rightarrow> 0);
          since = now - of_nat seconds in
      \<lparr>db_window = window, db_since = since, db_pickup = pickup_latency since d,
       db_lag = dispatch_lag since d, db_retry = retry_rate since d,
       db_exceptions = exception_leaderboard since d, db_throughput = throughput since seconds d,
       db_functions = per_function since d\<rparr>)"

section \<open>A failing sink stays quiet\<close>

text \<open>Emissions of one process, each with the time at which it is made.\<close>

fun emit_all ::
  "'s sink_class \<Rightarrow> (time \<times> instrument \<times> string \<times> rat \<times> metric_labels) list \<Rightarrow> 's meter \<Rightarrow> 's meter" where
  "emit_all c [] m = m"
| "emit_all c ((now, i, name, v, ls) # es) m = emit_all c es (emit_metric c now i name v ls m)"

definition quiet :: "'s meter \<Rightarrow> bool" where
  "quiet m \<longleftrightarrow> sorted_wrt (\<lambda>s t. s + log_interval \<le> t) (mt_warnings m) \<and>
     hl_last_logged (mt_health m) = (if mt_warnings m = [] then None else Some (last (mt_warnings m)))"

lemma sink_failed_quiet:
  assumes "quiet m"
  shows "quiet (sink_failed now e m)"
proof (cases "mt_warnings m = []")
  case True
  then show ?thesis using assms by (simp add: quiet_def sink_failed_def record_failure_def Let_def)
next
  case False
  then obtain ws w where ws: "mt_warnings m = ws @ [w]" by (meson rev_exhaust)
  have "s + log_interval \<le> w" if "s \<in> set ws" for s
    using assms that by (auto simp: quiet_def ws sorted_wrt_append)
  moreover have "(0::rat) < log_interval" by (simp add: log_interval_def)
  ultimately have "w + log_interval \<le> now \<Longrightarrow> s \<in> set (ws @ [w]) \<Longrightarrow> s + log_interval \<le> now" for s
    by fastforce
  then show ?thesis using assms
    by (auto simp: quiet_def ws sink_failed_def record_failure_def Let_def sorted_wrt_append algebra_simps)
qed

lemma quiet_frame [simp]: "quiet (m\<lparr>mt_sink := s\<rparr>) = quiet m"
  by (simp add: quiet_def)

lemma emit_metric_quiet: "quiet m \<Longrightarrow> quiet (emit_metric c now i name v ls m)"
  by (auto simp: emit_metric_def Let_def sink_failed_quiet split: sum.splits option.splits prod.splits)

lemma emit_all_quiet: "quiet m \<Longrightarrow> quiet (emit_all c es m)"
  by (induction c es m rule: emit_all.induct) (simp_all add: emit_metric_quiet)

lemma spaced_few:
  assumes "sorted_wrt (\<lambda>s t. s + g \<le> t) ws" "0 < g" "list_all (\<lambda>w. a \<le> w \<and> w \<le> b) ws" "ws \<noteq> []"
  shows "of_nat (length ws - 1) * g \<le> b - (a :: rat)"
  using assms
proof (induction ws arbitrary: a)
  case (Cons w ws)
  show ?case
  proof (cases "ws = []")
    case False
    have "of_nat (length ws - 1) * g \<le> b - (w + g)"
      by (rule Cons.IH) (use Cons.prems False in \<open>auto simp: list_all_iff\<close>)
    moreover have "length (w # ws) - 1 = Suc (length ws - 1)" using False by simp
    ultimately show ?thesis using Cons.prems(3) by (simp add: algebra_simps)
  qed (use Cons.prems in auto)
qed simp

text \<open>
  A broken sink does not flood the log. However often the metrics sink raises, and whatever it
  raises on, in any period of \<open>T\<close> seconds a process logs at most one warning per minute, and one more.
\<close>

theorem warnings_throttled:
  assumes "mt_warnings m = []" "hl_last_logged (mt_health m) = None" "0 \<le> T"
  shows "of_nat (length (filter (\<lambda>w. t \<le> w \<and> w \<le> t + T) (mt_warnings (emit_all c es m)))) \<le> T / 60 + 1"
proof -
  let ?ws = "filter (\<lambda>w. t \<le> w \<and> w \<le> t + T) (mt_warnings (emit_all c es m))"
  have "quiet (emit_all c es m)" by (rule emit_all_quiet) (simp add: quiet_def assms(1,2))
  then have s: "sorted_wrt (\<lambda>s t. s + log_interval \<le> t) ?ws" by (simp add: quiet_def sorted_wrt_filter)
  show ?thesis
  proof (cases "?ws = []")
    case False
    define k where "k = rat_of_nat (length ?ws - 1)"
    have "k * log_interval \<le> t + T - t"
      unfolding k_def by (rule spaced_few [OF s]) (use False in \<open>simp_all add: log_interval_def list_all_iff\<close>)
    then have "k \<le> T / 60" by (simp add: log_interval_def)
    moreover have "of_nat (length ?ws) = k + 1" unfolding k_def using False by (cases ?ws) simp_all
    ultimately show ?thesis by linarith
  qed (use assms(3) in simp)
qed

section \<open>The sparkline counts every completion\<close>

lemma fill_buckets_length [simp]: "length (fill_buckets since width ts bs) = length bs"
  by (induction since width ts bs rule: fill_buckets.induct) (simp_all add: Let_def)

definition bucket_of :: "time \<Rightarrow> nat \<Rightarrow> time \<Rightarrow> nat" where
  "bucket_of since width t = nat (min (max \<lfloor>(t - since) / of_nat width\<rfloor> 0) (int sparkline_bars - 1))"

lemma bucket_of_less: "bucket_of since width t < sparkline_bars"
  by (auto simp: bucket_of_def sparkline_bars_def)

lemma fill_buckets_nth:
  assumes "length bs = sparkline_bars" "i < sparkline_bars"
  shows "fill_buckets since width ts bs ! i = bs ! i + length (filter (\<lambda>t. bucket_of since width t = i) ts)"
  using assms
proof (induction ts arbitrary: bs)
  case (Cons t ts)
  have "length (bs[bucket_of since width t := bs ! bucket_of since width t + 1]) = sparkline_bars"
    using Cons.prems(1) by simp
  from Cons.IH [OF this Cons.prems(2)] show ?case
    using Cons.prems bucket_of_less [of since width t]
    by (simp add: Let_def bucket_of_def [symmetric] nth_list_update)
qed simp

lemma fill_buckets_sum:
  "length bs = sparkline_bars \<Longrightarrow> sum_list (fill_buckets since width ts bs) = sum_list bs + length ts"
proof (induction ts arbitrary: bs)
  case (Cons t ts)
  let ?i = "bucket_of since width t"
  have i: "?i < length bs" using Cons.prems bucket_of_less by simp
  have "sum_list (bs[?i := bs ! ?i + 1]) = sum_list bs + 1"
    using i by (simp add: sum_list_update elem_le_sum_list)
  then show ?case using Cons by (simp add: Let_def bucket_of_def [symmetric])
qed simp

lemma bucket_of_iff:
  assumes "0 < width" "since \<le> t" "i < sparkline_bars - 1"
  shows "bucket_of since width t = i \<longleftrightarrow>
    since + of_nat i * of_nat width \<le> t \<and> t < since + (of_nat i + 1) * of_nat width"
proof -
  have w: "(0 :: rat) < of_nat width" using assms(1) by simp
  have "0 \<le> (t - since) / of_nat width" using assms(2) w by simp
  then have f: "0 \<le> \<lfloor>(t - since) / of_nat width\<rfloor>" by simp
  have "bucket_of since width t = i \<longleftrightarrow> \<lfloor>(t - since) / of_nat width\<rfloor> = int i"
    using f assms(3) by (auto simp: bucket_of_def sparkline_bars_def)
  also have "\<dots> \<longleftrightarrow> of_nat i \<le> (t - since) / of_nat width \<and> (t - since) / of_nat width < of_nat i + 1"
    by (simp add: floor_eq_iff)
  also have "\<dots> \<longleftrightarrow> since + of_nat i * of_nat width \<le> t \<and> t < since + (of_nat i + 1) * of_nat width"
    using w by (simp add: field_simps)
  finally show ?thesis .
qed

text \<open>
  The throughput chart loses nothing and counts nothing twice. The bars sum to the sampled
  completions, and every bar but the last is the number of completions in its own interval.
\<close>

theorem throughput_counts_all:
  assumes "sparkline_bars \<le> window"
  shows "sum_list (tv_buckets (throughput since window d)) = length (completions since d) \<and>
     (\<forall>i < sparkline_bars - 1. tv_buckets (throughput since window d) ! i =
        length (filter (\<lambda>t. since + of_nat i * of_nat (tv_bucket_seconds (throughput since window d)) \<le> t \<and>
          t < since + (of_nat i + 1) * of_nat (tv_bucket_seconds (throughput since window d))) (completions since d)))"
proof -
  let ?w = "window div sparkline_bars" and ?ts = "completions since d"
  have w: "0 < ?w" using assms by (simp add: sparkline_bars_def div_greater_zero_iff)
  have since: "since \<le> t" if "t \<in> set ?ts" for t
    using in_set_takeD that [unfolded completions_def]
    by (fastforce simp: attempts_where_def since_ok_def split: option.splits)
  have "filter (\<lambda>t. bucket_of since ?w t = i) ?ts =
      filter (\<lambda>t. since + of_nat i * of_nat ?w \<le> t \<and> t < since + (of_nat i + 1) * of_nat ?w) ?ts"
    if "i < sparkline_bars - 1" for i
    by (rule filter_cong [OF refl]) (simp add: bucket_of_iff [OF w since that])
  then show ?thesis
    by (simp add: throughput_def Let_def fill_buckets_sum fill_buckets_nth sum_list_replicate)
qed

section \<open>Percentiles\<close>

lemma py_round_close: "\<bar>py_round n x - x\<bar> \<le> 1 / (2 * 10 ^ n)"
proof -
  define s where "s = x * 10 ^ n"
  define z where "z = (if s - of_int \<lfloor>s\<rfloor> < 1/2 \<or> (s - of_int \<lfloor>s\<rfloor> = 1/2 \<and> even \<lfloor>s\<rfloor>) then \<lfloor>s\<rfloor> else \<lfloor>s\<rfloor> + 1)"
  have "of_int \<lfloor>s\<rfloor> \<le> s" "s < of_int \<lfloor>s\<rfloor> + 1" by linarith+
  then have z: "\<bar>of_int z - s\<bar> \<le> 1/2" by (auto simp: z_def abs_le_iff)
  have "py_round n x - x = (of_int z - s) / 10 ^ n"
    by (simp add: py_round_def Let_def z_def s_def diff_divide_distrib)
  then have "\<bar>py_round n x - x\<bar> = \<bar>of_int z - s\<bar> / 10 ^ n" by (simp add: abs_divide)
  also have "\<dots> \<le> (1/2) / 10 ^ n" by (rule divide_right_mono [OF z]) simp
  finally show ?thesis by simp
qed

lemma rank_index_bounds:
  assumes "0 < q" "q \<le> 1" "0 < n"
  shows "rank_index q n < n" "of_nat (rank_index q n) < q * of_nat n" "q * of_nat n \<le> of_nat (rank_index q n) + 1"
proof -
  let ?c = "\<lceil>q * of_nat n\<rceil>"
  have "0 < q * rat_of_nat n" using assms by simp
  then have c: "1 \<le> ?c" by (simp add: zero_less_ceiling)
  have r: "int (rank_index q n) = ?c - 1" using c by (simp add: rank_index_def)
  have "?c \<le> int n" using assms by (simp add: ceiling_le_iff mult_left_le_one_le)
  then show "rank_index q n < n" using r by linarith
  have "rat_of_nat (rank_index q n) = of_int (?c - 1)" using r by (metis of_int_of_nat_eq)
  then show "of_nat (rank_index q n) < q * of_nat n" "q * of_nat n \<le> of_nat (rank_index q n) + 1" by linarith+
qed

text \<open>
  A reported percentile is one. Up to the rounding to milliseconds it is a value of the sample
  such that at least the fraction \<open>q\<close> of the sample is no greater, and less than that is smaller.
\<close>

theorem percentile_nearest_rank:
  assumes "sorted values" "values \<noteq> []" "0 < q" "q \<le> 1"
  shows "\<exists>v p. percentile values q = Some p \<and> v \<in> set values \<and> \<bar>p - v\<bar> \<le> 1 / 2000 \<and>
     q * of_nat (length values) \<le> of_nat (length (filter (\<lambda>x. x \<le> v) values)) \<and>
     of_nat (length (filter (\<lambda>x. x < v) values)) < q * of_nat (length values)"
proof -
  let ?n = "length values" and ?k = "rank_index q (length values)"
  have n: "0 < ?n" using assms(2) by simp
  note k = rank_index_bounds [OF assms(3,4) n]
  define v where "v = values ! ?k"
  have split: "values = take ?k values @ v # drop (Suc ?k) values"
    using k(1) by (simp add: v_def id_take_nth_drop [symmetric])
  have le: "x \<le> v" if "x \<in> set (take (Suc ?k) values)" for x
    using that assms(1) k(1) by (auto simp: v_def in_set_conv_nth sorted_nth_mono)
  have ge: "v \<le> x" if "x \<in> set (drop ?k values)" for x
    using that assms(1) k(1) by (auto simp: v_def in_set_conv_nth sorted_nth_mono)
  have "filter (\<lambda>x. x \<le> v) (take (Suc ?k) values) = take (Suc ?k) values" using le by (simp add: filter_id_conv)
  then have "Suc ?k \<le> length (filter (\<lambda>x. x \<le> v) values)"
    using k(1) by (metis append_take_drop_id filter_append le_add1 length_append length_take min.absorb2 Suc_leI)
  moreover have "filter (\<lambda>x. x < v) (drop ?k values) = []" using ge by (auto simp: filter_empty_conv not_less)
  then have "length (filter (\<lambda>x. x < v) values) \<le> ?k"
    by (metis append_Nil2 append_take_drop_id filter_append length_filter_le length_take min.bounded_iff order_trans)
  ultimately have "q * of_nat ?n \<le> of_nat (length (filter (\<lambda>x. x \<le> v) values))"
    "of_nat (length (filter (\<lambda>x. x < v) values)) < q * of_nat ?n"
    using k(2,3) by (metis of_nat_Suc of_nat_le_iff order_trans add.commute, metis of_nat_le_iff le_less_trans)
  moreover have "percentile values q = Some (py_round 3 v)" using assms(2) by (simp add: percentile_def v_def)
  moreover have "\<bar>py_round 3 v - v\<bar> \<le> 1 / 2000" using py_round_close [of 3 v] by simp
  moreover have "v \<in> set values" using k(1) by (simp add: v_def)
  ultimately show ?thesis by blast
qed

section \<open>Concrete inputs\<close>

definition broken_sink :: "unit sink_class" where
  "broken_sink = \<lparr>sc_build = Inr (), sc_call = (\<lambda>_ _ _ _ s. (Some ''ConnectionError: refused'', s))\<rparr>"

definition fresh_meter :: "unit meter" where
  "fresh_meter = \<lparr>mt_sink = None, mt_health = new_health, mt_warnings = []\<rparr>"

abbreviation demo_meter :: "unit meter" where
  "demo_meter \<equiv> emit_all broken_sink (map (\<lambda>t. (t, Counter, ''qraft.attempt.finished'', 1, [(''outcome'', Some ''failed'')]))
     [0, 10, 59, 60, 70, 130]) fresh_meter"

theorem warnings_throttled_witness:
  "mt_warnings demo_meter = [0, 60, 130] \<and> health_snapshot (mt_health demo_meter) = (6, Some ''ConnectionError: refused'') \<and>
   rat_of_nat (length (filter (\<lambda>w. 0 \<le> w \<and> w \<le> 0 + 90) (mt_warnings demo_meter))) \<le> 90 / 60 + 1"
proof (intro conjI)
  show "mt_warnings demo_meter = [0, 60, 130]" by code_simp
  show "health_snapshot (mt_health demo_meter) = (6, Some ''ConnectionError: refused'')" by code_simp
  show "rat_of_nat (length (filter (\<lambda>w. 0 \<le> w \<and> w \<le> 0 + 90) (mt_warnings demo_meter))) \<le> 90 / 60 + 1"
    by (rule warnings_throttled) (simp_all add: fresh_meter_def new_health_def)
qed

definition finished_db :: db where
  "finished_db = empty_db\<lparr>d_attempts := map (\<lambda>(i, t). (blank_attempt i i 1 0)\<lparr>a_completed := Some t\<rparr>)
     [(1, 130), (2, 149), (3, 150), (4, 899), (5, -5)]\<rparr>"

theorem throughput_counts_all_witness:
  "sum_list (tv_buckets (throughput 0 900 finished_db)) = 4 \<and> tv_buckets (throughput 0 900 finished_db) ! 4 = 2"
proof -
  have c: "completions 0 finished_db = [130, 149, 150, 899]" "tv_bucket_seconds (throughput 0 900 finished_db) = 30"
    by code_simp+
  have "sparkline_bars \<le> 900" by (simp add: sparkline_bars_def)
  from throughput_counts_all [OF this, of 0 finished_db] show ?thesis
    by (auto simp: c sparkline_bars_def dest!: spec [of _ 4])
qed

theorem percentile_nearest_rank_witness:
  "\<exists>v p. percentile [1, 2, 3, 10] (95/100) = Some p \<and> v \<in> {1, 2, 3, 10} \<and> \<bar>p - v\<bar> \<le> 1 / 2000 \<and>
     95/100 * 4 \<le> rat_of_nat (length (filter (\<lambda>x. x \<le> v) [1, 2, 3, 10]))"
  using percentile_nearest_rank [of "[1, 2, 3, 10]" "95/100"] by auto

end
