(* ===== verification/Qraft_Dashboard.thy ===== *)
theory Qraft_Dashboard
  imports Qraft_GraphProps Qraft_Results Qraft_Metrics
begin

text \<open>
  The operator's surface: the dashboard (\<^verbatim>\<open>qraft/dashboard/views.py\<close>) and the two
  actions of the admin (\<^verbatim>\<open>qraft/admin.py\<close>).
  \<^item> The page: \<open>task_rows\<close>, \<open>graph_rows\<close>, \<open>workflow_rows\<close>, \<open>usage_rollup\<close> and \<open>page_state\<close>, which is
    what \<^verbatim>\<open>state()\<close> answers. Shortened ids and links to the admin are left out; ids are
    written in decimals, and a graph filter that is no id raises as Django does.
  \<^item> The requests: a \<open>request\<close> passes the decorators of Django and the staff check and reaches one of
    the operations of the package; the \<open>reply\<close> is a JSON answer with its status, a redirect, an
    answer of a decorator, or the exception that left the view.
  The properties: a request that is not answered with 200 changed nothing, and the buttons of the
  page are exactly the requests the engine accepts.
\<close>

section \<open>Requests and replies\<close>

text \<open>\<open>rq_user\<close> is whether the user is active and whether staff; \<open>rq_csrf\<close> whether the token fits.\<close>

record request =
  rq_post :: bool
  rq_csrf :: bool
  rq_user :: "(bool \<times> bool) option"
  rq_get :: "(string \<times> string) list"

datatype reply = Json nat dict | LoginRedirect | Turned nat | Raised err

definition is_public :: "dict \<Rightarrow> bool" where
  "is_public conf = (case dict_get conf ''public'' of Some v \<Rightarrow> truthy v | None \<Rightarrow> False)"

definition is_staff :: "request \<Rightarrow> bool" where
  "is_staff rq = (case rq_user rq of Some (ac, st) \<Rightarrow> ac \<and> st | None \<Rightarrow> False)"

type_synonym web_view = "request \<Rightarrow> db \<Rightarrow> reply \<times> db"

definition staff_required :: "dict \<Rightarrow> bool \<Rightarrow> web_view \<Rightarrow> web_view" where
  "staff_required conf json view rq d =
     (if is_public conf \<or> is_staff rq then view rq d
      else if json then (Json 403 [(''error'', PStr ''staff required'')], d)
      else (LoginRedirect, d))"

text \<open>Django's \<^verbatim>\<open>require_POST\<close> and \<^verbatim>\<open>csrf_protect\<close>.\<close>

definition require_post :: "web_view \<Rightarrow> web_view" where
  "require_post view rq d = (if rq_post rq then view rq d else (Turned 405, d))"

definition csrf_protect :: "web_view \<Rightarrow> web_view" where
  "csrf_protect view rq d = (if rq_csrf rq then view rq d else (Turned 403, d))"

text \<open>
  The \<^verbatim>\<open>try\<close>/\<^verbatim>\<open>except\<close> of a view: the errors it catches are answered with
  a status, the others leave it.
\<close>

definition error_text :: "err \<Rightarrow> string" where
  "error_text e = (case e of GraphError s \<Rightarrow> s | ValueError s \<Rightarrow> s | _ \<Rightarrow> [])"

definition answered :: "(err \<Rightarrow> nat option) \<Rightarrow> db \<Rightarrow> (dict \<times> db) res \<Rightarrow> reply \<times> db" where
  "answered status d r =
     (case r of
        Inl e \<Rightarrow> (case status e of
            Some s \<Rightarrow> (Json s [(''error'', PStr (error_text e))], d)
          | None \<Rightarrow> (Raised e, d))
      | Inr (body, d') \<Rightarrow> (Json 200 body, d'))"

fun contains :: "string \<Rightarrow> string \<Rightarrow> bool" where
  "contains sub [] = (sub = [])"
| "contains sub (c # s) = (take (length sub) (c # s) = sub \<or> contains sub s)"

definition value_error_status :: "err \<Rightarrow> nat option" where
  "value_error_status e = (case e of ValueError _ \<Rightarrow> Some 409 | GraphError _ \<Rightarrow> Some 409
     | InvalidStatusTransition \<Rightarrow> Some 409 | _ \<Rightarrow> None)"

definition transition_status :: "err \<Rightarrow> nat option" where
  "transition_status e = (if e = InvalidStatusTransition then Some 409 else None)"

definition graph_error_status :: "err \<Rightarrow> nat option" where
  "graph_error_status e = (case e of
     GraphError s \<Rightarrow> Some (if contains ''unknown graph'' s then 404 else 409) | _ \<Rightarrow> None)"

definition decision_status :: "err \<Rightarrow> nat option" where
  "decision_status e = (case e of GraphError _ \<Rightarrow> Some 409 | _ \<Rightarrow> None)"

definition not_found :: "string \<Rightarrow> string \<Rightarrow> reply" where
  "not_found kind i = Json 404 [(''error'', PStr (''unknown '' @ kind @ '' '' @ i))]"

section \<open>The actions\<close>

text \<open>The routes of \<^verbatim>\<open>qraft/dashboard/urls.py\<close> that change something.\<close>

datatype action =
    RequeueTask id
  | ApproveChain id
  | RejectChain id
  | CancelGraph id
  | ResumeGraph id
  | SkipNode id string
  | ApproveNode id string
  | RejectNode id string
  | CancelWorkflow string id

definition pid :: "id \<Rightarrow> pyval" where
  "pid i = PStr (show_nat i)"

definition done_body :: "string \<Rightarrow> pyval \<Rightarrow> db res \<Rightarrow> (dict \<times> db) res" where
  "done_body key v r = rbind r (\<lambda>d. Inr ([(key, v)], d))"

definition requeue_task :: "time \<Rightarrow> id \<Rightarrow> web_view" where
  "requeue_task now i rq d =
     (case get_task i d of
        None \<Rightarrow> (not_found ''task'' (show_nat i), d)
      | Some t \<Rightarrow> answered value_error_status d (rbind (requeue now t d) (\<lambda>(a, d).
          Inr ([(''requeued'', pid i), (''attempt_id'', pid a)], d))))"

definition approve_chain_view :: "world \<Rightarrow> time \<Rightarrow> string option \<Rightarrow> id \<Rightarrow> web_view" where
  "approve_chain_view w now trace i rq d =
     (if get_chain i d = None then (not_found ''chain'' (show_nat i), d)
      else answered transition_status d
        (done_body ''approved'' (pid i) (approve_chain w now trace i d)))"

definition already_body :: "string \<Rightarrow> id \<Rightarrow> reply" where
  "already_body key i = Json 200 [(key, pid i), (''already'', PBool True)]"

definition reject_chain_view :: "world \<Rightarrow> time \<Rightarrow> id \<Rightarrow> web_view" where
  "reject_chain_view w now i rq d =
     (case get_chain i d of
        None \<Rightarrow> (not_found ''chain'' (show_nat i), d)
      | Some c \<Rightarrow>
          if c_status c = WCancelled then (already_body ''rejected'' i, d)
          else answered transition_status d
            (done_body ''rejected'' (pid i) (reject_chain w now i d)))"

definition cancel_graph :: "world \<Rightarrow> time \<Rightarrow> id \<Rightarrow> web_view" where
  "cancel_graph w now g rq d =
     answered graph_error_status d (done_body ''cancelled'' (pid g) (cancel w now g d))"

definition resume_graph :: "world \<Rightarrow> time \<Rightarrow> id \<Rightarrow> web_view" where
  "resume_graph w now g rq d =
     answered graph_error_status d (rbind (resume w now g None d) (\<lambda>(n, d).
       Inr ([(''resumed'', pid g), (''rerun'', PInt (int n))], d)))"

definition skip_graph_node :: "world \<Rightarrow> time \<Rightarrow> id \<Rightarrow> string \<Rightarrow> web_view" where
  "skip_graph_node w now g k rq d =
     answered graph_error_status d
       (done_body ''skipped'' (PStr k) (skip w now g k (Some ''dashboard'') d))"

definition decide_graph_node :: "world \<Rightarrow> time \<Rightarrow> id \<Rightarrow> string \<Rightarrow> bool \<Rightarrow> web_view" where
  "decide_graph_node w now g k appr rq d =
     answered decision_status d
       (rbind (if appr then approve w now g k d else reject w now g k (Some ''dashboard'') d) (\<lambda>d.
        Inr ([(''node'', PStr k), (''approved'', PBool appr)], d)))"

definition cancel_workflow :: "world \<Rightarrow> time \<Rightarrow> string \<Rightarrow> id \<Rightarrow> web_view" where
  "cancel_workflow w now kind i rq d =
     (let par = (\<lambda>ty. case get_par i d of
          None \<Rightarrow> (not_found kind (show_nat i), d)
        | Some p \<Rightarrow>
            if p_type p \<noteq> ty then (not_found kind (show_nat i), d)
            else if p_status p = WCancelled then (already_body ''cancelled'' i, d)
            else answered transition_status d
              (done_body ''cancelled'' (pid i) (cancel_par w now p d))) in
      if kind = ''chain'' then
        (case get_chain i d of
           None \<Rightarrow> (not_found kind (show_nat i), d)
         | Some c \<Rightarrow>
             if c_status c = WCancelled then (already_body ''cancelled'' i, d)
             else answered transition_status d
               (done_body ''cancelled'' (pid i) (cancel_chain w now c d)))
      else if kind = ''iter'' then par IterWf
      else if kind = ''batch'' then par BatchWf
      else (not_found ''workflow kind'' kind, d))"

fun act_on :: "world \<Rightarrow> time \<Rightarrow> string option \<Rightarrow> action \<Rightarrow> web_view" where
  "act_on w now trace (RequeueTask i) = requeue_task now i"
| "act_on w now trace (ApproveChain i) = approve_chain_view w now trace i"
| "act_on w now trace (RejectChain i) = reject_chain_view w now i"
| "act_on w now trace (CancelGraph g) = cancel_graph w now g"
| "act_on w now trace (ResumeGraph g) = resume_graph w now g"
| "act_on w now trace (SkipNode g k) = skip_graph_node w now g k"
| "act_on w now trace (ApproveNode g k) = decide_graph_node w now g k True"
| "act_on w now trace (RejectNode g k) = decide_graph_node w now g k False"
| "act_on w now trace (CancelWorkflow kind i) = cancel_workflow w now kind i"

text \<open>Each of these views is decorated the same way.\<close>

definition dashboard_post :: "dict \<Rightarrow> world \<Rightarrow> time \<Rightarrow> string option \<Rightarrow> action \<Rightarrow> web_view" where
  "dashboard_post conf w now trace act =
     require_post (staff_required conf True (csrf_protect (act_on w now trace act)))"

text \<open>
  The admin's actions: requeue the selected tasks, cancel the selected graphs. The counts are those
  of the message; what is not caught ends the action with the work done so far.
\<close>

fun requeue_dead_tasks :: "time \<Rightarrow> task_row list \<Rightarrow> nat \<times> nat \<Rightarrow> db \<Rightarrow> (nat \<times> nat) res \<times> db" where
  "requeue_dead_tasks now [] n d = (Inr n, d)"
| "requeue_dead_tasks now (t # ts) (requeued, skipped) d =
     (case requeue now t d of
        Inl e \<Rightarrow> if value_error_status e \<noteq> None then requeue_dead_tasks now ts (requeued, skipped + 1) d
                 else (Inl e, d)
      | Inr (_, d') \<Rightarrow> requeue_dead_tasks now ts (requeued + 1, skipped) d')"

fun cancel_graphs :: "world \<Rightarrow> time \<Rightarrow> id list \<Rightarrow> nat \<times> nat \<Rightarrow> db \<Rightarrow> (nat \<times> nat) res \<times> db" where
  "cancel_graphs w now [] n d = (Inr n, d)"
| "cancel_graphs w now (g # gs) (settled, skipped) d =
     (case cancel w now g d of
        Inl e \<Rightarrow> if decision_status e \<noteq> None then cancel_graphs w now gs (settled, skipped + 1) d
                 else (Inl e, d)
      | Inr d' \<Rightarrow> cancel_graphs w now gs (settled + 1, skipped) d')"

section \<open>The page\<close>

definition task_limit :: nat where
  "task_limit = 60"

definition workflow_limit :: nat where
  "workflow_limit = 12"

definition graph_limit :: nat where
  "graph_limit = 12"

definition member_limit :: nat where
  "member_limit = 12"

definition dlq_limit :: nat where
  "dlq_limit = 20"

definition usage_attempt_cap :: nat where
  "usage_attempt_cap = 500"

text \<open>The last value of a parameter counts; an empty one is ignored.\<close>

record page_filters =
  fl_type :: "string option"
  fl_id :: "string option"
  fl_graph :: "string option"

definition filters_of :: "request \<Rightarrow> page_filters" where
  "filters_of rq =
     (let get = (\<lambda>name. given (map_of (rev (rq_get rq)) name)) in
      \<lparr>fl_type = get ''subject_type'', fl_id = get ''subject_id'', fl_graph = get ''graph''\<rparr>)"

definition apply_filters ::
  "page_filters \<Rightarrow> ('r \<Rightarrow> string option) \<Rightarrow> ('r \<Rightarrow> string option) \<Rightarrow> ('r \<Rightarrow> id option) \<Rightarrow> 'r list \<Rightarrow> 'r list" where
  "apply_filters fl ty i g rs =
     filter (\<lambda>r. (fl_type fl = None \<or> ty r = fl_type fl) \<and> (fl_id fl = None \<or> i r = fl_id fl) \<and>
       (fl_graph fl = None \<or> map_option show_nat (g r) = fl_graph fl)) rs"

definition check_filters :: "page_filters \<Rightarrow> unit res" where
  "check_filters fl =
     guard (case fl_graph fl of None \<Rightarrow> True | Some s \<Rightarrow> s = show_nat (read_nat s)) ValidationError"

definition filter_tasks :: "page_filters \<Rightarrow> task_row list \<Rightarrow> task_row list" where
  "filter_tasks fl = apply_filters fl t_subject_type t_subject_id t_graph_id"

text \<open>\<^verbatim>\<open>order_by("-date_created")[:n]\<close>.\<close>

definition newest :: "nat \<Rightarrow> ('r \<Rightarrow> time) \<Rightarrow> 'r list \<Rightarrow> 'r list" where
  "newest n created rs = take n (sort_key (\<lambda>r. - created r) rs)"

fun func_name :: "string \<Rightarrow> string" where
  "func_name [] = []"
| "func_name (c # s) = (if CHR ''.'' \<in> set s then func_name s else if c = CHR ''.'' then s else c # s)"

definition current_progress :: "task_row \<Rightarrow> attempt_row option \<Rightarrow> dict" where
  "current_progress t latest =
     (let reported = (case latest of Some a \<Rightarrow> (case a_progress a of Some p \<Rightarrow> p | None \<Rightarrow> []) | None \<Rightarrow> []);
          snap = (case t_progress t of Some p \<Rightarrow> p | None \<Rightarrow> []) in
      if reported \<noteq> [] then reported
      else (case latest of
          None \<Rightarrow> snap
        | Some a \<Rightarrow>
            if lookup snap ''attempt_id'' \<in> {PNone, PInt (int (a_id a))} then snap else []))"

definition age_in :: "time option \<Rightarrow> time \<Rightarrow> rat option" where
  "age_in t now = map_option (\<lambda>x. py_round 1 (now - x)) t"

record task_line =
  tl_task :: id
  tl_func :: string
  tl_status :: task_status
  tl_subject :: "string option \<times> string option"
  tl_priority :: priority
  tl_attempts :: nat
  tl_max_attempts :: pyval
  tl_elapsed :: rat
  tl_error :: "string option"
  tl_heartbeat :: "rat option"
  tl_progress :: "(pyval \<times> pyval) option"
  tl_message :: pyval
  tl_advanced_age :: "rat option"
  tl_stalled :: bool
  tl_recovered :: bool
  tl_workflow :: string

definition open_attempt :: "attempt_row option \<Rightarrow> attempt_row option" where
  "open_attempt latest = (case latest of Some a \<Rightarrow> if a_success a = None then Some a else None | None \<Rightarrow> None)"

definition elapsed :: "time \<Rightarrow> task_row \<Rightarrow> attempt_row option \<Rightarrow> rat" where
  "elapsed now t latest =
     (case Option.bind (open_attempt latest) a_started of
        Some s \<Rightarrow> now - s
      | None \<Rightarrow> (case Option.bind latest a_completed of
            Some c \<Rightarrow> c - t_created t
          | None \<Rightarrow> now - t_created t))"

definition workflow_of :: "task_row \<Rightarrow> db \<Rightarrow> string" where
  "workflow_of t d =
     (if t_iter t \<noteq> None then ''iter'' else if t_batch t \<noteq> None then ''batch''
      else if exists_where (\<lambda>s. s_task s = Some (t_id t)) (d_steps d) then ''chain'' else [])"

definition task_line_of :: "time \<Rightarrow> db \<Rightarrow> task_row \<Rightarrow> task_line" where
  "task_line_of now d t =
     (let latest = latest_attempt (t_id t) d;
          run = open_attempt latest;
          progress = current_progress t latest in
      \<lparr>tl_task = t_id t, tl_func = func_name (t_func t), tl_status = t_status t,
       tl_subject = (t_subject_type t, t_subject_id t), tl_priority = t_priority t,
       tl_attempts = length (task_attempts (t_id t) d),
       tl_max_attempts = lookup (t_retry_policy t) ''max_attempts'',
       tl_elapsed = py_round 1 (elapsed now t latest),
       tl_error = Option.bind latest a_exc,
       tl_heartbeat = age_in (Option.bind run a_heartbeat) now,
       tl_progress = (if truthy (lookup progress ''total'')
          then Some (lookup progress ''current'', lookup progress ''total'') else None),
       tl_message = (case dict_get progress ''message'' of Some m \<Rightarrow> m | None \<Rightarrow> PStr []),
       tl_advanced_age = age_in (Option.bind run a_advanced_at) now,
       tl_stalled = (Option.bind latest a_stall_at \<noteq> None),
       tl_recovered = (case (Option.bind latest a_stall_at, Option.bind latest a_advanced_at) of
          (Some s, Some a) \<Rightarrow> s < a | _ \<Rightarrow> False),
       tl_workflow = workflow_of t d\<rparr>)"

definition task_rows :: "time \<Rightarrow> page_filters \<Rightarrow> db \<Rightarrow> task_line list" where
  "task_rows now fl d = map (task_line_of now d) (newest task_limit t_created (filter_tasks fl (d_tasks d)))"

text \<open>The error a node shows is that of its task's last failed attempt.\<close>

definition node_error :: "db \<Rightarrow> node_row \<Rightarrow> string option" where
  "node_error d n =
     (case n_task n of
        None \<Rightarrow> None
      | Some i \<Rightarrow> Option.bind (first_row (rev (filter (\<lambda>a. a_success a = Some False) (task_attempts i d)))) a_exc)"

record node_cell =
  nc_key :: string
  nc_status :: node_status
  nc_task :: "id option"
  nc_error :: "string option"
  nc_can_approve :: bool
  nc_can_skip :: bool

record graph_line =
  gl_graph :: id
  gl_subject :: "string option \<times> string option"
  gl_kind :: "string option"
  gl_revision :: "string option"
  gl_status :: graph_status
  gl_generation :: nat
  gl_elapsed :: rat
  gl_overdue :: bool
  gl_previous :: "id option"
  gl_nodes :: "node_cell list"
  gl_can_cancel :: bool
  gl_can_resume :: bool
  gl_preview :: "(string list \<times> string list) option"

definition node_cell_of :: "db \<Rightarrow> graph_row \<Rightarrow> node_row \<Rightarrow> node_cell" where
  "node_cell_of d r n = \<lparr>nc_key = n_key n, nc_status = n_status n, nc_task = n_task n,
     nc_error = given (node_error d n),
     nc_can_approve = (g_status r \<in> {GRunning, GWaiting} \<and> n_status n = NWaiting),
     nc_can_skip = (g_status r = GRunning \<and> n_status n = NPending)\<rparr>"

text \<open>The names in a preview are a set; the order in which the page lists them is left out.\<close>

definition graph_line_of :: "time \<Rightarrow> db \<Rightarrow> graph_row \<Rightarrow> graph_line" where
  "graph_line_of now d r =
     \<lparr>gl_graph = g_id r, gl_subject = (g_subject_type r, g_subject_id r), gl_kind = given (g_kind r),
      gl_revision = given (g_revision r), gl_status = g_status r, gl_generation = g_generation r,
      gl_elapsed = py_round 1 ((case g_settled_at r of Some t \<Rightarrow> t | None \<Rightarrow> now) - g_started r),
      gl_overdue = (g_overdue_at r \<noteq> None), gl_previous = g_previous r,
      gl_nodes = map (node_cell_of d r) (ordered_nodes (g_id r) d),
      gl_can_cancel = (g_status r \<in> {GRunning, GWaiting}),
      gl_can_resume = (g_status r = GFailed),
      gl_preview = (if g_status r = GFailed
        then (case preview_resume (g_id r) None d of Inr p \<Rightarrow> Some p | Inl e \<Rightarrow> None) else None)\<rparr>"

definition graph_rows :: "time \<Rightarrow> page_filters \<Rightarrow> db \<Rightarrow> graph_line list" where
  "graph_rows now fl d =
     map (graph_line_of now d) (newest graph_limit g_created
       (apply_filters fl g_subject_type g_subject_id (Some \<circ> g_id) (d_graphs d)))"

record member_cell =
  mc_step :: "nat option"
  mc_func :: string
  mc_status :: "task_status option"
  mc_gated :: bool

record workflow_line =
  wl_workflow :: id
  wl_kind :: wf_type
  wl_status :: wf_status
  wl_subject :: "string option \<times> string option"
  wl_gated :: bool
  wl_counters :: "nat \<times> nat \<times> nat \<times> nat"
  wl_members :: "member_cell list"
  wl_can_approve :: bool
  wl_can_cancel :: bool

definition cancellable :: "wf_status list" where
  "cancellable = [WPending, WRunning, WWaiting]"

text \<open>A step that has no task is shown as not queued.\<close>

definition step_status :: "db \<Rightarrow> step_row \<Rightarrow> task_status option" where
  "step_status d s = map_option t_status (Option.bind (s_task s) (\<lambda>i. get_task i d))"

definition chain_line :: "db \<Rightarrow> chain_row \<Rightarrow> workflow_line" where
  "chain_line d c =
     (let ss = sort_key s_index (filter (\<lambda>s. s_chain s = c_id c) (d_steps d));
          succ = length (filter (\<lambda>s. step_status d s = Some TSucceeded) ss) in
      \<lparr>wl_workflow = c_id c, wl_kind = ChainWf, wl_status = c_status c,
       wl_subject = (c_subject_type c, c_subject_id c), wl_gated = list_ex s_gate ss,
       wl_counters = (succ, length ss, succ, 0),
       wl_members = map (\<lambda>s. \<lparr>mc_step = Some (s_index s), mc_func = func_name (s_func s),
          mc_status = step_status d s, mc_gated = s_gate s\<rparr>) ss,
       wl_can_approve = (c_status c = WWaiting), wl_can_cancel = (c_status c \<in> set cancellable)\<rparr>)"

definition par_line :: "db \<Rightarrow> par_row \<Rightarrow> workflow_line" where
  "par_line d p =
     \<lparr>wl_workflow = p_id p, wl_kind = p_type p, wl_status = p_status p,
      wl_subject = (p_subject_type p, p_subject_id p), wl_gated = False,
      wl_counters = (p_completed p, p_total p, p_success p, p_failure p),
      wl_members = map (\<lambda>t. \<lparr>mc_step = None, mc_func = func_name (t_func t),
         mc_status = Some (t_status t), mc_gated = False\<rparr>)
         (take member_limit (par_members (p_id p) (p_type p) d)),
      wl_can_approve = False, wl_can_cancel = (p_status p \<in> set cancellable)\<rparr>"

definition workflow_rows :: "page_filters \<Rightarrow> db \<Rightarrow> workflow_line list" where
  "workflow_rows fl d =
     (let pars = (\<lambda>ty. map (par_line d) (newest workflow_limit p_created
          (apply_filters fl p_subject_type p_subject_id p_graph_id
            (filter (\<lambda>p. p_type p = ty) (d_pars d))))) in
      map (chain_line d) (newest workflow_limit c_created
        (apply_filters fl c_subject_type c_subject_id c_graph_id (d_chains d)))
      @ pars IterWf @ pars BatchWf)"

fun rounded :: "pyval \<Rightarrow> pyval option" where
  "rounded (PInt i) = Some (PInt i)"
| "rounded (PFloat r) = Some (PFloat (py_round 6 r))"
| "rounded _ = None"

definition attempt_task :: "db \<Rightarrow> (task_row \<Rightarrow> 'a option) \<Rightarrow> attempt_row \<Rightarrow> 'a option" where
  "attempt_task d f a = Option.bind (get_task (a_task a) d) f"

definition usage_rollup :: "world \<Rightarrow> page_filters \<Rightarrow> db \<Rightarrow> (dict \<times> pyval option) res" where
  "usage_rollup w fl d =
     (let rows = take usage_attempt_cap (apply_filters fl (attempt_task d t_subject_type)
          (attempt_task d t_subject_id) (attempt_task d t_graph_id)
          (attempts_where (\<lambda>a. a_usage a \<noteq> None) d)) in
      rbind (sum_usage (w_pricing w) (map a_usage rows)) (\<lambda>totals.
      Inr (map (\<lambda>(k, v). (k, the (rounded v)))
             (filter (\<lambda>(k, v). k \<noteq> ''cost_summary'' \<and> rounded v \<noteq> None) totals),
           dict_get totals ''cost_summary'')))"

definition all_statuses :: "task_status list" where
  "all_statuses = [TPending, TRunning, TSucceeded, TFailed, TExhausted]"

definition status_counts :: "page_filters \<Rightarrow> db \<Rightarrow> (task_status \<times> nat) list" where
  "status_counts fl d =
     map (\<lambda>s. (s, hits (\<lambda>t. t_status t = s) (filter_tasks fl (d_tasks d)))) all_statuses"

record page =
  pg_counts :: "(task_status \<times> nat) list"
  pg_queued :: nat
  pg_scheduled :: nat
  pg_next_due_in :: "rat option"
  pg_filters :: page_filters
  pg_tasks :: "task_line list"
  pg_graphs :: "graph_line list"
  pg_workflows :: "workflow_line list"
  pg_dlq :: "(id \<times> string \<times> task_status \<times> nat \<times> string option) list"
  pg_buckets :: "(string \<times> rat) list"
  pg_usage :: dict
  pg_cost :: "pyval option"

text \<open>
  The body of \<^verbatim>\<open>state()\<close>. The earliest scheduled attempt is \<open>earliest_due\<close>; the count
  of Django-Q2 schedules and the metrics health (under Metrics) are left out.
\<close>

definition page_state :: "world \<Rightarrow> time \<Rightarrow> request \<Rightarrow> db \<Rightarrow> page res" where
  "page_state w now rq d =
     (let fl = filters_of rq in
      rbind (check_filters fl) (\<lambda>_.
      rbind (usage_rollup w fl d) (\<lambda>(usage, c).
      Inr \<lparr>pg_counts = status_counts fl d, pg_queued = length (d_queue d),
        pg_scheduled = hits (\<lambda>a. a_state a = Scheduled) (d_attempts d),
        pg_next_due_in = map_option (\<lambda>t. max 0 (py_round 1 (t - now))) (earliest_due d),
        pg_filters = fl, pg_tasks = task_rows now fl d, pg_graphs = graph_rows now fl d,
        pg_workflows = workflow_rows fl d,
        pg_dlq = map (\<lambda>t. (t_id t, func_name (t_func t), t_status t,
            length (task_attempts (t_id t) d), given (t_idem_key t)))
          (take dlq_limit (filter_tasks fl (dead_letters d))),
        pg_buckets = map (\<lambda>b. (b_key b, py_round 2 (b_tokens b))) (d_buckets d),
        pg_usage = usage, pg_cost = c\<rparr>)))"

section \<open>What the engine refuses\<close>

text \<open>A refusal is a GraphError: the view answers it with a 4xx status.\<close>

definition refused :: "'a res \<Rightarrow> bool" where
  "refused x = (case x of Inl (GraphError s) \<Rightarrow> True | _ \<Rightarrow> False)"

lemma refused_simps [simp]:
  "\<not> refused (Inr a)" "refused (Inl (GraphError s))" "\<not> refused (Inl TypeError)"
  "\<not> refused (Inl KeyError)" "\<not> refused (Inl (ValueError s))" "\<not> refused (Inl IntegrityError)"
  "\<not> refused (Inl DoesNotExist)"
  by (simp_all add: refused_def)

lemma refused_rbind: "refused (rbind x f) \<longleftrightarrow> refused x \<or> (\<exists>a. x = Inr a \<and> refused (f a))"
  by (cases x) (auto simp: refused_def split: err.splits)

lemma refused_Inl: "refused (Inl e) \<longleftrightarrow> (\<exists>s. e = GraphError s)"
  by (simp add: refused_def split: err.splits)

lemma refused_map: "refused (rbind x (\<lambda>(s, d). Inr (f s d))) \<longleftrightarrow> refused x"
  by (cases x) (auto simp: refused_Inl)

lemma refused_guard: "refused (guard b e) \<longleftrightarrow> \<not> b \<and> (\<exists>s. e = GraphError s)"
  by (auto simp: refused_def guard_def split: err.splits)

named_theorems accepts

lemma as_list_accepts [accepts]: "\<not> refused (as_list v)"
  by (auto simp: as_list_def split: pyval.splits)

lemma add_usage_accepts [accepts]: "\<not> refused (add_usage a b)"
proof -
  have "\<not> refused (py_plus a b)" by (cases "(a, b)" rule: py_plus.cases) simp_all
  then show ?thesis by (auto simp: add_usage_def split: option.splits)
qed

lemma decimal_accepts [accepts]: "\<not> refused (decimal_or_0 v)"
  by (cases v) (simp_all split: option.splits)

lemma amount_accepts [accepts]: "\<not> refused (amount p e)"
  by (simp add: amount_def refused_rbind accepts)

lemma entry_cost_accepts [accepts]: "\<not> refused (entry_cost r e)"
  by (auto simp: entry_cost_def Let_def refused_rbind accepts split: option.splits)

lemma cost_loop_accepts [accepts]: "\<not> refused (cost_loop r es acc)"
proof (induction es arbitrary: acc)
  case (Cons e es)
  have "\<not> refused (cost_step r e acc)"
    by (auto simp: cost_step_def refused_rbind accepts Let_def split: pyval.splits option.splits)
  then show ?case using Cons.IH by (simp add: refused_rbind)
qed simp

lemma cost_accepts [accepts]: "\<not> refused (cost r u)"
  by (simp add: cost_def refused_rbind accepts)

lemma sum_items_accepts [accepts]: "\<not> refused (sum_items kvs st)"
proof (induction kvs arbitrary: st)
  case (Cons kv kvs)
  have "\<not> refused (sum_item kv st)"
    by (auto simp: sum_item_def refused_rbind accepts split: prod.splits option.splits bool.splits)
  then show ?case using Cons.IH by (simp add: refused_rbind)
qed simp

lemma sum_loop_accepts [accepts]: "\<not> refused (sum_loop us st)"
  by (induction us st rule: sum_loop.induct) (simp_all add: refused_rbind accepts)

lemma build_summary_accepts [accepts]: "\<not> refused (build_summary w r s now d)"
  by (simp add: build_summary_def aggregate_graph_usage_def sum_usage_def cost_summary_of_def refused_rbind
      accepts Let_def)

lemma not_refused_rbind: "\<not> refused x \<Longrightarrow> (\<And>a. \<not> refused (f a)) \<Longrightarrow> \<not> refused (rbind x f)"
  by (simp add: refused_rbind)

lemma guard_accepts [accepts]: "\<not> refused (guard b TypeError)" "\<not> refused (guard b (ValueError s))"
  by (simp_all add: refused_guard)

lemma num_accepts [accepts]: "\<not> refused (num_of v)" "\<not> refused (num_or r v)"
proof -
  show n: "\<not> refused (num_of u)" for u by (cases u) simp_all
  show "\<not> refused (num_or r v)" using n by (simp add: num_or_def)
qed

lemma set_accepts [accepts]: "\<not> refused (py_set v)"
  by (cases v) simp_all

lemma backoff_accepts [accepts]: "\<not> refused (backoff_of s v)"
  by (cases v) simp_all

lemma new_policy_accepts [accepts]: "\<not> refused (new_policy rd o')"
proof -
  have s: "\<not> refused (let v = arg o' k in if truthy v then py_set v else Inr [])"
    "\<not> refused (let v = arg o' k in if v = PNone then Inr dflt else py_set v)" for k dflt
    by (simp_all add: Let_def accepts)
  have m: "\<not> refused (case x of None \<Rightarrow> Inr r | Some v \<Rightarrow> num_of v)" for x r
    by (simp add: accepts split: option.split)
  show ?thesis unfolding new_policy_def by (intro not_refused_rbind accepts s m refused_simps)
qed

lemma policy_accepts [accepts]: "\<not> refused (from_options rd o')"
  by (simp add: from_options_def Let_def refused_rbind accepts)

lemma schedule_accepts [accepts]: "\<not> refused (schedule_attempt now t n nb cl f args d)"
  by (simp add: schedule_attempt_def insert_attempt_def Let_def refused_rbind)

lemma dispatch_node_accepts [accepts]: "\<not> refused (dispatch_node w now r n d)"
  by (auto simp: dispatch_node_def refused_rbind accepts Let_def)

lemma dispatch_all_accepts [accepts]: "\<not> refused (dispatch_all w now r ns d)"
  by (induction ns arbitrary: d) (simp_all add: refused_rbind accepts)

lemma record_settlement_accepts [accepts]: "\<not> refused (record_settlement r d)"
  by (auto simp: record_settlement_def split: option.splits)

lemma get_graph_upd:
  assumes "\<And>x. P x \<Longrightarrow> g_id (f x) = g_id x" "get_graph g d \<noteq> None"
  shows "get_graph g (upd_graphs P f d) \<noteq> None"
  using assms by (simp add: get_graph_def get_by_upd_where)

lemma settle_accepts:
  assumes "get_graph (g_id r) d \<noteq> None"
  shows "\<not> refused (settle w now r s d)"
proof -
  have l: "\<not> refused (locked (g_id r) (upd_graphs P (\<lambda>x. x\<lparr>g_status := s, g_settled_at := Some now,
      g_summary := Some sm, g_updated := now\<rparr>) d))" for P sm
    using get_graph_upd [OF _ assms, of P "\<lambda>x. x\<lparr>g_status := s, g_settled_at := Some now,
      g_summary := Some sm, g_updated := now\<rparr>"] by (auto simp: locked_def split: option.splits)
  show ?thesis unfolding settle_def Let_def
    by (intro not_refused_rbind accepts) (simp add: refused_rbind accepts l)
qed

lemma maybe_settle_accepts:
  "get_graph (g_id r) d \<noteq> None \<Longrightarrow> \<not> refused (maybe_settle w now r d)"
  by (simp add: maybe_settle_def settle_accepts Let_def)

lemma frontier_accepts:
  assumes "get_graph g d \<noteq> None"
  shows "\<not> refused (dispatch_frontier w now g d)"
    "dispatch_frontier w now g d = Inr e \<Longrightarrow> get_graph g e \<noteq> None"
proof -
  show "\<not> refused (dispatch_frontier w now g d)"
    using assms by (auto simp: dispatch_frontier_def locked_def refused_rbind accepts)
  assume "dispatch_frontier w now g d = Inr e"
  then have "\<exists>x. e = d \<or> dispatch_all w now x (ready_nodes g d) d = Inr e"
    by (auto simp: dispatch_frontier_def elim!: rbindE split: if_splits)
  then have "d_graphs e = d_graphs d" by (auto elim: dispatch_all_effect simp: same_view_def)
  with assms show "get_graph g e \<noteq> None" by (simp add: get_graph_def)
qed

lemma advance_accepts:
  assumes "get_graph (g_id r) d \<noteq> None"
  shows "\<not> refused (rbind (dispatch_frontier w now (g_id r) d) (maybe_settle w now r))"
  using frontier_accepts [OF assms, of w now] by (auto simp: refused_rbind maybe_settle_accepts)

section \<open>The buttons of a graph\<close>

text \<open>The requests a row of the page has buttons for, and all that concern its graph and nodes.\<close>

definition graph_actions :: "graph_line \<Rightarrow> action list" where
  "graph_actions v = [CancelGraph (gl_graph v), ResumeGraph (gl_graph v)] @
     List.concat (map (\<lambda>n. [ApproveNode (gl_graph v) (nc_key n), RejectNode (gl_graph v) (nc_key n),
       SkipNode (gl_graph v) (nc_key n)]) (gl_nodes v))"

definition buttons :: "graph_line \<Rightarrow> action list" where
  "buttons v =
     (if gl_can_cancel v then [CancelGraph (gl_graph v)] else []) @
     (if gl_can_resume v \<and> (case gl_preview v of Some (rerun, kept) \<Rightarrow> rerun \<noteq> [] | None \<Rightarrow> False)
      then [ResumeGraph (gl_graph v)] else []) @
     List.concat (map (\<lambda>n.
       (if nc_can_approve n then [ApproveNode (gl_graph v) (nc_key n), RejectNode (gl_graph v) (nc_key n)]
        else []) @
       (if nc_can_skip n then [SkipNode (gl_graph v) (nc_key n)] else [])) (gl_nodes v))"

definition decided :: "bool \<Rightarrow> 'a res \<Rightarrow> bool" where
  "decided b x \<longleftrightarrow> (if b then \<not> refused x else isl x)"

lemma cancel_decided:
  assumes "get_graph g d = Some r" "settled_once r d" "distinct (map g_id (d_graphs d))"
  shows "decided (live_graph (g_status r)) (cancel w now g d)"
proof -
  have r: "r \<in> set (d_graphs d)" "g_id r = g" using get_by_SomeD [OF assms(1) [unfolded get_graph_def]] by blast+
  have l: "locked g d = Inr r" using assms(1) by (simp add: locked_def)
  have st: "\<not> refused (settle w now r GCancelled d)" by (rule settle_accepts) (simp add: r assms(1))
  have some: "live_graph (g_status r) \<longleftrightarrow> x \<noteq> None" if "settle w now r GCancelled d = Inr (x, e)" for x e
    by (rule settle_cases [OF that]) (use assms r in \<open>auto simp: settled_once_def\<close>)
  show ?thesis
  proof (cases "settle w now r GCancelled d")
    case (Inl e)
    then show ?thesis using st by (simp add: cancel_def l decided_def refused_Inl)
  next
    case (Inr a)
    then show ?thesis using some by (cases a) (auto simp: cancel_def l decided_def split: option.splits)
  qed
qed

lemma node_found:
  assumes "nodes_ok (d_nodes d)" "n \<in> set (ordered_nodes g d)"
  shows "node_by_key g (n_key n) d = Some n"
proof -
  have n: "n \<in> set (d_nodes d)" "n_graph n = g" using assms(2) by (simp_all add: graph_nodes_set)
  then obtain m where m: "node_by_key g (n_key n) d = Some m"
    by (cases "node_by_key g (n_key n) d") (auto simp: node_by_key_def find_None_iff)
  from node_by_key_unique(4) [OF assms(1) m n] show ?thesis using m by simp
qed

lemma skip_decided:
  assumes "get_graph g d = Some r" "nodes_ok (d_nodes d)" "n \<in> set (ordered_nodes g d)"
  shows "decided (g_status r = GRunning \<and> n_status n = NPending) (skip w now g (n_key n) reason d)"
proof -
  have l: "locked g d = Inr r" "g_id r = g"
    using assms(1) get_by_SomeD [OF assms(1) [unfolded get_graph_def]] by (simp_all add: locked_def)
  note f = node_found [OF assms(2,3)]
  have h: "hits (\<lambda>x. n_graph x = g \<and> n_key x = n_key n \<and> n_status x = NPending) (d_nodes d) = 0 \<longleftrightarrow>
      n_status n \<noteq> NPending"
    using node_by_key_unique [OF assms(2) f] by (auto simp: hits_0 exists_where_iff)
  have go: "\<not> refused (rbind (dispatch_frontier w now g e) (maybe_settle w now r))"
    if "d_graphs e = d_graphs d" for e
    using advance_accepts [of r e w now] that assms(1) l(2) by (simp add: get_graph_def)
  show ?thesis
    by (auto simp: decided_def skip_def skip_node_def l f h refused_map guard_def go Let_def
        simp del: hits_simps)
qed

lemma approve_decided:
  assumes "get_graph g d = Some r" "nodes_ok (d_nodes d)" "n \<in> set (ordered_nodes g d)"
  shows "decided (live_graph (g_status r) \<and> n_status n = NWaiting) (approve w now g (n_key n) d)"
  using assms(1) node_found [OF assms(2,3)]
  by (auto simp: decided_def approve_def locked_def guard_def refused_rbind accepts Let_def)

lemma reject_decided:
  assumes "get_graph g d = Some r" "nodes_ok (d_nodes d)" "n \<in> set (ordered_nodes g d)"
  shows "decided (live_graph (g_status r) \<and> n_status n = NWaiting) (reject w now g (n_key n) reason d)"
proof -
  have l: "locked g d = Inr r" "g_id r = g"
    using assms(1) get_by_SomeD [OF assms(1) [unfolded get_graph_def]] by (simp_all add: locked_def)
  note f = node_found [OF assms(2,3)]
  have go: "\<not> refused (maybe_settle w now (r\<lparr>g_status := GRunning\<rparr>) (if b then upd_graphs (\<lambda>x. g_id x = g)
      (\<lambda>x. x\<lparr>g_status := GRunning\<rparr>) e else e))" if "d_graphs e = d_graphs d" for b e
  proof (rule maybe_settle_accepts)
    have "get_graph g e \<noteq> None" using that assms(1) by (simp add: get_graph_def)
    then show "get_graph (g_id (r\<lparr>g_status := GRunning\<rparr>)) (if b then upd_graphs (\<lambda>x. g_id x = g)
        (\<lambda>x. x\<lparr>g_status := GRunning\<rparr>) e else e) \<noteq> None"
      using get_graph_upd [of "\<lambda>x. g_id x = g" "\<lambda>x. x\<lparr>g_status := GRunning\<rparr>" g e] by (simp add: l(2))
  qed
  show ?thesis
    using go [of "upd_nodes _ _ d" True] go [of "upd_nodes _ _ d" False]
    by (auto simp: decided_def reject_def reject_node_def l f refused_map guard_def Let_def)
qed

lemma resume_decided:
  assumes "get_graph g d = Some r" "preview_resume g None d = Inr (rerun, kept)"
  shows "decided (g_status r = GFailed \<and> rerun \<noteq> []) (resume w now g None d)"
proof -
  have l: "locked g d = Inr r" using assms(1) by (simp add: locked_def)
  have c: "rerun_closure g None d = Inr rerun" using assms(2) by (auto simp: preview_resume_def l elim!: rbindE)
  show ?thesis
  proof (cases "g_status r = GFailed \<and> rerun \<noteq> []")
    case False
    then have "isl (resume w now g None d)"
      by (cases "g_status r") (simp_all add: resume_def l c guard_def live_graph_def)
    with False show ?thesis by (auto simp: decided_def)
  next
    case True
    define again where "again = (\<lambda>e. upd_graphs (\<lambda>x. g_id x = g) (reopen_graph now)
      (upd_nodes (\<lambda>n. n_graph n = g \<and> n_key n \<in> set rerun) reset_node e))"
    have eq: "resume w now g None d = rbind (record_settlement r d) (\<lambda>d.
        rbind (dispatch_frontier w now g (again d)) (\<lambda>d.
        rbind (locked g d) (\<lambda>r. rbind (maybe_settle w now r d) (\<lambda>(_, d). Inr (card (set rerun), d)))))"
      using True by (simp add: resume_def l c guard_def live_graph_def again_def Let_def)
    have "\<not> refused (rbind (dispatch_frontier w now g (again e)) (\<lambda>d.
        rbind (locked g d) (\<lambda>r. rbind (maybe_settle w now r d) (\<lambda>(_, d). Inr (card (set rerun), d)))))"
      if e: "record_settlement r d = Inr e" for e
    proof -
      from e have "d_graphs e = d_graphs d" by (elim record_settlement_effect) simp
      then have "get_graph g (again e) \<noteq> None"
        using get_graph_upd [of "\<lambda>x. g_id x = g" "reopen_graph now" g "upd_nodes _ _ e"] assms(1)
        by (simp add: again_def reopen_graph_def get_graph_def)
      note f = frontier_accepts [OF this, of w now]
      have "\<not> refused (rbind (locked g h) (\<lambda>r. rbind (maybe_settle w now r h) (\<lambda>(_, d). Inr (card (set rerun), d))))"
        if h: "dispatch_frontier w now g (again e) = Inr h" for h
      proof -
        obtain x where x: "get_graph g h = Some x" using f(2) [OF h] by auto
        have "g_id x = g" using get_by_SomeD [OF x [unfolded get_graph_def]] by blast
        then show ?thesis using x maybe_settle_accepts [of x h w now] by (simp add: locked_def refused_map)
      qed
      with f(1) show ?thesis by (auto simp: refused_rbind)
    qed
    then show ?thesis using True by (simp add: decided_def eq refused_rbind accepts)
  qed
qed

text \<open>What a request that is offered, or not offered, may be answered.\<close>

definition fits :: "bool \<Rightarrow> reply \<Rightarrow> bool" where
  "fits offered p = (case p of
     Json s body \<Rightarrow> if offered then s \<noteq> 404 \<and> s \<noteq> 409 else s \<noteq> 200 | _ \<Rightarrow> True)"

lemma answered_fits:
  assumes "decided b x" "\<And>e s. st e = Some s \<Longrightarrow> s \<noteq> 200 \<and> (\<exists>m. e = GraphError m)"
  shows "fits b (fst (answered st d (rbind x (\<lambda>y. Inr (f y)))))"
proof (cases x)
  case (Inl e)
  show ?thesis
  proof (cases "st e")
    case None
    then show ?thesis by (simp add: Inl answered_def fits_def)
  next
    case (Some s)
    then show ?thesis using assms(1) assms(2) [OF Some] by (auto simp: Inl answered_def fits_def decided_def refused_Inl)
  qed
next
  case (Inr y)
  then show ?thesis using assms(1) by (cases "f y") (simp add: answered_def fits_def decided_def split: if_splits)
qed

lemma graph_statuses:
  "graph_error_status e = Some s \<Longrightarrow> s \<noteq> 200 \<and> (\<exists>m. e = GraphError m)"
  "decision_status e = Some s \<Longrightarrow> s \<noteq> 200 \<and> (\<exists>m. e = GraphError m)"
  by (auto simp: graph_error_status_def decision_status_def split: err.splits if_splits)

lemma act_fits:
  "decided b (cancel w now g d) \<Longrightarrow> fits b (fst (act_on w now tr (CancelGraph g) rq d))"
  "decided b (skip w now g k (Some ''dashboard'') d) \<Longrightarrow> fits b (fst (act_on w now tr (SkipNode g k) rq d))"
  "decided b (approve w now g k d) \<Longrightarrow> fits b (fst (act_on w now tr (ApproveNode g k) rq d))"
  "decided b (reject w now g k (Some ''dashboard'') d) \<Longrightarrow> fits b (fst (act_on w now tr (RejectNode g k) rq d))"
  using answered_fits [OF _ graph_statuses(1)] answered_fits [OF _ graph_statuses(2)]
  by (simp_all add: cancel_graph_def skip_graph_node_def decide_graph_node_def done_body_def)

lemma resume_fits:
  assumes "decided b (resume w now g None d)"
  shows "fits b (fst (act_on w now tr (ResumeGraph g) rq d))"
  using answered_fits [OF assms graph_statuses(1), where d = d and f = "\<lambda>(n, d). ([(''resumed'', pid g), (''rerun'', PInt (int n))], d)"]
  by (simp add: resume_graph_def split_def)

lemma preview_given:
  assumes "get_graph g d = Some r"
  obtains rerun kept where "preview_resume g None d = Inr (rerun, kept)"
  using assms by (auto simp: preview_resume_def locked_def rerun_closure_def)

lemma node_buttons:
  "ApproveNode g k \<in> set (buttons v) \<longleftrightarrow> g = gl_graph v \<and> (\<exists>c \<in> set (gl_nodes v). nc_key c = k \<and> nc_can_approve c)"
  "RejectNode g k \<in> set (buttons v) \<longleftrightarrow> g = gl_graph v \<and> (\<exists>c \<in> set (gl_nodes v). nc_key c = k \<and> nc_can_approve c)"
  "SkipNode g k \<in> set (buttons v) \<longleftrightarrow> g = gl_graph v \<and> (\<exists>c \<in> set (gl_nodes v). nc_key c = k \<and> nc_can_skip c)"
  unfolding buttons_def by (auto split: if_split_asm)

lemma button_of_node:
  assumes "nodes_ok (d_nodes d)" "n \<in> set (ordered_nodes (g_id r) d)"
    and "v = graph_line_of now d r"
  shows "ApproveNode (g_id r) (n_key n) \<in> set (buttons v) \<longleftrightarrow> live_graph (g_status r) \<and> n_status n = NWaiting"
    "RejectNode (g_id r) (n_key n) \<in> set (buttons v) \<longleftrightarrow> live_graph (g_status r) \<and> n_status n = NWaiting"
    "SkipNode (g_id r) (n_key n) \<in> set (buttons v) \<longleftrightarrow> g_status r = GRunning \<and> n_status n = NPending"
proof -
  have u: "m = n" if "m \<in> set (ordered_nodes (g_id r) d)" "n_key m = n_key n" for m
    using assms(1,2) that unfolding nodes_ok_def by (simp add: graph_nodes_set)
  have c: "(\<exists>c \<in> set (gl_nodes v). nc_key c = n_key n \<and> Q c) \<longleftrightarrow> Q (node_cell_of d r n)" for Q
  proof -
    have "gl_nodes v = map (node_cell_of d r) (ordered_nodes (g_id r) d)" by (simp add: assms(3) graph_line_of_def)
    moreover have "nc_key (node_cell_of d r m) = n_key m" for m by (simp add: node_cell_of_def)
    ultimately show ?thesis using assms(2) u by (auto simp del: ordered_nodes_set)
  qed
  have g: "gl_graph v = g_id r" by (simp add: assms(3) graph_line_of_def)
  show "ApproveNode (g_id r) (n_key n) \<in> set (buttons v) \<longleftrightarrow> live_graph (g_status r) \<and> n_status n = NWaiting"
    "RejectNode (g_id r) (n_key n) \<in> set (buttons v) \<longleftrightarrow> live_graph (g_status r) \<and> n_status n = NWaiting"
    "SkipNode (g_id r) (n_key n) \<in> set (buttons v) \<longleftrightarrow> g_status r = GRunning \<and> n_status n = NPending"
    unfolding node_buttons c g by (auto simp: node_cell_of_def live_graph_def)
qed

lemma graph_action_fits:
  assumes "graph_inv d" "r \<in> set (d_graphs d)" "v = graph_line_of now d r" "act \<in> set (graph_actions v)"
  shows "fits (act \<in> set (buttons v)) (fst (act_on w t trace act rq d))"
proof -
  have ok: "nodes_ok (d_nodes d)" "distinct (map g_id (d_graphs d))" "settled_once r d"
    using assms(1,2) by (auto simp: graph_inv_ex_def)
  have g: "get_graph (g_id r) d = Some r" using get_by_distinct [OF ok(2) assms(2)] by (simp add: get_graph_def)
  have line: "gl_graph v = g_id r" by (simp add: assms(3) graph_line_of_def)
  consider (cancel) "act = CancelGraph (g_id r)" | (resume) "act = ResumeGraph (g_id r)"
    | (node) n where "n \<in> set (ordered_nodes (g_id r) d)"
        "act = ApproveNode (g_id r) (n_key n) \<or> act = RejectNode (g_id r) (n_key n) \<or> act = SkipNode (g_id r) (n_key n)"
    using assms(4) by (auto simp: graph_actions_def assms(3) graph_line_of_def node_cell_of_def)
  then show ?thesis
  proof cases
    case cancel
    have "act \<in> set (buttons v) \<longleftrightarrow> live_graph (g_status r)"
      by (auto simp: cancel buttons_def assms(3) graph_line_of_def live_graph_def split: if_splits)
    then show ?thesis using act_fits(1) [OF cancel_decided [OF g ok(3,2)]] cancel by simp
  next
    case resume
    obtain rerun kept where p: "preview_resume (g_id r) None d = Inr (rerun, kept)" by (rule preview_given [OF g])
    have "act \<in> set (buttons v) \<longleftrightarrow> g_status r = GFailed \<and> rerun \<noteq> []"
      by (auto simp: resume buttons_def assms(3) graph_line_of_def p split: if_splits)
    then show ?thesis using resume_fits [OF resume_decided [OF g p]] resume by simp
  next
    case node
    note b = button_of_node [OF ok(1) node(1) assms(3)]
    from node(2) show ?thesis
      using act_fits(2) [OF skip_decided [OF g ok(1) node(1)]] act_fits(3) [OF approve_decided [OF g ok(1) node(1)]]
        act_fits(4) [OF reject_decided [OF g ok(1) node(1)]] by (elim disjE) (simp_all only: b)
  qed
qed

lemma staff_post:
  assumes "rq_post rq" "rq_csrf rq" "is_public conf \<or> is_staff rq"
  shows "dashboard_post conf w now trace act rq d = act_on w now trace act rq d"
  using assms by (simp add: dashboard_post_def require_post_def staff_required_def csrf_protect_def)


definition operator_post :: request where
  "operator_post = \<lparr>rq_post = True, rq_csrf = True, rq_user = Some (True, True), rq_get = []\<rparr>"

definition everything :: page_filters where
  "everything = \<lparr>fl_type = None, fl_id = None, fl_graph = None\<rparr>"


section \<open>A request that is turned down changes nothing\<close>

lemma answered_kept: "answered st d x = (p, e) \<Longrightarrow> e \<noteq> d \<Longrightarrow> \<exists>b. p = Json 200 b"
  by (auto simp: answered_def split: sum.splits prod.splits option.splits)

lemma act_on_kept: "act_on w now trace act rq d = (p, e) \<Longrightarrow> e \<noteq> d \<Longrightarrow> \<exists>b. p = Json 200 b"
  by (cases act)
    (auto simp: requeue_task_def approve_chain_view_def reject_chain_view_def cancel_graph_def resume_graph_def
      skip_graph_node_def decide_graph_node_def cancel_workflow_def Let_def dest: answered_kept
      split: option.splits if_splits)

text \<open>
  C38: a request that is turned down changes nothing. Whatever the dashboard is asked to do, the
  database changes only when the answer is 200, and then the request was a POST with its token from
  an active member of the staff (or the dashboard is public).
\<close>

theorem turned_down_changes_nothing:
  assumes "dashboard_post conf w now trace act rq d = (p, e)" "e \<noteq> d"
  shows "(\<exists>b. p = Json 200 b) \<and> rq_post rq \<and> rq_csrf rq \<and> (is_public conf \<or> is_staff rq)"
proof -
  from assms have g: "rq_post rq" "rq_csrf rq" "is_public conf \<or> is_staff rq"
    by (auto simp: dashboard_post_def require_post_def staff_required_def csrf_protect_def split: if_splits)
  then show ?thesis using act_on_kept assms by (simp add: staff_post)
qed

theorem turned_down_changes_nothing_witness:
  "snd (dashboard_post [] demo_world 3 None (CancelGraph 100) operator_post run_db2) \<noteq> run_db2 \<and>
   (\<exists>b. fst (dashboard_post [] demo_world 3 None (CancelGraph 100) operator_post run_db2) = Json 200 b)"
proof -
  let ?r = "dashboard_post [] demo_world 3 None (CancelGraph 100) operator_post run_db2"
  have "map g_status (d_graphs (snd ?r)) \<noteq> map g_status (d_graphs run_db2)" by code_simp
  then have ch: "snd ?r \<noteq> run_db2" by auto
  from turned_down_changes_nothing [OF prod.collapse [symmetric] ch] ch show ?thesis by blast
qed

section \<open>What the page shows\<close>

text \<open>The counts of the statuses add up to the tasks in view.\<close>

lemma counts_add_up: "sum_list (map snd (status_counts fl d)) = length (filter_tasks fl (d_tasks d))"
proof -
  have "sum_list (map (\<lambda>s. hits (\<lambda>t. t_status t = s) ts) all_statuses) = length ts" for ts
  proof (induction ts)
    case (Cons t ts)
    then show ?case by (cases "t_status t") (simp_all add: all_statuses_def)
  qed (simp add: all_statuses_def)
  then show ?thesis by (simp add: status_counts_def comp_def)
qed

text \<open>Progress in the snapshot of a superseded attempt is never shown.\<close>

lemma superseded_progress_hidden:
  assumes "a_progress a \<in> {None, Some []}" "lookup (current_progress t (Some a)) ''attempt_id'' = PInt (int i)"
  shows "i = a_id a"
  using assms by (auto simp: current_progress_def Let_def lookup_def split: if_splits option.splits)

text \<open>A dead letter on the page can be requeued; a waiting chain can be approved.\<close>

lemma requeue_offered:
  assumes "t \<in> set (dead_letters d)" "distinct (map t_id (d_tasks d))"
  shows "fits True (fst (act_on w now trace (RequeueTask (t_id t)) rq d))"
proof -
  have t: "t \<in> set (d_tasks d)" "dead_status (t_status t)" using assms(1) by (auto simp: dead_letters_def)
  then have "get_task (t_id t) d = Some t" using get_by_distinct [OF assms(2)] by (simp add: get_task_def)
  then show ?thesis
    by (auto simp: requeue_task_def requeue_def t answered_def fits_def schedule_attempt_def insert_attempt_def
        value_error_status_def Let_def rbind_def split: sum.splits if_splits)
qed

lemma approve_offered:
  assumes "get_chain i d = Some c" "wl_can_approve (chain_line d c)"
  shows "\<exists>st. transition_to (c_status c) WRunning = Inr st"
  using assms(2) by (simp add: chain_line_def Let_def transition_to_def)

end
