(* ===== verification/Qraft_Observe.thy ===== *)
theory Qraft_Observe
  imports Qraft_Context Qraft_Metrics "HOL-Library.List_Lexorder" "HOL-Library.Char_ord"
begin

text \<open>
  What an attempt shows to the outside while it runs.
  \<^item> Tracing (\<^verbatim>\<open>qraft/tracing.py\<close>): the span context of one thread. opentelemetry keeps the
    current span in a context variable; attaching a context returns a token, and detaching the token
    puts back what was current before. A span is a number; \<open>traceparent\<close> and \<open>valid\<close> are what
    opentelemetry says of it.
  \<^item> The log filter (\<^verbatim>\<open>qraft/logging.py\<close>).
  \<^item> The OpenTelemetry sink (\<^verbatim>\<open>qraft/metrics/otel.py\<close>): its instruments and the values its
    gauges are observed at.
\<close>

section \<open>Tracing\<close>

record spans =
  sp_made :: "(string \<times> string) list"
  sp_ended :: "nat list"

record thread_trace =
  tt_current :: "nat option"
  tt_token :: "nat option option"

definition detach_current :: "bool \<Rightarrow> thread_trace \<Rightarrow> thread_trace" where
  "detach_current avail t =
     (if \<not> avail then t
      else (case tt_token t of
          None \<Rightarrow> t
        | Some previous \<Rightarrow> t\<lparr>tt_token := None, tt_current := previous\<rparr>))"

text \<open>A made span is its parent's \<^verbatim>\<open>traceparent\<close> and its name.\<close>

definition start_attempt_span ::
  "bool \<Rightarrow> string option \<Rightarrow> string \<Rightarrow> spans \<Rightarrow> thread_trace \<Rightarrow> nat option \<times> spans \<times> thread_trace" where
  "start_attempt_span avail parent name sps t =
     (if \<not> avail then (None, sps, t)
      else
        (let t = detach_current avail t in
         case given parent of
           None \<Rightarrow> (None, sps, t)
         | Some p \<Rightarrow>
             (let i = length (sp_made sps) in
              (Some i, sps\<lparr>sp_made := sp_made sps @ [(p, name)]\<rparr>,
               t\<lparr>tt_current := Some i, tt_token := Some (tt_current t)\<rparr>))))"

definition end_span :: "nat option \<Rightarrow> spans \<Rightarrow> spans" where
  "end_span mine sps = (case mine of None \<Rightarrow> sps | Some i \<Rightarrow> sps\<lparr>sp_ended := sp_ended sps @ [i]\<rparr>)"

definition current_traceparent ::
  "bool \<Rightarrow> (nat \<Rightarrow> bool) \<Rightarrow> (nat \<Rightarrow> string) \<Rightarrow> thread_trace \<Rightarrow> string option" where
  "current_traceparent avail valid traceparent t =
     (if \<not> avail then None
      else (case tt_current t of None \<Rightarrow> None | Some i \<Rightarrow> if valid i then Some (traceparent i) else None))"

section \<open>Log records\<close>

definition log_attributes :: "string list" where
  "log_attributes = [''task_id'', ''attempt_id'', ''attempt_number'', ''graph_id'', ''node_key'', ''generation'',
     ''subject_type'', ''subject_id'']"

definition jnat :: "nat option \<Rightarrow> pyval" where
  "jnat x = (case x of Some i \<Rightarrow> PStr (show_nat i) | None \<Rightarrow> PNone)"

text \<open>What \<^verbatim>\<open>current_context\<close> answers, as the dict of \<^verbatim>\<open>bind_attempt\<close>.\<close>

definition context_dict :: "bound_ids option \<Rightarrow> dict" where
  "context_dict bound =
     (case bound of
        None \<Rightarrow> map (\<lambda>k. (k, PNone)) (log_attributes @ [''func''])
      | Some b \<Rightarrow>
          [(''task_id'', PStr (show_nat (bi_task b))), (''attempt_id'', PStr (show_nat (bi_attempt b))),
           (''attempt_number'', PInt (int (bi_number b))), (''func'', PStr (bi_func b)),
           (''graph_id'', jnat (bi_graph b)), (''node_key'', js (bi_node b)),
           (''generation'', case bi_generation b of Some g \<Rightarrow> PInt (int g) | None \<Rightarrow> PNone),
           (''subject_type'', js (bi_subject_type b)), (''subject_id'', js (bi_subject_id b))])"

definition log_value :: "dict \<Rightarrow> string \<Rightarrow> pyval" where
  "log_value context name = (if lookup context name = PNone then PStr [] else lookup context name)"

definition log_filter :: "dict \<Rightarrow> dict \<Rightarrow> bool \<times> dict" where
  "log_filter context record =
     (True, fold (\<lambda>name. dict_set (''qraft_'' @ name) (log_value context name)) log_attributes record)"

section \<open>The OpenTelemetry sink\<close>

text \<open>
  The instruments made so far with their kind, what counters and histograms were given, and the last
  value of every gauge under its labels in sorted order.
\<close>

record otel =
  ot_counters :: "string list"
  ot_histograms :: "string list"
  ot_gauges :: "string list"
  ot_made :: "(instrument \<times> string) list"
  ot_sent :: "(instrument \<times> string \<times> rat \<times> (string \<times> string) list) list"
  ot_values :: "(string \<times> ((string \<times> string) list \<times> rat) list) list"

definition new_otel :: otel where
  "new_otel = \<lparr>ot_counters = [], ot_histograms = [], ot_gauges = [], ot_made = [], ot_sent = [], ot_values = []\<rparr>"

definition otel_counter :: "string \<Rightarrow> rat \<Rightarrow> (string \<times> string) list \<Rightarrow> otel \<Rightarrow> otel" where
  "otel_counter name v ls s =
     (let s = (if name \<in> set (ot_counters s) then s
               else s\<lparr>ot_counters := ot_counters s @ [name], ot_made := ot_made s @ [(Counter, name)]\<rparr>) in
      s\<lparr>ot_sent := ot_sent s @ [(Counter, name, v, ls)]\<rparr>)"

definition otel_histogram :: "string \<Rightarrow> rat \<Rightarrow> (string \<times> string) list \<Rightarrow> otel \<Rightarrow> otel" where
  "otel_histogram name v ls s =
     (let s = (if name \<in> set (ot_histograms s) then s
               else s\<lparr>ot_histograms := ot_histograms s @ [name], ot_made := ot_made s @ [(Histogram, name)]\<rparr>) in
      s\<lparr>ot_sent := ot_sent s @ [(Histogram, name, v, ls)]\<rparr>)"

definition gauge_values :: "string \<Rightarrow> otel \<Rightarrow> ((string \<times> string) list \<times> rat) list" where
  "gauge_values name s = (case map_of (ot_values s) name of Some vs \<Rightarrow> vs | None \<Rightarrow> [])"

definition otel_gauge :: "string \<Rightarrow> rat \<Rightarrow> (string \<times> string) list \<Rightarrow> otel \<Rightarrow> otel" where
  "otel_gauge name v ls s =
     (let s = s\<lparr>ot_values := AList.update name (AList.update (sort ls) v (gauge_values name s)) (ot_values s)\<rparr> in
      if name \<in> set (ot_gauges s) then s
      else s\<lparr>ot_gauges := ot_gauges s @ [name], ot_made := ot_made s @ [(Gauge, name)]\<rparr>)"

text \<open>The callback of a gauge: an observation for every set of labels.\<close>

definition observe_gauge :: "string \<Rightarrow> otel \<Rightarrow> ((string \<times> string) list \<times> rat) list" where
  "observe_gauge name s = gauge_values name s"

fun otel_call :: "instrument \<Rightarrow> string \<Rightarrow> rat \<Rightarrow> (string \<times> string) list \<Rightarrow> otel \<Rightarrow> otel" where
  "otel_call Counter = otel_counter"
| "otel_call Histogram = otel_histogram"
| "otel_call Gauge = otel_gauge"

section \<open>An attempt leaves nothing on its thread\<close>

text \<open>
  One attempt on a pool thread: \<^verbatim>\<open>pre_execute\<close> binds the attempt and opens its span, log records are
  made while the function runs, and the worker clears both when it ends. \<open>running\<close> is the state in between.
\<close>

record on_thread =
  th_ctx :: ctx
  th_trace :: thread_trace

definition begin_attempt ::
  "bool \<Rightarrow> q2id \<Rightarrow> string option \<Rightarrow> string \<Rightarrow> db \<Rightarrow> spans \<times> on_thread \<Rightarrow> nat option \<times> spans \<times> on_thread" where
  "begin_attempt avail q parent name d x =
     (case x of (sps, th) \<Rightarrow>
       (let cx = snd (current_context (context_pre_execute (Some q) (th_ctx th)) d);
            (mine, sps, t) = start_attempt_span avail parent name sps (th_trace th) in
        (mine, sps, \<lparr>th_ctx = cx, th_trace = t\<rparr>)))"

definition finish_attempt :: "bool \<Rightarrow> nat option \<times> spans \<times> on_thread \<Rightarrow> spans \<times> on_thread" where
  "finish_attempt avail x =
     (case x of (mine, sps, th) \<Rightarrow>
       (end_span mine sps, \<lparr>th_ctx = clear_context (th_ctx th), th_trace = detach_current avail (th_trace th)\<rparr>))"

definition idle_thread :: on_thread where
  "idle_thread = \<lparr>th_ctx = \<lparr>cx_q2 = None, cx_bound = None, cx_claim = None\<rparr>,
     th_trace = \<lparr>tt_current = None, tt_token = None\<rparr>\<rparr>"

fun run_attempts :: "bool \<Rightarrow> (q2id \<times> string option \<times> string \<times> db) list \<Rightarrow> spans \<times> on_thread \<Rightarrow> spans \<times> on_thread" where
  "run_attempts avail [] x = x"
| "run_attempts avail ((q, p, n, d) # as) x =
     run_attempts avail as (finish_attempt avail (begin_attempt avail q p n d x))"

lemma finish_idle:
  assumes "snd x = idle_thread"
  shows "snd (finish_attempt avail (begin_attempt avail q p n d x)) = idle_thread"
proof -
  have "clear_context cx = th_ctx idle_thread" for cx by (simp add: clear_context_def idle_thread_def)
  moreover have "detach_current avail t = th_trace idle_thread"
    if "start_attempt_span avail p n sps (th_trace idle_thread) = (m, sps', t)" for sps m sps' t
    using that by (auto simp: start_attempt_span_def detach_current_def idle_thread_def Let_def split: option.splits if_splits)
  moreover have "\<lparr>th_ctx = th_ctx idle_thread, th_trace = th_trace idle_thread\<rparr> = idle_thread" by simp
  ultimately show ?thesis using assms
    by (auto simp: begin_attempt_def finish_attempt_def Let_def split: prod.splits)
qed

lemma run_attempts_idle: "snd x = idle_thread \<Longrightarrow> snd (run_attempts avail as x) = idle_thread"
  by (induction avail as x rule: run_attempts.induct) (simp_all add: finish_idle)

text \<open>
  An attempt sees only its own trace. Whatever attempts a pool thread ran before, the next one begins
  with no span current unless it carries a trace of its own, and then the current span is a new child of
  that trace; what the thread logs between attempts names none of them.
\<close>

theorem attempt_sees_own_trace:
  assumes "run_attempts avail as (sps, idle_thread) = (sps', th)"
    and "begin_attempt avail q p n d (sps', th) = (mine, sps'', th')"
  shows "(case tt_current (th_trace th') of
      None \<Rightarrow> \<not> avail \<or> given p = None
    | Some i \<Rightarrow> avail \<and> mine = Some i \<and> length (sp_made sps') \<le> i \<and> given p \<noteq> None \<and> sp_made sps'' ! i = (the p, n)) \<and>
    (\<forall>name \<in> set log_attributes. log_value (context_dict (fst (current_context (th_ctx th) d))) name = PStr [])"
proof -
  have th: "th = idle_thread" using run_attempts_idle [of "(sps, idle_thread)" avail as] assms(1) by simp
  have "fst (current_context (th_ctx th) d) = None"
    by (simp add: th idle_thread_def current_context_def current_attempt_def)
  then have "\<forall>name \<in> set log_attributes. log_value (context_dict (fst (current_context (th_ctx th) d))) name = PStr []"
    by (simp add: context_dict_def log_value_def log_attributes_def lookup_def)
  moreover have "case tt_current (th_trace th') of
      None \<Rightarrow> \<not> avail \<or> given p = None
    | Some i \<Rightarrow> avail \<and> mine = Some i \<and> length (sp_made sps') \<le> i \<and> given p \<noteq> None \<and> sp_made sps'' ! i = (the p, n)"
    using assms(2) unfolding th
    by (auto simp: begin_attempt_def start_attempt_span_def idle_thread_def detach_current_def Let_def given_def
        nth_append split: option.splits if_splits)
  ultimately show ?thesis by blast
qed

theorem attempt_sees_own_trace_witness:
  "tt_current (th_trace (snd (snd (begin_attempt True 51 None ''app.work'' progress_db
     (run_attempts True [(50, Some ''00-a-b-01'', ''app.work'', progress_db)] (\<lparr>sp_made = [], sp_ended = []\<rparr>, idle_thread)))))) = None"
proof -
  let ?x = "run_attempts True [(50, Some ''00-a-b-01'', ''app.work'', progress_db)] (\<lparr>sp_made = [], sp_ended = []\<rparr>, idle_thread)"
  let ?y = "begin_attempt True 51 None ''app.work'' progress_db ?x"
  have y: "begin_attempt True 51 None ''app.work'' progress_db (fst ?x, snd ?x) = (fst ?y, fst (snd ?y), snd (snd ?y))" by simp
  from attempt_sees_own_trace [OF prod.collapse [symmetric] y] show ?thesis
    by (simp add: given_def split: option.splits)
qed

section \<open>The sink's instruments\<close>

text \<open>Every instrument is made once.\<close>

definition otel_ok :: "otel \<Rightarrow> bool" where
  "otel_ok s \<longleftrightarrow> distinct (ot_made s) \<and>
     set (ot_made s) = Pair Counter ` set (ot_counters s) \<union> Pair Histogram ` set (ot_histograms s) \<union>
       Pair Gauge ` set (ot_gauges s)"

lemma otel_call_ok: "otel_ok s \<Longrightarrow> otel_ok (otel_call k name v ls s)"
  by (cases k) (auto simp: otel_ok_def otel_counter_def otel_histogram_def otel_gauge_def Let_def)

lemma instruments_made_once:
  "otel_ok (fold (\<lambda>(k, name, v, ls). otel_call k name v ls) calls new_otel)"
proof -
  have "otel_ok s \<Longrightarrow> otel_ok (fold (\<lambda>(k, name, v, ls). otel_call k name v ls) calls s)" for s
    by (induction calls arbitrary: s) (auto simp: otel_call_ok split: prod.splits)
  then show ?thesis by (simp add: otel_ok_def new_otel_def)
qed

text \<open>A gauge is observed at the value it was last set to, whatever the order of the labels.\<close>

lemma gauge_observed:
  "map_of (observe_gauge name (otel_gauge name v ls s)) (sort ls) = Some v"
  "name' \<noteq> name \<Longrightarrow> observe_gauge name' (otel_gauge name v ls s) = observe_gauge name' s"
  by (simp_all add: observe_gauge_def gauge_values_def otel_gauge_def update_conv' Let_def)

end
